(* ===== verification/Tell_Prelude.thy ===== *)
theory Tell_Prelude
  imports Main "HOL-Library.Word"
begin

section \<open>Prelude: bytes, little-endian words and shared collections\<close>

text \<open>
  What the component theories share: the machine types of the crate, little-endian
  byte lists of words (the standard library's \<open>to_le_bytes\<close> and
  \<open>from_le_bytes\<close>), zero padding to a multiple of four, and the collections
  of simplification rules the proofs draw on.

  A \<open>Vec<u8>\<close> is a list of bytes; a \<open>usize\<close> is a natural number (a vector never
  holds more than \<open>isize::MAX\<close> bytes, so sums of lengths do not wrap); a cast
  \<open>as u32\<close> is \<open>of_nat\<close> into a 32-bit word, which wraps.
\<close>

unbundle bit_operations_syntax

type_synonym u8 = "8 word"
type_synonym u16 = "16 word"
type_synonym u32 = "32 word"
type_synonym u64 = "64 word"
type_synonym bytes = "u8 list"

named_theorems layout_simps \<open>lengths and normal forms of encoded byte runs\<close>
named_theorems read_simps \<open>reading a position of an appended buffer\<close>

subsection \<open>Little-endian bytes of a word\<close>

lemma unat_bounds [simp]:
  "unat (a :: u8) < 256" "unat (b :: u16) < 65536"
  "unat (c :: u32) < 4294967296" "unat (d :: u64) < 18446744073709551616"
  using unsigned_less [of a, where 'a = nat] unsigned_less [of b, where 'a = nat]
    unsigned_less [of c, where 'a = nat] unsigned_less [of d, where 'a = nat]
  by simp_all

text \<open>\<open>le_nat k n\<close> is the \<open>k\<close> low bytes of \<open>n\<close>, least significant first.\<close>

fun le_nat :: "nat \<Rightarrow> nat \<Rightarrow> bytes" where
  "le_nat 0 n = []"
| "le_nat (Suc k) n = of_nat (n mod 256) # le_nat k (n div 256)"

fun nat_le :: "bytes \<Rightarrow> nat" where
  "nat_le [] = 0"
| "nat_le (b # bs) = unat b + 256 * nat_le bs"

lemma length_le_nat [simp]: "length (le_nat k n) = k"
  by (induction k arbitrary: n) auto

lemma nat_le_le_nat [simp]: "nat_le (le_nat k n) = n mod 256 ^ k"
proof (induction k arbitrary: n)
  case (Suc k)
  have "unat (of_nat (n mod 256) :: u8) = n mod 256"
    by (simp add: unat_of_nat)
  with Suc show ?case
    by (simp add: mod_mult2_eq)
qed auto

lemma nat_le_bound: "nat_le bs < 256 ^ length bs"
proof (induction bs)
  case (Cons b bs)
  have "unat b < 256"
    by simp
  moreover have "nat_le bs + 1 \<le> 256 ^ length bs"
    using Cons by simp
  ultimately have "unat b + 256 * nat_le bs < 256 * 256 ^ length bs"
    by linarith
  then show ?case by simp
qed auto

lemma le_nat_nat_le: "le_nat (length bs) (nat_le bs) = bs"
proof (induction bs)
  case (Cons b bs)
  have b: "unat b < 256"
    by simp
  then have "(unat b + 256 * nat_le bs) div 256 = nat_le bs"
    by simp
  with Cons b show ?case by simp
qed auto

definition u16_le :: "u16 \<Rightarrow> bytes" where "u16_le v = le_nat 2 (unat v)"
definition u32_le :: "u32 \<Rightarrow> bytes" where "u32_le v = le_nat 4 (unat v)"
definition u64_le :: "u64 \<Rightarrow> bytes" where "u64_le v = le_nat 8 (unat v)"

definition le_u16 :: "bytes \<Rightarrow> u16" where "le_u16 bs = of_nat (nat_le bs)"
definition le_u32 :: "bytes \<Rightarrow> u32" where "le_u32 bs = of_nat (nat_le bs)"
definition le_u64 :: "bytes \<Rightarrow> u64" where "le_u64 bs = of_nat (nat_le bs)"

lemma length_u_le [simp]:
  "length (u16_le a) = 2" "length (u32_le b) = 4" "length (u64_le c) = 8"
  by (simp_all add: u16_le_def u32_le_def u64_le_def)

lemma le_u16_u16_le [simp]: "le_u16 (u16_le v) = v"
  by (simp add: le_u16_def u16_le_def)

lemma le_u32_u32_le [simp]: "le_u32 (u32_le v) = v"
  by (simp add: le_u32_def u32_le_def)

lemma le_u64_u64_le [simp]: "le_u64 (u64_le v) = v"
  by (simp add: le_u64_def u64_le_def)

lemma u32_le_le_u32: "length bs = 4 \<Longrightarrow> u32_le (le_u32 bs) = bs"
  using nat_le_bound [of bs] le_nat_nat_le [of bs]
  by (simp add: u32_le_def le_u32_def unat_of_nat)

lemma u_le_neq_Nil [simp]: "u16_le a \<noteq> []" "u32_le b \<noteq> []" "u64_le c \<noteq> []"
  using length_u_le by (metis list.size(3) zero_neq_numeral)+

text \<open>
  The cast \<open>as u32\<close> keeps the low 32 bits; a length that fits its 32-bit field is read
  back unchanged.
\<close>

definition as_u32 :: "nat \<Rightarrow> u32" where "as_u32 n = of_nat n"

lemma unat_as_u32 [simp]: "n < 2 ^ 32 \<Longrightarrow> unat (as_u32 n) = n"
  by (simp add: as_u32_def unat_of_nat)

lemma those_map_Some [simp]: "those (map (\<lambda>x. Some (f x)) xs) = Some (map f xs)"
  by (induction xs) auto

subsection \<open>Padding to four bytes\<close>

definition pad4 :: "nat \<Rightarrow> nat" where
  "pad4 n = (4 - n mod 4) mod 4"

definition zeros :: "nat \<Rightarrow> bytes" where
  "zeros n = replicate n 0"

lemma length_zeros [simp]: "length (zeros n) = n"
  by (simp add: zeros_def)

lemma zeros_0 [simp]: "zeros 0 = []"
  by (simp add: zeros_def)

lemma zeros_add: "zeros (m + n) = zeros m @ zeros n"
  by (simp add: zeros_def replicate_add)

lemma le_nat_0: "le_nat k 0 = zeros k"
  by (induction k) (simp_all add: zeros_def)

lemma u32_le_0: "u32_le 0 = zeros 4"
  by (simp add: u32_le_def le_nat_0)

lemma pad4_eq: "pad4 n = (if 4 dvd n then 0 else 4 - n mod 4)"
proof (cases "4 dvd n")
  case False
  then have "0 < n mod 4" by (simp add: dvd_eq_mod_eq_0)
  with False show ?thesis by (simp add: pad4_def)
qed (simp add: pad4_def dvd_eq_mod_eq_0)

lemma pad4_lt: "pad4 n < 4"
  by (simp add: pad4_def)

lemma pad4_0: "4 dvd n \<Longrightarrow> pad4 n = 0"
  by (simp add: pad4_eq)

lemma pad4_aligned: "4 dvd n + pad4 n"
proof -
  define q r where "q = n div 4" and "r = n mod 4"
  have n: "n = 4 * q + r" and r: "r < 4" by (simp_all add: q_def r_def)
  from r have "n + (4 - r) = 4 * (q + 1)" unfolding n by simp
  then have "4 dvd n + (4 - n mod 4)" unfolding r_def [symmetric] by (metis dvd_triv_left)
  then show ?thesis by (simp add: pad4_eq)
qed

lemma pad4_add: "4 dvd m \<Longrightarrow> pad4 (m + n) = pad4 n" "4 dvd m \<Longrightarrow> pad4 (n + m) = pad4 n"
  by (auto simp: pad4_def dvd_def)

lemma pad4_step: "\<not> 4 dvd n \<Longrightarrow> pad4 n = Suc (pad4 (Suc n))"
proof -
  assume a: "\<not> 4 dvd n"
  have "n mod 4 = 1 \<or> n mod 4 = 2 \<or> n mod 4 = 3"
    using a by (simp add: dvd_eq_mod_eq_0) linarith
  then show ?thesis
    by (auto simp: pad4_def mod_Suc)
qed

lemma pad4_mod: "n mod 4 = m mod 4 \<Longrightarrow> pad4 n = pad4 m"
  by (simp add: pad4_def)

lemma mod_add_pad4: "n mod 4 = m mod 4 \<Longrightarrow> (n + pad4 n) mod 4 = (m + pad4 m) mod 4"
  using pad4_aligned [of n] pad4_aligned [of m] by (simp add: dvd_eq_mod_eq_0)

text \<open>
  A run of sections laid out from position \<open>n\<close>, each padded with zeros to a position
  divisible by four: where each starts, and the bytes of the run.
\<close>

fun sect_starts :: "nat \<Rightarrow> bytes list \<Rightarrow> nat list" where
  "sect_starts n [] = []"
| "sect_starts n (d # ds) = (n + pad4 n) # sect_starts (n + pad4 n + length d) ds"

fun sect_bytes :: "nat \<Rightarrow> bytes list \<Rightarrow> bytes" where
  "sect_bytes n [] = []"
| "sect_bytes n (d # ds) = zeros (pad4 n) @ d @ sect_bytes (n + pad4 n + length d) ds"

lemma length_sect_starts [simp]: "length (sect_starts n ds) = length ds"
  by (induction ds arbitrary: n) auto

lemma sect_split:
  assumes "i < length ds"
  shows "\<exists>a b. sect_bytes n ds = a @ ds ! i @ b \<and> n + length a = sect_starts n ds ! i"
  using assms
proof (induction ds arbitrary: n i)
  case (Cons d ds)
  show ?case
  proof (cases i)
    case 0
    then show ?thesis
      by (intro exI [of _ "zeros (pad4 n)"] exI [of _ "sect_bytes (n + pad4 n + length d) ds"]) simp
  next
    case (Suc j)
    with Cons.prems have "j < length ds" by simp
    from Cons.IH [OF this, of "n + pad4 n + length d"] obtain a b where
      "sect_bytes (n + pad4 n + length d) ds = a @ ds ! j @ b"
      "n + pad4 n + length d + length a = sect_starts (n + pad4 n + length d) ds ! j"
      by blast
    then have "sect_bytes n (d # ds) = (zeros (pad4 n) @ d @ a) @ (d # ds) ! i @ b \<and>
        n + length (zeros (pad4 n) @ d @ a) = sect_starts n (d # ds) ! i"
      by (simp add: Suc)
    then show ?thesis by blast
  qed
qed simp

lemma sect_bytes_bound: "length (sect_bytes n ds) \<le> 3 * length ds + sum_list (map length ds)"
proof (induction ds arbitrary: n)
  case (Cons d ds)
  show ?case
    using Cons [of "n + pad4 n + length d"] pad4_lt [of n] by simp
qed simp

lemma sect_starts_ge: "p \<in> set (sect_starts n ds) \<Longrightarrow> n \<le> p"
  by (induction ds arbitrary: n) fastforce+

lemma sect_starts_end: "i < length ds \<Longrightarrow>
    sect_starts n ds ! i + length (ds ! i) \<le> n + length (sect_bytes n ds)"
  using sect_split [of i ds n] by auto

lemma sect_bounds:
  assumes "k < length ds" "length (sect_bytes n ds) < m"
  shows "n \<le> sect_starts n ds ! k" "sect_starts n ds ! k + length (ds ! k) < n + m"
  using assms sect_starts_end [of k ds n] sect_starts_ge [of "sect_starts n ds ! k" n ds]
  by auto

text \<open>Starting at another position with the same remainder shifts the run.\<close>

lemma sect_bytes_mod: "n mod 4 = m mod 4 \<Longrightarrow> sect_bytes n ds = sect_bytes m ds"
proof (induction ds arbitrary: n m)
  case (Cons d ds)
  have "(n + pad4 n + length d) mod 4 = (m + pad4 m + length d) mod 4"
    using Cons.prems pad4_mod [OF Cons.prems] by (metis mod_add_left_eq)
  from Cons.IH [OF this] show ?case
    by (simp add: pad4_mod [OF Cons.prems])
qed simp

lemma sect_starts_mod:
  "n mod 4 = m mod 4 \<Longrightarrow> map (\<lambda>p. p - n) (sect_starts n ds) = map (\<lambda>p. p - m) (sect_starts m ds)"
proof -
  have "sect_starts (n + k) ds = map (\<lambda>p. p - m + n) (sect_starts (m + k) ds)"
    if "n mod 4 = m mod 4" for k
    using that
  proof (induction ds arbitrary: k)
    case (Cons d ds)
    have p: "pad4 (n + k) = pad4 (m + k)"
      using Cons.prems by (intro pad4_mod) (metis mod_add_left_eq)
    show ?case
      using Cons.IH [OF Cons.prems, of "k + pad4 (m + k) + length d"]
      by (simp add: p add.assoc)
  qed simp
  from this [of 0] show "n mod 4 = m mod 4 \<Longrightarrow> ?thesis"
    by (auto simp: comp_def)
qed

lemma sect_start_rel:
  assumes "n mod 4 = m mod 4" "k < length ds" "d \<le> c"
  shows "sect_starts (n + c) ds ! k - (d + n) = sect_starts (m + c) ds ! k - (d + m)"
proof -
  have "(n + c) mod 4 = (m + c) mod 4"
    using assms(1) by (metis mod_add_left_eq)
  from arg_cong [OF sect_starts_mod [OF this, of ds], of "\<lambda>xs. xs ! k"]
  have "sect_starts (n + c) ds ! k - (n + c) = sect_starts (m + c) ds ! k - (m + c)"
    using assms(2) by simp
  moreover have "n + c \<le> sect_starts (n + c) ds ! k" "m + c \<le> sect_starts (m + c) ds ! k"
    using assms(2) by (auto intro!: sect_starts_ge nth_mem)
  ultimately show ?thesis using assms(3) by linarith
qed

declare sect_starts.simps [simp del, layout_simps] sect_bytes.simps [simp del, layout_simps]

text \<open>
  Optional values written to a buffer: nothing for \<open>None\<close>, the encoding otherwise;
  and the offset slot that goes with one, zero when it is absent.
\<close>

definition opt_bytes :: "('a \<Rightarrow> bytes) \<Rightarrow> 'a option \<Rightarrow> bytes" where
  "opt_bytes f x = (case x of None \<Rightarrow> [] | Some y \<Rightarrow> f y)"

lemma opt_bytes_simps [simp]: "opt_bytes f None = []" "opt_bytes f (Some y) = f y"
  by (simp_all add: opt_bytes_def)

lemma if_some [layout_simps]: "(if \<exists>y. x = Some y then a else b) = (if x = None then b else a)"
  by auto

definition opt_slot :: "'a option \<Rightarrow> nat \<Rightarrow> u32" where
  "opt_slot x off = (case x of None \<Rightarrow> 0 | Some _ \<Rightarrow> as_u32 off)"

lemma opt_slot_simps [simp]: "opt_slot None k = 0" "opt_slot (Some y) k = as_u32 k"
  by (simp_all add: opt_slot_def)

end
