(* ===== verification/Wire_Types.thy ===== *)
theory Wire_Types
  imports Tell_Prelude
begin

section \<open>The wire types of \<open>tell-encoding\<close> (\<open>lib.rs\<close>)\<close>

text \<open>
  Constants, enums and parameter structs of \<^verbatim>\<open>crates/tell-encoding/src/lib.rs\<close>.
  A \<open>&str\<close> is the list of its UTF-8 bytes, an \<open>f64\<close> its IEEE 754 bit pattern
  (the encoders only copy it), and an array \<open>[u8; 16]\<close> a byte list whose length the
  well-formedness predicates below pin to 16.
\<close>

type_synonym str = bytes
type_synonym f64 = u64

definition API_KEY_LENGTH :: nat where "API_KEY_LENGTH = 16"
definition UUID_LENGTH :: nat where "UUID_LENGTH = 16"
definition DEFAULT_VERSION :: u8 where "DEFAULT_VERSION = 100"

datatype SchemaType = SchemaUnknown | SchemaEvent | SchemaLog | SchemaMetric

fun schema_u8 :: "SchemaType \<Rightarrow> u8" where
  "schema_u8 SchemaUnknown = 0"
| "schema_u8 SchemaEvent = 1"
| "schema_u8 SchemaLog = 2"
| "schema_u8 SchemaMetric = 3"

datatype EventType = EventUnknown | Track | Identify | Group | Alias | EventEnrich | EventContext

fun event_type_u8 :: "EventType \<Rightarrow> u8" where
  "event_type_u8 EventUnknown = 0"
| "event_type_u8 Track = 1"
| "event_type_u8 Identify = 2"
| "event_type_u8 Group = 3"
| "event_type_u8 Alias = 4"
| "event_type_u8 EventEnrich = 5"
| "event_type_u8 EventContext = 6"

datatype LogEventType = LogEventUnknown | LogEventLog | LogEventEnrich

fun log_event_type_u8 :: "LogEventType \<Rightarrow> u8" where
  "log_event_type_u8 LogEventUnknown = 0"
| "log_event_type_u8 LogEventLog = 1"
| "log_event_type_u8 LogEventEnrich = 2"

datatype LogLevel = Emergency | Alert | Critical | Error | Warning | Notice | Info | Debug | Trace

fun log_level_u8 :: "LogLevel \<Rightarrow> u8" where
  "log_level_u8 Emergency = 0"
| "log_level_u8 Alert = 1"
| "log_level_u8 Critical = 2"
| "log_level_u8 Error = 3"
| "log_level_u8 Warning = 4"
| "log_level_u8 Notice = 5"
| "log_level_u8 Info = 6"
| "log_level_u8 Debug = 7"
| "log_level_u8 Trace = 8"

text \<open>Levels are ordered by their RFC 5424 severity number: the more severe is the smaller.\<close>

instantiation LogLevel :: linorder
begin

definition less_eq_LogLevel :: "LogLevel \<Rightarrow> LogLevel \<Rightarrow> bool" where
  "less_eq_LogLevel a b \<longleftrightarrow> log_level_u8 a \<le> log_level_u8 b"

definition less_LogLevel :: "LogLevel \<Rightarrow> LogLevel \<Rightarrow> bool" where
  "less_LogLevel a b \<longleftrightarrow> log_level_u8 a < log_level_u8 b"

instance
proof
  fix a b c :: LogLevel
  show "(a < b) = (a \<le> b \<and> \<not> b \<le> a)" by (auto simp: less_eq_LogLevel_def less_LogLevel_def)
  show "a \<le> a" by (simp add: less_eq_LogLevel_def)
  show "a \<le> b \<Longrightarrow> b \<le> c \<Longrightarrow> a \<le> c" by (auto simp: less_eq_LogLevel_def)
  show "a = b" if "a \<le> b" "b \<le> a"
  proof -
    have "log_level_u8 a = log_level_u8 b" using that by (simp add: less_eq_LogLevel_def)
    then show ?thesis by (cases a; cases b) simp_all
  qed
  show "a \<le> b \<or> b \<le> a" by (auto simp: less_eq_LogLevel_def)
qed

end

datatype MetricType = MetricUnknown | Gauge | Counter | Histogram

fun metric_type_u8 :: "MetricType \<Rightarrow> u8" where
  "metric_type_u8 MetricUnknown = 0"
| "metric_type_u8 Gauge = 1"
| "metric_type_u8 Counter = 2"
| "metric_type_u8 Histogram = 3"

datatype Temporality = Unspecified | Cumulative | Delta

fun temporality_u8 :: "Temporality \<Rightarrow> u8" where
  "temporality_u8 Unspecified = 0"
| "temporality_u8 Cumulative = 1"
| "temporality_u8 Delta = 2"

record EventParams =
  ev_event_type :: EventType
  ev_timestamp :: u64
  ev_service :: "str option"
  ev_device_id :: "bytes option"
  ev_session_id :: "bytes option"
  ev_event_name :: "str option"
  ev_payload :: "bytes option"

record LogEntryParams =
  lg_event_type :: LogEventType
  lg_session_id :: "bytes option"
  lg_level :: LogLevel
  lg_timestamp :: u64
  lg_source :: "str option"
  lg_service :: "str option"
  lg_payload :: "bytes option"

record LabelParam =
  lb_key :: str
  lb_value :: str

record HistogramParams =
  hp_count :: u64
  hp_sum :: f64
  hp_min :: f64
  hp_max :: f64
  hp_buckets :: "(f64 \<times> u64) list"

record MetricEntryParams =
  mt_metric_type :: MetricType
  mt_timestamp :: u64
  mt_name :: str
  mt_value :: f64
  mt_source :: "str option"
  mt_service :: "str option"
  mt_labels :: "LabelParam list"
  mt_temporality :: Temporality
  mt_histogram :: "HistogramParams option"
  mt_session_id :: "bytes option"

record BatchParams =
  bp_api_key :: bytes
  bp_schema_type :: SchemaType
  bp_version :: u8
  bp_batch_id :: u64
  bp_data :: bytes

subsection \<open>The discriminants are injective\<close>

text \<open>
  A reader maps a discriminant back to its variant; \<open>None\<close> is a byte no variant has.
\<close>

fun schema_of_u8 :: "u8 \<Rightarrow> SchemaType option" where
  "schema_of_u8 b = List.find (\<lambda>t. schema_u8 t = b)
     [SchemaUnknown, SchemaEvent, SchemaLog, SchemaMetric]"

fun event_type_of_u8 :: "u8 \<Rightarrow> EventType option" where
  "event_type_of_u8 b = List.find (\<lambda>t. event_type_u8 t = b)
     [EventUnknown, Track, Identify, Group, Alias, EventEnrich, EventContext]"

fun log_event_type_of_u8 :: "u8 \<Rightarrow> LogEventType option" where
  "log_event_type_of_u8 b = List.find (\<lambda>t. log_event_type_u8 t = b)
     [LogEventUnknown, LogEventLog, LogEventEnrich]"

fun log_level_of_u8 :: "u8 \<Rightarrow> LogLevel option" where
  "log_level_of_u8 b = List.find (\<lambda>t. log_level_u8 t = b)
     [Emergency, Alert, Critical, Error, Warning, Notice, Info, Debug, Trace]"

fun metric_type_of_u8 :: "u8 \<Rightarrow> MetricType option" where
  "metric_type_of_u8 b = List.find (\<lambda>t. metric_type_u8 t = b)
     [MetricUnknown, Gauge, Counter, Histogram]"

fun temporality_of_u8 :: "u8 \<Rightarrow> Temporality option" where
  "temporality_of_u8 b = List.find (\<lambda>t. temporality_u8 t = b) [Unspecified, Cumulative, Delta]"

lemma schema_of_u8_inv [simp]: "schema_of_u8 (schema_u8 t) = Some t"
  by (cases t) simp_all

lemma event_type_of_u8_inv [simp]: "event_type_of_u8 (event_type_u8 t) = Some t"
  by (cases t) simp_all

lemma log_event_type_of_u8_inv [simp]:
  "log_event_type_of_u8 (log_event_type_u8 t) = Some t"
  by (cases t) simp_all

lemma log_level_of_u8_inv [simp]: "log_level_of_u8 (log_level_u8 t) = Some t"
  by (cases t) simp_all

lemma metric_type_of_u8_inv [simp]: "metric_type_of_u8 (metric_type_u8 t) = Some t"
  by (cases t) simp_all

lemma temporality_of_u8_inv [simp]: "temporality_of_u8 (temporality_u8 t) = Some t"
  by (cases t) simp_all

declare schema_of_u8.simps [simp del] event_type_of_u8.simps [simp del]
  log_event_type_of_u8.simps [simp del] log_level_of_u8.simps [simp del]
  metric_type_of_u8.simps [simp del] temporality_of_u8.simps [simp del]

end
