(* ===== verification/Wire_Helpers.thy ===== *)
theory Wire_Helpers
  imports Wire_Types "HOL-Library.Monad_Syntax"
begin

section \<open>Buffer primitives (\<open>helpers.rs\<close>)\<close>

text \<open>
  The writers of \<^verbatim>\<open>crates/tell-encoding/src/helpers.rs\<close>. A \<open>&mut Vec<u8>\<close> is passed
  and returned. The two operations that can panic, a slice assignment out of range and a
  backward offset (\<open>target - offset_pos\<close> on \<open>usize\<close>), return \<open>None\<close> then, so that
  the encoders' totality is a theorem and not an assumption.
\<close>

definition write_u16 :: "bytes \<Rightarrow> u16 \<Rightarrow> bytes" where
  "write_u16 buf v = buf @ u16_le v"

definition write_u32 :: "bytes \<Rightarrow> u32 \<Rightarrow> bytes" where
  "write_u32 buf v = buf @ u32_le v"

definition write_u64 :: "bytes \<Rightarrow> u64 \<Rightarrow> bytes" where
  "write_u64 buf v = buf @ u64_le v"

definition write_f64 :: "bytes \<Rightarrow> f64 \<Rightarrow> bytes" where
  "write_f64 buf v = buf @ u64_le v"

definition write_i32 :: "bytes \<Rightarrow> 32 word \<Rightarrow> bytes" where
  "write_i32 buf v = buf @ u32_le v"

function align4 :: "bytes \<Rightarrow> bytes" where
  "align4 buf = (if \<not> 4 dvd length buf then align4 (buf @ [0]) else buf)"
  by pat_completeness auto
termination
  by (relation "measure (\<lambda>buf. pad4 (length buf))") (auto simp: pad4_step)

declare align4.simps [simp del]

definition write_byte_vector :: "bytes \<Rightarrow> bytes \<Rightarrow> bytes \<times> nat" where
  "write_byte_vector buf data =
     (let start = length buf;
          buf = write_u32 buf (as_u32 (length data));
          buf = buf @ data
      in (buf, start))"

definition write_string :: "bytes \<Rightarrow> str \<Rightarrow> bytes \<times> nat" where
  "write_string buf s =
     (let start = length buf;
          buf = write_u32 buf (as_u32 (length s));
          buf = buf @ s;
          buf = buf @ [0]
      in (buf, start))"

text \<open>\<open>buf[p..p + xs.len()].copy_from_slice(xs)\<close>\<close>

definition copy_into :: "bytes \<Rightarrow> nat \<Rightarrow> bytes \<Rightarrow> bytes option" where
  "copy_into buf p xs =
     (if p + length xs \<le> length buf
      then Some (take p buf @ xs @ drop (p + length xs) buf) else None)"

definition patch_offset :: "bytes \<Rightarrow> nat \<Rightarrow> nat \<Rightarrow> bytes option" where
  "patch_offset buf offset_pos target =
     (if target < offset_pos then None
      else let rel = as_u32 (target - offset_pos) in copy_into buf offset_pos (u32_le rel))"

text \<open>
  Two idioms every encoder repeats: \<open>x.map(|v| write(buf, v))\<close>, which writes an optional
  value and keeps where it starts, and \<open>if let Some(start) = s \{ patch_offset(..) \}\<close>.
  \<open>reserve_slots\<close> is the loop \<open>for _ in 0..count \{ write_u32(buf, 0) \}\<close> and
  \<open>patch_slots\<close> the loop that fills those slots.
\<close>

definition write_opt :: "(bytes \<Rightarrow> 'a \<Rightarrow> bytes \<times> nat) \<Rightarrow> bytes \<Rightarrow> 'a option \<Rightarrow> bytes \<times> nat option" where
  "write_opt w buf x =
     (case x of None \<Rightarrow> (buf, None) | Some v \<Rightarrow> (let (buf, start) = w buf v in (buf, Some start)))"

definition patch_opt :: "bytes \<Rightarrow> nat \<Rightarrow> nat option \<Rightarrow> bytes option" where
  "patch_opt buf off_pos start =
     (case start of None \<Rightarrow> Some buf | Some t \<Rightarrow> patch_offset buf off_pos t)"

fun reserve_slots :: "bytes \<Rightarrow> nat \<Rightarrow> bytes" where
  "reserve_slots buf 0 = buf"
| "reserve_slots buf (Suc n) = reserve_slots (write_u32 buf 0) n"

fun patch_slots :: "bytes \<Rightarrow> nat \<Rightarrow> nat list \<Rightarrow> bytes option" where
  "patch_slots buf offset_pos [] = Some buf"
| "patch_slots buf offset_pos (t # ts) =
     do { buf \<leftarrow> patch_offset buf offset_pos t; patch_slots buf (offset_pos + 4) ts }"

text \<open>
  The loop over the elements of a vector of tables, which collects the position of each
  table, and the vector around it: count, one reserved slot per element, the elements, and
  the slots patched. \<open>encode_labels\<close>, \<open>encode_buckets\<close> and every \<open>encode_*_data\<close>
  and \<open>encode_*_data_into\<close> contain this code around their own element writer.
\<close>

fun write_elems :: "(bytes \<Rightarrow> 'a \<Rightarrow> (bytes \<times> nat) option) \<Rightarrow> bytes \<Rightarrow> 'a list \<Rightarrow> (bytes \<times> nat list) option" where
  "write_elems w buf [] = Some (buf, [])"
| "write_elems w buf (x # xs) = do {
     (buf, t) \<leftarrow> w buf x;
     (buf, ts) \<leftarrow> write_elems w buf xs;
     Some (buf, t # ts) }"

definition write_table_vector ::
  "(bytes \<Rightarrow> 'a \<Rightarrow> (bytes \<times> nat) option) \<Rightarrow> bytes \<Rightarrow> 'a list \<Rightarrow> (bytes \<times> nat) option" where
  "write_table_vector w buf xs =
     (let count = length xs;
          vec_start = length buf;
          buf = write_u32 buf (as_u32 count);
          offsets_start = length buf;
          buf = reserve_slots buf count;
          buf = align4 buf
      in do {
        (buf, table_positions) \<leftarrow> write_elems w buf xs;
        buf \<leftarrow> patch_slots buf offsets_start table_positions;
        Some (buf, vec_start) })"

subsection \<open>Normal forms: what each writer appends\<close>

lemma write_append [layout_simps]:
  "write_u16 buf a = buf @ u16_le a" "write_u32 buf b = buf @ u32_le b"
  "write_u64 buf c = buf @ u64_le c" "write_f64 buf c = buf @ u64_le c"
  "write_i32 buf b = buf @ u32_le b"
  by (simp_all add: write_u16_def write_u32_def write_u64_def write_f64_def write_i32_def)

lemma align4_append [layout_simps]: "align4 buf = buf @ zeros (pad4 (length buf))"
proof (induction buf rule: align4.induct)
  case (1 buf)
  show ?case
  proof (cases "4 dvd length buf")
    case True
    then show ?thesis by (simp add: align4.simps [of buf] pad4_0)
  next
    case False
    then have "align4 buf = (buf @ [0]) @ zeros (pad4 (length (buf @ [0])))"
      using 1 by (simp add: align4.simps [of buf])
    with False show ?thesis
      by (simp add: zeros_def pad4_step)
  qed
qed

definition byte_vector :: "bytes \<Rightarrow> bytes" where
  "byte_vector data = u32_le (as_u32 (length data)) @ data"

definition string_bytes :: "str \<Rightarrow> bytes" where
  "string_bytes s = u32_le (as_u32 (length s)) @ s @ [0]"

lemma length_vectors [simp]:
  "length (byte_vector d) = 4 + length d" "length (string_bytes s) = 5 + length s"
  by (simp_all add: byte_vector_def string_bytes_def)

lemma write_byte_vector_eq [layout_simps]: "write_byte_vector buf d = (buf @ byte_vector d, length buf)"
  by (simp add: write_byte_vector_def byte_vector_def write_append)

lemma write_string_eq [layout_simps]: "write_string buf s = (buf @ string_bytes s, length buf)"
  by (simp add: write_string_def string_bytes_def write_append)

lemma write_opt_eq [layout_simps]:
  "write_opt write_byte_vector buf x = (buf @ opt_bytes byte_vector x, map_option (\<lambda>_. length buf) x)"
  "write_opt write_string buf y = (buf @ opt_bytes string_bytes y, map_option (\<lambda>_. length buf) y)"
  by (simp_all add: write_opt_def opt_bytes_def write_byte_vector_eq write_string_eq split: option.split)

lemma reserve_slots_eq [layout_simps]: "reserve_slots buf n = buf @ zeros (4 * n)"
proof (induction n arbitrary: buf)
  case (Suc n)
  have "zeros (4 * Suc n) = zeros 4 @ zeros (4 * n)"
    by (simp add: zeros_add [symmetric])
  with Suc show ?case
    by (simp add: write_append u32_le_0)
qed simp

subsection \<open>Assignments into an appended buffer\<close>

lemma copy_into_skip [layout_simps]:
  "length xs \<le> p \<Longrightarrow> copy_into (xs @ ys) p v = map_option ((@) xs) (copy_into ys (p - length xs) v)"
  by (auto simp: copy_into_def)

lemma copy_into_here [layout_simps]:
  "length xs = length v \<Longrightarrow> copy_into (xs @ ys) 0 v = Some (v @ ys)"
  by (simp add: copy_into_def)

lemma copy_into_cons [layout_simps]:
  "0 < p \<Longrightarrow> copy_into (x # ys) p v = map_option ((#) x) (copy_into ys (p - 1) v)"
  using copy_into_skip [of "[x]" p ys v] by (cases "copy_into ys (p - 1) v") (auto simp: Suc_le_eq)

lemma copy_into_length: "copy_into buf p xs = Some buf' \<Longrightarrow> length buf' = length buf"
  by (auto simp: copy_into_def split: if_splits)

text \<open>An optional slot assignment, with the offset already relative to the slot.\<close>

definition slot_write :: "bytes \<Rightarrow> nat \<Rightarrow> u32 option \<Rightarrow> bytes option" where
  "slot_write buf p v = (case v of None \<Rightarrow> Some buf | Some w \<Rightarrow> copy_into buf p (u32_le w))"

lemma patch_opt_slot [layout_simps]:
  "p \<le> t \<Longrightarrow> patch_opt buf p (map_option (\<lambda>_. t) x) =
     slot_write buf p (map_option (\<lambda>_. as_u32 (t - p)) x)"
  by (cases x) (simp_all add: patch_opt_def slot_write_def patch_offset_def Let_def)

lemma slot_write_skip [layout_simps]:
  "length xs \<le> p \<Longrightarrow> slot_write (xs @ ys) p v = map_option ((@) xs) (slot_write ys (p - length xs) v)"
  by (cases v) (simp_all add: slot_write_def copy_into_skip)

lemma slot_write_cons [layout_simps]:
  "0 < p \<Longrightarrow> slot_write (x # ys) p v = map_option ((#) x) (slot_write ys (p - 1) v)"
  by (cases v) (simp_all add: slot_write_def copy_into_cons)

lemma slot_write_here [layout_simps]:
  "slot_write (u32_le 0 @ ys) 0 (map_option (\<lambda>_. as_u32 k) x) = Some (u32_le (opt_slot x k) @ ys)"
  by (cases x) (simp_all add: slot_write_def copy_into_here)

lemma patch_offset_here [layout_simps]:
  "p \<le> t \<Longrightarrow> patch_offset buf p t = copy_into buf p (u32_le (as_u32 (t - p)))"
  by (simp add: patch_offset_def Let_def)

text \<open>
  Filling the slots reserved at the position where a vector starts: slot \<open>i\<close> holds the
  distance from itself to its target.
\<close>

fun slot_words :: "nat \<Rightarrow> nat list \<Rightarrow> bytes" where
  "slot_words p [] = []"
| "slot_words p (t # ts) = u32_le (as_u32 (t - p)) @ slot_words (p + 4) ts"

lemma length_slot_words [simp]: "length (slot_words p ts) = 4 * length ts"
  by (induction ts arbitrary: p) auto

lemma slot_words_shift: "slot_words (n + k) (map (\<lambda>r. r + n) rs) = slot_words k rs"
  by (induction rs arbitrary: k) (simp_all add: add.assoc)

lemma patch_slots_eq:
  assumes "length hole = 4 * length ts" and "\<And>t. t \<in> set ts \<Longrightarrow> length pre + 4 * length ts \<le> t"
  shows "patch_slots (pre @ hole @ post) (length pre) ts = Some (pre @ slot_words (length pre) ts @ post)"
  using assms
proof (induction ts arbitrary: pre hole)
  case Nil
  then show ?case by simp
next
  case (Cons t ts)
  define h1 h2 where "h1 = take 4 hole" and "h2 = drop 4 hole"
  have hole: "hole = h1 @ h2" "length h1 = 4" "length h2 = 4 * length ts"
    using Cons.prems(1) by (simp_all add: h1_def h2_def)
  have t: "length pre \<le> t" using Cons.prems(2) [of t] by simp
  let ?w = "u32_le (as_u32 (t - length pre))"
  have step: "patch_offset (pre @ hole @ post) (length pre) t = Some ((pre @ ?w) @ h2 @ post)"
    using t by (simp add: hole layout_simps)
  have "patch_slots ((pre @ ?w) @ h2 @ post) (length (pre @ ?w)) ts =
      Some ((pre @ ?w) @ slot_words (length (pre @ ?w)) ts @ post)"
  proof (rule Cons.IH)
    fix u assume "u \<in> set ts"
    then show "length (pre @ ?w) + 4 * length ts \<le> u"
      using Cons.prems(2) [of u] by simp
  qed (rule hole(3))
  then show ?case
    by (simp add: step)
qed

end
