(* ===== verification/Flat_Reader.thy ===== *)
theory Flat_Reader
  imports Wire_Helpers
begin

section \<open>Reading a FlatBuffer\<close>

text \<open>
  The abstract side of the encoders: a reader of the FlatBuffers binary layout as the
  layout comment of \<^verbatim>\<open>batch.rs\<close> and the crate's own tests read it. A root word leads to
  a table; a table starts with the distance back to its vtable; vtable slot \<open>i\<close> holds the
  distance from the table to field \<open>i\<close>, or zero when the field is absent; a reference
  field holds the distance to its target. Every read is checked; \<open>None\<close> is a malformed
  buffer. The round-trip theorems say that this reader recovers the parameters of every
  encoder.
\<close>

definition rd_bytes :: "bytes \<Rightarrow> nat \<Rightarrow> nat \<Rightarrow> bytes option" where
  "rd_bytes b p n = (if p + n \<le> length b then Some (take n (drop p b)) else None)"

definition rd8 :: "bytes \<Rightarrow> nat \<Rightarrow> u8 option" where
  "rd8 b p = map_option hd (rd_bytes b p 1)"

definition rd16 :: "bytes \<Rightarrow> nat \<Rightarrow> nat option" where
  "rd16 b p = map_option (\<lambda>w. unat (le_u16 w)) (rd_bytes b p 2)"

definition rd32 :: "bytes \<Rightarrow> nat \<Rightarrow> nat option" where
  "rd32 b p = map_option (\<lambda>w. unat (le_u32 w)) (rd_bytes b p 4)"

definition rd64 :: "bytes \<Rightarrow> nat \<Rightarrow> u64 option" where
  "rd64 b p = map_option le_u64 (rd_bytes b p 8)"

text \<open>The table a root word at \<open>base\<close> points to.\<close>

definition fb_root :: "bytes \<Rightarrow> nat \<Rightarrow> nat option" where
  "fb_root b base = do { off \<leftarrow> rd32 b base; Some (base + off) }"

text \<open>Position of field \<open>i\<close> of the table at \<open>t\<close>; the inner \<open>None\<close> is an absent field.\<close>

definition fb_field :: "bytes \<Rightarrow> nat \<Rightarrow> nat \<Rightarrow> nat option option" where
  "fb_field b t i = do {
     so \<leftarrow> rd32 b t;
     if t < so then None else do {
       vsize \<leftarrow> rd16 b (t - so);
       if vsize < 6 + 2 * i then Some None else do {
         off \<leftarrow> rd16 b (t - so + (4 + 2 * i));
         Some (if off = 0 then None else Some (t + off)) } } }"

definition fb_scalar8 :: "bytes \<Rightarrow> nat \<Rightarrow> nat \<Rightarrow> u8 option" where
  "fb_scalar8 b t i = do { f \<leftarrow> fb_field b t i; case f of None \<Rightarrow> Some 0 | Some p \<Rightarrow> rd8 b p }"

definition fb_scalar64 :: "bytes \<Rightarrow> nat \<Rightarrow> nat \<Rightarrow> u64 option" where
  "fb_scalar64 b t i = do { f \<leftarrow> fb_field b t i; case f of None \<Rightarrow> Some 0 | Some p \<Rightarrow> rd64 b p }"

text \<open>The target of a reference field, read by \<open>rd\<close>.\<close>

definition fb_ref :: "(bytes \<Rightarrow> nat \<Rightarrow> 'a option) \<Rightarrow> bytes \<Rightarrow> nat \<Rightarrow> nat \<Rightarrow> 'a option option" where
  "fb_ref rd b t i = do {
     f \<leftarrow> fb_field b t i;
     case f of None \<Rightarrow> Some None
     | Some p \<Rightarrow> do { off \<leftarrow> rd32 b p; x \<leftarrow> rd b (p + off); Some (Some x) } }"

definition fb_vector :: "bytes \<Rightarrow> nat \<Rightarrow> bytes option" where
  "fb_vector b q = do { n \<leftarrow> rd32 b q; rd_bytes b (q + 4) n }"

definition fb_string :: "bytes \<Rightarrow> nat \<Rightarrow> str option" where
  "fb_string b q = do {
     n \<leftarrow> rd32 b q; s \<leftarrow> rd_bytes b (q + 4) n; z \<leftarrow> rd8 b (q + 4 + n);
     if z = 0 then Some s else None }"

text \<open>A vector of tables: \<open>n\<close> slots, each with the distance to its table.\<close>

fun fb_slots :: "(bytes \<Rightarrow> nat \<Rightarrow> 'a option) \<Rightarrow> bytes \<Rightarrow> nat \<Rightarrow> nat \<Rightarrow> 'a list option" where
  "fb_slots rd b p 0 = Some []"
| "fb_slots rd b p (Suc n) =
     do { off \<leftarrow> rd32 b p; x \<leftarrow> rd b (p + off); xs \<leftarrow> fb_slots rd b (p + 4) n; Some (x # xs) }"

definition fb_tables :: "(bytes \<Rightarrow> nat \<Rightarrow> 'a option) \<Rightarrow> bytes \<Rightarrow> nat \<Rightarrow> 'a list option" where
  "fb_tables rd b q = do { n \<leftarrow> rd32 b q; fb_slots rd b (q + 4) n }"

subsection \<open>Reading an appended buffer\<close>

lemma rd_bytes_skip: "length xs \<le> p \<Longrightarrow> rd_bytes (xs @ ys) p n = rd_bytes ys (p - length xs) n"
  by (auto simp: rd_bytes_def)

lemma rd_bytes_here: "length xs = n \<Longrightarrow> rd_bytes (xs @ ys) 0 n = Some xs"
  by (auto simp: rd_bytes_def)

lemma rd_bytes_at: "p = length pre \<Longrightarrow> n = length xs \<Longrightarrow> rd_bytes (pre @ xs @ ys) p n = Some xs"
  by (simp add: rd_bytes_skip rd_bytes_here)

lemma rd_skip [read_simps]:
  assumes "length xs \<le> p"
  shows "rd8 (xs @ ys) p = rd8 ys (p - length xs)" "rd16 (xs @ ys) p = rd16 ys (p - length xs)"
    "rd32 (xs @ ys) p = rd32 ys (p - length xs)" "rd64 (xs @ ys) p = rd64 ys (p - length xs)"
    "rd_bytes (xs @ ys) p n = rd_bytes ys (p - length xs) n"
  using assms by (simp_all add: rd8_def rd16_def rd32_def rd64_def rd_bytes_skip)

lemma rd_cons [read_simps]:
  assumes "0 < p"
  shows "rd8 (x # ys) p = rd8 ys (p - 1)" "rd16 (x # ys) p = rd16 ys (p - 1)"
    "rd32 (x # ys) p = rd32 ys (p - 1)" "rd64 (x # ys) p = rd64 ys (p - 1)"
    "rd_bytes (x # ys) p n = rd_bytes ys (p - 1) n"
  using assms rd_skip [of "[x]" p ys] by (simp_all add: Suc_le_eq)

lemma rd_here [read_simps]:
  "rd8 (x # ys) 0 = Some x" "rd16 (u16_le a @ ys) 0 = Some (unat a)"
  "rd32 (u32_le b @ ys) 0 = Some (unat b)" "rd64 (u64_le c @ ys) 0 = Some c"
  "length xs = n \<Longrightarrow> rd_bytes (xs @ ys) 0 n = Some xs"
  "rd_bytes ys 0 0 = Some []"
  "rd16 (u16_le a) 0 = Some (unat a)" "rd32 (u32_le b) 0 = Some (unat b)" "rd64 (u64_le c) 0 = Some c"
  by (simp_all add: rd8_def rd16_def rd32_def rd64_def rd_bytes_here)
     (simp_all add: rd_bytes_def)

lemma fb_slots_nth:
  assumes "length xs = k"
    and "\<And>i. i < k \<Longrightarrow> \<exists>off. rd32 b (p + 4 * i) = Some off \<and> rd b (p + 4 * i + off) = Some (xs ! i)"
  shows "fb_slots rd b p k = Some xs"
  using assms
proof (induction k arbitrary: xs p)
  case (Suc k)
  then obtain y ys where xs: "xs = y # ys" "length ys = k"
    by (cases xs) auto
  from Suc.prems(2) [of 0] obtain off where "rd32 b p = Some off" "rd b (p + off) = Some y"
    by (auto simp: xs)
  moreover have "fb_slots rd b (p + 4) k = Some ys"
  proof (rule Suc.IH [OF xs(2)])
    fix i assume "i < k"
    then show "\<exists>off. rd32 b (p + 4 + 4 * i) = Some off \<and> rd b (p + 4 + 4 * i + off) = Some (ys ! i)"
      using Suc.prems(2) [of "Suc i"] by (simp add: xs add.assoc)
  qed
  ultimately show ?case by (simp add: xs)
qed simp

lemma rd32_slot_words:
  "i < length ts \<Longrightarrow> rd32 (slot_words p ts @ ys) (4 * i) = Some (unat (as_u32 (ts ! i - (p + 4 * i))))"
proof (induction ts arbitrary: p i)
  case (Cons t ts)
  show ?case
  proof (cases i)
    case (Suc j)
    with Cons show ?thesis by (simp add: read_simps add.assoc)
  qed (simp add: read_simps)
qed simp

lemma fb_vector_at:
  assumes "q = length pre" "length d < 2 ^ 32"
  shows "fb_vector (pre @ byte_vector d @ post) q = Some d"
  using assms by (simp add: fb_vector_def byte_vector_def read_simps)

lemma fb_string_at:
  assumes "q = length pre" "length s < 2 ^ 32"
  shows "fb_string (pre @ string_bytes s @ post) q = Some s"
  using assms by (simp add: fb_string_def string_bytes_def read_simps)

subsection \<open>Vtables and optional sections\<close>

text \<open>
  A vtable as the encoders write it: its size, the table's size, one word per field, the
  alignment padding, and the table's first word, the distance back to the vtable.
\<close>

definition vtable :: "u16 \<Rightarrow> u16 list \<Rightarrow> nat \<Rightarrow> bytes" where
  "vtable tsize slots pad =
     u16_le (of_nat (4 + 2 * length slots)) @ u16_le tsize @ concat (map u16_le slots) @
     zeros pad @ u32_le (as_u32 (4 + 2 * length slots + pad))"

lemma length_concat_u16 [simp]: "length (concat (map u16_le ws)) = 2 * length ws"
  by (induction ws) auto

lemma length_vtable [simp]: "length (vtable ts ws pad) = 8 + 2 * length ws + pad"
  by (simp add: vtable_def)

lemma rd16_concat: "i < length ws \<Longrightarrow> rd16 (concat (map u16_le ws) @ ys) (2 * i) = Some (unat (ws ! i))"
proof (induction ws arbitrary: i)
  case (Cons w ws)
  then show ?case
    by (cases i) (simp_all add: read_simps)
qed simp

lemma fb_field_vtable:
  assumes t: "t = length pre + (4 + 2 * length ws + pad)"
    and small: "length ws < 100" "pad < 4" and i: "i < length ws"
  shows "fb_field (pre @ vtable ts ws pad @ post) t i =
    Some (if ws ! i = 0 then None else Some (t + unat (ws ! i)))"
proof -
  have vs: "unat (of_nat (4 + 2 * length ws) :: u16) = 4 + 2 * length ws"
    using small(1) by (simp add: unat_of_nat del: of_nat_add of_nat_mult)
  let ?b = "pre @ vtable ts ws pad @ post"
  have so: "rd32 ?b t = Some (4 + 2 * length ws + pad)"
    using small by (simp add: vtable_def t read_simps del: of_nat_add of_nat_mult)
  have size: "rd16 ?b (length pre) = Some (4 + 2 * length ws)"
    by (simp add: vtable_def read_simps vs del: of_nat_add of_nat_mult)
  have slot: "rd16 ?b (length pre + (4 + 2 * i)) = Some (unat (ws ! i))"
    using rd16_concat [OF i] by (simp add: vtable_def read_simps del: of_nat_add of_nat_mult)
  show ?thesis
    unfolding fb_field_def using so size slot i
    by (simp add: t unat_eq_0)
qed

text \<open>
  A reference field whose slot holds the distance to the \<open>k\<close>-th section of a run, or zero
  when the optional value is absent, is read back as that optional value.
\<close>

lemma fb_ref_section:
  assumes field: "fb_field (pre @ sect_bytes (length pre) ds @ post) t i =
      Some (if x = None then None else Some p)"
    and slot: "rd32 (pre @ sect_bytes (length pre) ds @ post) p =
      Some (unat (opt_slot x (sect_starts (length pre) ds ! k - p)))"
    and k: "k < length ds" "ds ! k = opt_bytes enc x" and p: "p \<le> length pre"
    and bound: "sect_starts (length pre) ds ! k - p < 2 ^ 32"
    and rd: "\<And>v a c. x = Some v \<Longrightarrow> length a = sect_starts (length pre) ds ! k \<Longrightarrow>
      rd (a @ enc v @ c) (length a) = Some v"
  shows "fb_ref rd (pre @ sect_bytes (length pre) ds @ post) t i = Some x"
proof (cases x)
  case None
  with field show ?thesis by (simp add: fb_ref_def)
next
  case (Some v)
  from sect_split [OF k(1), of "length pre"] obtain a c where
    ac: "sect_bytes (length pre) ds = a @ enc v @ c" "sect_starts (length pre) ds ! k = length pre + length a"
    using k(2) Some by auto
  have "rd ((pre @ a) @ enc v @ (c @ post)) (length (pre @ a)) = Some v"
    by (rule rd [OF Some]) (simp add: ac)
  with field slot bound p Some show ?thesis
    by (simp add: fb_ref_def ac)
qed

lemma rd_bytes_mono: "rd_bytes xs p n = Some v \<Longrightarrow> rd_bytes (xs @ ys) p n = Some v"
  by (auto simp: rd_bytes_def split: if_splits)

lemma rd_mono:
  "rd8 xs p = Some a \<Longrightarrow> rd8 (xs @ ys) p = Some a"
  "rd16 xs p = Some c \<Longrightarrow> rd16 (xs @ ys) p = Some c"
  "rd32 xs p = Some c \<Longrightarrow> rd32 (xs @ ys) p = Some c"
  "rd64 xs p = Some d \<Longrightarrow> rd64 (xs @ ys) p = Some d"
  by (auto simp: rd8_def rd16_def rd32_def rd64_def dest: rd_bytes_mono)

text \<open>
  Reading a field of a table written as vtable, inline part \<open>body\<close> and what follows. The
  offset \<open>w\<close> of a field counts from the table, whose first four bytes end the vtable run.
\<close>

lemma rd_body:
  assumes "t = length pre + (4 + 2 * length ws + pad)" "4 \<le> w"
  shows "rd8 body (w - 4) = Some a \<Longrightarrow> rd8 (pre @ vtable ts ws pad @ body @ rest) (t + w) = Some a"
    "rd32 body (w - 4) = Some c \<Longrightarrow> rd32 (pre @ vtable ts ws pad @ body @ rest) (t + w) = Some c"
    "rd64 body (w - 4) = Some d \<Longrightarrow> rd64 (pre @ vtable ts ws pad @ body @ rest) (t + w) = Some d"
  using assms by (simp_all add: rd_skip rd_mono)

lemma fb_scalar_entry:
  assumes "t = length pre + (4 + 2 * length ws + pad)" "length ws < 100" "pad < 4" "i < length ws"
    and "ws ! i = w" "w \<noteq> 0" "4 \<le> unat w"
  shows "rd8 body (unat w - 4) = Some a \<Longrightarrow>
      fb_scalar8 (pre @ vtable ts ws pad @ body @ rest) t i = Some a"
    "rd64 body (unat w - 4) = Some d \<Longrightarrow>
      fb_scalar64 (pre @ vtable ts ws pad @ body @ rest) t i = Some d"
  unfolding fb_scalar8_def fb_scalar64_def
  by (subst fb_field_vtable [OF assms(1-4)]; use assms in \<open>simp add: rd_body\<close>)+

lemma fb_ref_entry:
  assumes t: "t = length pre + (4 + 2 * length ws + pad)" "length ws < 100" "pad < 4" "i < length ws"
    and w: "ws ! i = (if x = None then 0 else w)" "w \<noteq> 0" "4 \<le> unat w"
    and n: "n = t + 4 + length body" "t + unat w \<le> n"
    and slot: "rd32 body (unat w - 4) = Some (unat (opt_slot x (sect_starts n ds ! k - (t + unat w))))"
    and k: "k < length ds" "ds ! k = opt_bytes enc x"
    and bound: "sect_starts n ds ! k - (t + unat w) < 2 ^ 32"
    and rd: "\<And>v a c. x = Some v \<Longrightarrow> length a = sect_starts n ds ! k \<Longrightarrow>
      rd (a @ enc v @ c) (length a) = Some v"
  shows "fb_ref rd (pre @ vtable ts ws pad @ body @ sect_bytes n ds @ post) t i = Some x"
proof -
  let ?pre = "pre @ vtable ts ws pad @ body"
  have len: "length ?pre = n" using t n by simp
  have "fb_ref rd (?pre @ sect_bytes (length ?pre) ds @ post) t i = Some x"
  proof (rule fb_ref_section [where k = k and p = "t + unat w" and enc = enc])
    have "fb_field (pre @ vtable ts ws pad @ (body @ sect_bytes (length ?pre) ds @ post)) t i =
        Some (if ws ! i = 0 then None else Some (t + unat (ws ! i)))"
      by (rule fb_field_vtable [OF t])
    then show "fb_field (?pre @ sect_bytes (length ?pre) ds @ post) t i =
        Some (if x = None then None else Some (t + unat w))"
      using w by auto
    show "rd32 (?pre @ sect_bytes (length ?pre) ds @ post) (t + unat w) =
        Some (unat (opt_slot x (sect_starts (length ?pre) ds ! k - (t + unat w))))"
      using rd_body(2) [OF t(1) w(3) slot, of ts "sect_bytes n ds @ post"] by (simp only: len append_assoc)
  qed (use len n k bound rd in \<open>simp_all only: len\<close>)
  then show ?thesis by (simp only: len append_assoc)
qed

text \<open>The same for a target anywhere in what follows the inline part.\<close>

lemma fb_ref_entry_at:
  assumes t: "t = length pre + (4 + 2 * length ws + pad)" "length ws < 100" "pad < 4" "i < length ws"
    and w: "ws ! i = (if x = None then 0 else w)" "w \<noteq> 0" "4 \<le> unat w"
    and slot: "rd32 body (unat w - 4) = Some (unat (opt_slot x (q - (t + unat w))))"
    and q: "t + unat w \<le> q" "q - (t + unat w) < 2 ^ 32"
    and rd: "\<And>v. x = Some v \<Longrightarrow> rd (pre @ vtable ts ws pad @ body @ rest) q = Some v"
  shows "fb_ref rd (pre @ vtable ts ws pad @ body @ rest) t i = Some x"
proof -
  let ?b = "pre @ vtable ts ws pad @ body @ rest"
  have "fb_field ?b t i = Some (if x = None then None else Some (t + unat w))"
    using fb_field_vtable [OF t, of ts "body @ rest"] w by auto
  moreover have "rd32 ?b (t + unat w) = Some (unat (opt_slot x (q - (t + unat w))))"
    by (rule rd_body(2) [OF t(1) w(3) slot])
  ultimately show ?thesis
    using q rd by (cases x) (simp_all add: fb_ref_def)
qed

end
