(* ===== verification/Enc_Data.thy ===== *)
theory Enc_Data
  imports Flat_Reader
begin

section \<open>Vectors of tables and the data envelopes\<close>

text \<open>
  The code that \<open>encode_event_data\<close>, \<open>encode_log_data\<close> and \<open>encode_metric_data\<close>
  share (and their \<open>_into\<close> variants), with the contract of an element writer as a locale.
\<close>

subsection \<open>The contract of an element writer\<close>

text \<open>
  An element writer appends \<open>lay n x\<close> when the buffer holds \<open>n\<close> bytes and returns the
  position of the table it wrote; a reader at that position recovers the element wherever
  the bytes around it come from; and the layout depends on \<open>n\<close> only through its alignment.
\<close>

locale element_writer =
  fixes w :: "bytes \<Rightarrow> 'a \<Rightarrow> (bytes \<times> nat) option"
    and lay :: "nat \<Rightarrow> 'a \<Rightarrow> bytes"
    and tab :: "nat \<Rightarrow> 'a \<Rightarrow> nat"
    and rd :: "bytes \<Rightarrow> nat \<Rightarrow> 'a option"
  assumes writes: "w buf x = Some (buf @ lay (length buf) x, length buf + tab (length buf) x)"
    and tab_le: "tab n x \<le> length (lay n x)"
    and lay_mod: "n mod 4 = m mod 4 \<Longrightarrow> lay n x = lay m x \<and> tab n x = tab m x"
    and reads: "length (lay n x) < 2 ^ 32 \<Longrightarrow> length pre = n \<Longrightarrow>
      rd (pre @ lay n x @ post) (n + tab n x) = Some x"
begin

fun elems_bytes :: "nat \<Rightarrow> 'a list \<Rightarrow> bytes" where
  "elems_bytes n [] = []"
| "elems_bytes n (x # xs) = lay n x @ elems_bytes (n + length (lay n x)) xs"

fun elems_tabs :: "nat \<Rightarrow> 'a list \<Rightarrow> nat list" where
  "elems_tabs n [] = []"
| "elems_tabs n (x # xs) = (n + tab n x) # elems_tabs (n + length (lay n x)) xs"

lemma length_elems_tabs [simp]: "length (elems_tabs n xs) = length xs"
  by (induction xs arbitrary: n) auto

lemma write_elems_eq: "write_elems w buf xs = Some (buf @ elems_bytes (length buf) xs, elems_tabs (length buf) xs)"
  by (induction xs arbitrary: buf) (simp_all add: writes)

lemma elems_tabs_range:
  "t \<in> set (elems_tabs n xs) \<Longrightarrow> n \<le> t \<and> t \<le> n + length (elems_bytes n xs)"
proof (induction xs arbitrary: n)
  case (Cons x xs)
  then show ?case using tab_le [of n x] by fastforce
qed simp

lemma elems_split:
  assumes "i < length xs"
  shows "\<exists>a c m. elems_bytes n xs = a @ lay m (xs ! i) @ c \<and> m = n + length a
    \<and> elems_tabs n xs ! i = m + tab m (xs ! i)"
  using assms
proof (induction xs arbitrary: n i)
  case (Cons x xs)
  show ?case
  proof (cases i)
    case 0
    then show ?thesis
      by (intro exI [of _ "[]"] exI [of _ "elems_bytes (n + length (lay n x)) xs"] exI [of _ n]) simp
  next
    case (Suc j)
    with Cons.prems have "j < length xs" by simp
    from Cons.IH [OF this, of "n + length (lay n x)"] obtain a c m where
      "elems_bytes (n + length (lay n x)) xs = a @ lay m (xs ! j) @ c" "m = n + length (lay n x) + length a"
      "elems_tabs (n + length (lay n x)) xs ! j = m + tab m (xs ! j)" by blast
    then show ?thesis
      by (intro exI [of _ "lay n x @ a"] exI [of _ c] exI [of _ m]) (simp add: Suc)
  qed
qed simp

text \<open>The bytes of the whole vector, from position \<open>n\<close>.\<close>

definition vec_layout :: "nat \<Rightarrow> 'a list \<Rightarrow> bytes" where
  "vec_layout n xs =
     (let q = n + 4 + 4 * length xs; q' = q + pad4 q in
      u32_le (as_u32 (length xs)) @ slot_words (n + 4) (elems_tabs q' xs) @ zeros (pad4 q) @
      elems_bytes q' xs)"

lemma write_table_vector_eq:
  "write_table_vector w buf xs = Some (buf @ vec_layout (length buf) xs, length buf)"
proof -
  define q where "q = length buf + 4 + 4 * length xs"
  define pre where "pre = buf @ u32_le (as_u32 (length xs))"
  let ?ts = "elems_tabs (q + pad4 q) xs" and ?es = "elems_bytes (q + pad4 q) xs"
  have hdr: "align4 (reserve_slots (write_u32 buf (as_u32 (length xs))) (length xs)) =
      pre @ zeros (4 * length xs) @ zeros (pad4 q)"
    by (simp add: layout_simps pre_def q_def add.assoc)
  have len: "length (pre @ zeros (4 * length xs) @ zeros (pad4 q)) = q + pad4 q"
    by (simp add: pre_def q_def)
  have "patch_slots (pre @ zeros (4 * length xs) @ (zeros (pad4 q) @ ?es)) (length pre) ?ts =
      Some (pre @ slot_words (length pre) ?ts @ (zeros (pad4 q) @ ?es))"
    by (rule patch_slots_eq) (auto simp: pre_def q_def dest!: elems_tabs_range)
  then show ?thesis
    unfolding write_table_vector_def Let_def hdr write_elems_eq len
    by (simp add: vec_layout_def Let_def write_append q_def pre_def add.assoc)
qed

lemma vec_layout_read:
  assumes bound: "length (vec_layout n xs) < 2 ^ 32" and n: "length pre = n"
  shows "fb_tables rd (pre @ vec_layout n xs @ post) n = Some xs"
proof -
  define q where "q = n + 4 + 4 * length xs"
  define q' where "q' = q + pad4 q"
  let ?ts = "elems_tabs q' xs" and ?es = "elems_bytes q' xs"
  let ?b = "pre @ vec_layout n xs @ post"
  have lay: "vec_layout n xs = u32_le (as_u32 (length xs)) @ slot_words (n + 4) ?ts @ zeros (pad4 q) @ ?es"
    by (simp add: vec_layout_def Let_def q_def q'_def)
  have len: "4 + 4 * length xs + pad4 q + length ?es < 2 ^ 32"
    using bound by (simp add: lay)
  have count: "rd32 ?b n = Some (length xs)"
    using len by (simp add: lay n read_simps)
  have "fb_slots rd ?b (n + 4) (length xs) = Some xs"
  proof (rule fb_slots_nth)
    fix i assume i: "i < length xs"
    obtain a c m where es: "?es = a @ lay m (xs ! i) @ c" "m = q' + length a"
      and t: "?ts ! i = m + tab m (xs ! i)"
      using elems_split [OF i] by blast
    have m: "length (lay m (xs ! i)) < 2 ^ 32" "?ts ! i < n + 2 ^ 32" "n + 4 + 4 * i \<le> ?ts ! i"
      using len es t i tab_le [of m "xs ! i"] by (simp_all add: q'_def q_def)
    have "rd32 (slot_words (n + 4) ?ts @ zeros (pad4 q) @ ?es @ post) (4 * i) =
        Some (unat (as_u32 (?ts ! i - (n + 4 + 4 * i))))"
      using i by (intro rd32_slot_words) simp
    then have slot: "rd32 ?b (n + 4 + 4 * i) = Some (?ts ! i - (n + 4 + 4 * i))"
      using m(2) by (simp add: lay n rd_skip)
    have "rd ((pre @ u32_le (as_u32 (length xs)) @ slot_words (n + 4) ?ts @ zeros (pad4 q) @ a) @
        lay m (xs ! i) @ (c @ post)) (m + tab m (xs ! i)) = Some (xs ! i)"
      by (rule reads [OF m(1)]) (simp add: n es(2) q'_def q_def)
    then have "rd ?b (?ts ! i) = Some (xs ! i)"
      by (simp add: lay es t)
    with slot m(3) show "\<exists>off. rd32 ?b (n + 4 + 4 * i) = Some off \<and>
        rd ?b (n + 4 + 4 * i + off) = Some (xs ! i)"
      by auto
  qed simp
  with count show ?thesis by (simp add: fb_tables_def)
qed

lemma elems_mod:
  assumes "n mod 4 = m mod 4"
  shows "elems_bytes (n + k) xs = elems_bytes (m + k) xs \<and>
    elems_tabs (n + k) xs = map (\<lambda>t. t - m + n) (elems_tabs (m + k) xs)"
proof (induction xs arbitrary: k)
  case (Cons x xs)
  have "(n + k) mod 4 = (m + k) mod 4" using assms by (metis mod_add_left_eq)
  note lay = lay_mod [OF this]
  show ?case
    using Cons.IH [of "k + length (lay (m + k) x)"] by (simp add: lay add.assoc)
qed simp_all

lemma vec_layout_mod:
  assumes "n mod 4 = m mod 4"
  shows "vec_layout (n + k) xs = vec_layout (m + k) xs"
proof -
  have p: "pad4 (n + i) = pad4 (m + i)" for i
    by (rule pad4_mod) (use assms in \<open>metis mod_add_left_eq\<close>)
  have slots: "slot_words (n + i) (elems_tabs (n + j) xs) = slot_words (m + i) (elems_tabs (m + j) xs)" for i j
  proof -
    let ?rs = "map (\<lambda>t. t - m) (elems_tabs (m + j) xs)"
    have "elems_tabs (m + j) xs = map (\<lambda>r. r + m) ?rs"
      by (auto intro!: map_idI [symmetric] dest!: elems_tabs_range)
    moreover have "elems_tabs (n + j) xs = map (\<lambda>r. r + n) ?rs"
      using elems_mod [OF assms] by simp
    ultimately show ?thesis
      by (metis slot_words_shift)
  qed
  show ?thesis
    using slots [of "k + 4" "k + 4 + 4 * length xs + pad4 (m + (k + 4 + 4 * length xs))"]
      elems_mod [OF assms] p [of "k + 4 + 4 * length xs"]
    by (simp add: vec_layout_def Let_def add.assoc)
qed

end

subsection \<open>The data envelopes\<close>

text \<open>
  \<open>encode_event_data_into\<close>, \<open>encode_log_data_into\<close> and \<open>encode_metric_data_into\<close> are one
  piece of code around three entry encoders: header with reserved slots, each entry encoded
  in its final position, slots and offsets patched. The result is the buffer and the range
  of the envelope. \<open>in_place_entry\<close> is the body of their loop, \<open>copied_entry\<close> the body
  of the loop of the variants that take entries already encoded.
\<close>

definition in_place_entry ::
  "(bytes \<Rightarrow> 'a \<Rightarrow> bytes option) \<Rightarrow> bytes \<Rightarrow> 'a \<Rightarrow> (bytes \<times> nat) option" where
  "in_place_entry enc buf params =
     (let buf = align4 buf; entry_start = length buf
      in do {
        buf \<leftarrow> enc buf params;
        root_offset \<leftarrow> rd32 buf entry_start;
        Some (buf, entry_start + root_offset) })"

definition copied_entry :: "bytes \<Rightarrow> bytes \<Rightarrow> (bytes \<times> nat) option" where
  "copied_entry buf entry_bytes =
     (let buf = align4 buf; entry_start = length buf;
          root_offset = (if 4 \<le> length entry_bytes then unat (le_u32 (take 4 entry_bytes)) else 0)
      in Some (buf @ entry_bytes, entry_start + root_offset))"

definition encode_data_into ::
  "(bytes \<Rightarrow> 'a \<Rightarrow> (bytes \<times> nat) option) \<Rightarrow> bytes \<Rightarrow> 'a list \<Rightarrow> (bytes \<times> nat \<times> nat) option" where
  "encode_data_into w buf xs =
     (let data_start = length buf;
          root_pos = length buf;
          buf = buf @ zeros 4;
          vtable_start = length buf;
          buf = write_u16 buf 6;
          buf = write_u16 buf 8;
          buf = write_u16 buf 4;
          buf = buf @ zeros 2;
          table_start = length buf;
          buf = write_i32 buf (as_u32 (table_start - vtable_start));
          off_pos = length buf;
          buf = write_u32 buf 0;
          buf = align4 buf
      in do {
        (buf, vec_start) \<leftarrow> write_table_vector w buf xs;
        buf \<leftarrow> patch_offset buf off_pos vec_start;
        buf \<leftarrow> copy_into buf root_pos (u32_le (as_u32 (table_start - data_start)));
        Some (buf, data_start, length buf) })"

definition encode_data :: "bytes list \<Rightarrow> bytes option" where
  "encode_data encoded =
     (let vtable_size = 4 + 2;
          table_size = 8;
          buf = zeros 4;
          vtable_start = length buf;
          buf = write_u16 buf vtable_size;
          buf = write_u16 buf table_size;
          buf = write_u16 buf 4;
          buf = buf @ zeros 2;
          table_start = length buf;
          soffset = as_u32 (table_start - vtable_start);
          buf = write_i32 buf soffset;
          off_pos = length buf;
          buf = write_u32 buf 0;
          buf = align4 buf
      in do {
        (buf, vec_start) \<leftarrow> write_table_vector copied_entry buf encoded;
        buf \<leftarrow> patch_offset buf off_pos vec_start;
        copy_into buf 0 (u32_le (as_u32 table_start)) })"

text \<open>The vector of entries of an envelope that starts at \<open>base\<close>.\<close>

definition read_data :: "(bytes \<Rightarrow> nat \<Rightarrow> 'a option) \<Rightarrow> bytes \<Rightarrow> nat \<Rightarrow> 'a list option" where
  "read_data rd b base = do { t \<leftarrow> fb_root b base; v \<leftarrow> fb_ref (fb_tables rd) b t 0; v }"

lemma encode_data_copied: "encode_data encoded = map_option fst (encode_data_into copied_entry [] encoded)"
proof -
  have eq: "(do { (buf, v) \<leftarrow> m; buf \<leftarrow> patch_offset buf 16 v; copy_into buf 0 r }) =
      map_option fst (do { (buf, v) \<leftarrow> m; buf \<leftarrow> patch_offset buf 16 v; buf \<leftarrow> copy_into buf 0 r;
        Some (buf, 0::nat, length buf) })" for m :: "(bytes \<times> nat) option" and r
    by (auto split: option.splits bind_splits)
  show ?thesis
    unfolding encode_data_def encode_data_into_def Let_def
    by (simp add: write_append eq)
qed

context element_writer
begin

definition data_layout :: "nat \<Rightarrow> 'a list \<Rightarrow> bytes" where
  "data_layout n xs =
     (let at = n + 20 + pad4 (n + 20) in
      u32_le (as_u32 12) @ vtable 8 [4] 2 @ u32_le (as_u32 (at - (16 + n))) @
      sect_bytes (n + 20) [vec_layout at xs])"

lemma encode_data_into_eq:
  "encode_data_into w buf xs =
     Some (buf @ data_layout (length buf) xs, length buf, length buf + length (data_layout (length buf) xs))"
  unfolding encode_data_into_def data_layout_def vtable_def
  by (simp add: Let_def layout_simps write_table_vector_eq ac_simps)

lemma elems_bytes_bound:
  "(\<And>x n. x \<in> set xs \<Longrightarrow> length (lay n x) \<le> f x) \<Longrightarrow> length (elems_bytes n xs) \<le> sum_list (map f xs)"
proof (induction xs arbitrary: n)
  case (Cons x xs)
  then show ?case
    using Cons.prems [of x n] Cons.IH [of "n + length (lay n x)"] by fastforce
qed simp

lemma vec_layout_bound:
  assumes "\<And>x n. x \<in> set xs \<Longrightarrow> length (lay n x) \<le> f x"
  shows "length (vec_layout n xs) \<le> 7 + 4 * length xs + sum_list (map f xs)"
  using elems_bytes_bound [OF assms, of xs "n + 4 + 4 * length xs + pad4 (n + 4 + 4 * length xs)"]
    pad4_lt [of "n + 4 + 4 * length xs"]
  by (simp add: vec_layout_def Let_def)

lemma data_layout_bound:
  assumes "\<And>x n. x \<in> set xs \<Longrightarrow> length (lay n x) \<le> f x"
  shows "length (data_layout n xs) \<le> 30 + 4 * length xs + sum_list (map f xs)"
  using vec_layout_bound [OF assms, of xs "n + 20 + pad4 (n + 20)"] pad4_lt [of "n + 20"]
  by (simp add: data_layout_def Let_def layout_simps)

lemma data_layout_read:
  assumes bound: "length (data_layout n xs) < 2 ^ 32" and n: "length pre = n"
  shows "read_data rd (pre @ data_layout n xs @ post) n = Some xs"
proof -
  let ?at = "n + 20 + pad4 (n + 20)"
  let ?body = "u32_le (as_u32 (?at - (16 + n)))"
  let ?b = "(pre @ u32_le (as_u32 12)) @ vtable 8 [4] 2 @ ?body @ sect_bytes (n + 20) [vec_layout ?at xs] @ post"
  have b: "pre @ data_layout n xs @ post = ?b"
    by (simp add: data_layout_def Let_def)
  have len: "length (vec_layout ?at xs) + pad4 (n + 20) + 20 < 2 ^ 32"
    using bound by (simp add: data_layout_def Let_def layout_simps)
  have root: "fb_root ?b n = Some (n + 12)"
    by (simp add: fb_root_def n read_simps)
  have "fb_ref (fb_tables rd) ?b (n + 12) 0 = Some (Some xs)"
  proof (rule fb_ref_entry [where w = 4 and k = 0 and enc = "vec_layout ?at" and n = "n + 20"])
    have "unat (4 :: u16) = 4" by simp
    then show "rd32 ?body (unat (4 :: u16) - 4) =
        Some (unat (opt_slot (Some xs) (sect_starts (n + 20) [vec_layout ?at xs] ! 0 - (n + 12 + unat (4 :: u16)))))"
      by (simp only:) (simp add: read_simps layout_simps)
  next
    fix v and a c :: bytes assume "Some xs = Some v" "length a = sect_starts (n + 20) [vec_layout ?at xs] ! 0"
    then show "fb_tables rd (a @ vec_layout ?at v @ c) (length a) = Some v"
      using vec_layout_read [of ?at v a c] len by (simp add: layout_simps)
  qed (use len in \<open>simp_all add: n layout_simps\<close>)
  then show ?thesis
    unfolding b read_data_def root by simp
qed

lemma encode_data_into_roundtrip:
  "\<exists>b. encode_data_into w buf xs = Some (b, length buf, length b) \<and> take (length buf) b = buf \<and>
     (length b < length buf + 2 ^ 32 \<longrightarrow> read_data rd (b @ rest) (length buf) = Some xs)"
  using data_layout_read [of "length buf" xs buf rest]
  by (intro exI [of _ "buf @ data_layout (length buf) xs"]) (simp add: encode_data_into_eq)

lemma data_layout_mod:
  assumes "n mod 4 = m mod 4"
  shows "data_layout n xs = data_layout m xs"
proof -
  have "pad4 (n + 20) = pad4 (m + 20)"
    by (rule pad4_mod) (use assms in \<open>metis mod_add_left_eq\<close>)
  with vec_layout_mod [OF assms] show ?thesis
    by (simp add: data_layout_def Let_def layout_simps add.assoc)
qed

end

subsection \<open>The contract of an entry encoder\<close>

text \<open>
  An entry encoder appends a standalone FlatBuffer whose root word leads to its table. Its
  in-place loop body is then an element writer, and encoding in place gives the bytes that
  encoding each entry on its own and copying the results gives.
\<close>

locale entry_encoder =
  fixes enc :: "bytes \<Rightarrow> 'a \<Rightarrow> bytes option"
    and layout :: "nat \<Rightarrow> 'a \<Rightarrow> bytes"
    and root :: nat
    and rd :: "bytes \<Rightarrow> nat \<Rightarrow> 'a option"
  assumes enc_layout: "enc buf x = Some (buf @ layout (length buf) x)"
    and root_word: "take 4 (layout n x) = u32_le (as_u32 root)"
    and root_le: "root < 2 ^ 32 \<and> root \<le> length (layout n x)"
    and layout_mod: "n mod 4 = m mod 4 \<Longrightarrow> layout n x = layout m x"
    and layout_reads: "length (layout n x) < 2 ^ 32 \<Longrightarrow> length pre = n \<Longrightarrow>
      rd (pre @ layout n x @ post) (n + root) = Some x"
begin

definition entry_lay :: "nat \<Rightarrow> 'a \<Rightarrow> bytes" where
  "entry_lay n x = zeros (pad4 n) @ layout (n + pad4 n) x"

lemma root_le_u32: "4 \<le> length (layout n x)" "le_u32 (take 4 (layout n x)) = as_u32 root"
proof -
  show "4 \<le> length (layout n x)"
    using arg_cong [OF root_word [of n x], of length] by simp
  show "le_u32 (take 4 (layout n x)) = as_u32 root"
    by (simp add: root_word)
qed

lemma in_place_entry_eq:
  "in_place_entry enc buf x = Some (buf @ entry_lay (length buf) x, length buf + (pad4 (length buf) + root))"
  using root_le_u32 root_le
  by (simp add: in_place_entry_def Let_def align4_append enc_layout entry_lay_def rd32_def rd_bytes_def)

lemma copied_entry_eq:
  "copied_entry buf (layout 0 x) = in_place_entry enc buf x"
proof -
  have "layout 0 x = layout (length buf + pad4 (length buf)) x"
    by (rule layout_mod) (use pad4_aligned [of "length buf"] in \<open>simp add: dvd_eq_mod_eq_0\<close>)
  then show ?thesis
    using root_le_u32 root_le
    by (simp add: in_place_entry_eq copied_entry_def Let_def align4_append entry_lay_def)
qed

end

sublocale entry_encoder \<subseteq> element_writer "in_place_entry enc" entry_lay "\<lambda>n x. pad4 n + root" rd
proof
  show "in_place_entry enc buf x = Some (buf @ entry_lay (length buf) x, length buf + (pad4 (length buf) + root))" for buf x
    by (rule in_place_entry_eq)
  show "pad4 n + root \<le> length (entry_lay n x)" for n x
    using root_le by (simp add: entry_lay_def)
  show "entry_lay n x = entry_lay m x \<and> pad4 n + root = pad4 m + root" if "n mod 4 = m mod 4" for n m x
    using pad4_mod [OF that] layout_mod [of "n + pad4 n" "m + pad4 m" x] that
    by (auto simp: entry_lay_def mod_add_left_eq [symmetric, of n] mod_add_left_eq [symmetric, of m])
  show "rd (pre @ entry_lay n x @ post) (n + (pad4 n + root)) = Some x"
    if "length (entry_lay n x) < 2 ^ 32" "length pre = n" for n x pre post
    using layout_reads [of "n + pad4 n" x "pre @ zeros (pad4 n)" post] that
    by (simp add: entry_lay_def add.assoc)
qed

context entry_encoder
begin

lemma copied_elems: "write_elems copied_entry buf (map (layout 0) xs) = write_elems (in_place_entry enc) buf xs"
  by (induction xs arbitrary: buf) (simp_all add: copied_entry_eq)

text \<open>In-place encoding agrees with copying entries that were encoded on their own.\<close>

lemma encode_data_layout: "encode_data (map (layout 0) xs) = Some (data_layout 0 xs)"
proof -
  have "encode_data_into copied_entry [] (map (layout 0) xs) = encode_data_into (in_place_entry enc) [] xs"
    unfolding encode_data_into_def write_table_vector_def by (simp add: copied_elems)
  then show ?thesis
    by (simp add: encode_data_copied encode_data_into_eq)
qed

lemma encode_data_into_copied:
  assumes "4 dvd length buf"
  shows "encode_data_into (in_place_entry enc) buf xs =
    do { d \<leftarrow> encode_data (map (layout 0) xs); Some (buf @ d, length buf, length buf + length d) }"
  using data_layout_mod [of "length buf" 0 xs] assms
  by (simp add: encode_data_into_eq encode_data_layout dvd_eq_mod_eq_0)

end

end
