(* ===== verification/Enc_Event.thy ===== *)
theory Enc_Event
  imports Enc_Data
begin

section \<open>The event encoder (\<open>event.rs\<close>)\<close>

text \<open>
  \<open>encode_event\<close> and its in-place twin \<open>encode_event_into\<close>, statement by statement;
  their closed layout; and the round trip through the reader.
\<close>

definition encode_event :: "EventParams \<Rightarrow> bytes option" where
  "encode_event params =
    (let has_device_id = ev_device_id params \<noteq> None;
         has_session_id = ev_session_id params \<noteq> None;
         has_service = ev_service params \<noteq> None;
         has_event_name = ev_event_name params \<noteq> None;
         has_payload = ev_payload params \<noteq> None;
         vtable_size = 4 + 7 * 2;
         table_size = 4 + 32;
         buf = zeros 4;
         vtable_start = length buf;
         buf = write_u16 buf vtable_size;
         buf = write_u16 buf table_size;
         buf = write_u16 buf 28;
         buf = write_u16 buf 20;
         buf = write_u16 buf (if has_service then 32 else 0);
         buf = write_u16 buf (if has_device_id then 4 else 0);
         buf = write_u16 buf (if has_session_id then 8 else 0);
         buf = write_u16 buf (if has_event_name then 12 else 0);
         buf = write_u16 buf (if has_payload then 16 else 0);
         buf = buf @ zeros 2;
         table_start = length buf;
         soffset = as_u32 (table_start - vtable_start);
         buf = write_i32 buf soffset;
         device_id_off_pos = length buf;
         buf = write_u32 buf 0;
         session_id_off_pos = length buf;
         buf = write_u32 buf 0;
         event_name_off_pos = length buf;
         buf = write_u32 buf 0;
         payload_off_pos = length buf;
         buf = write_u32 buf 0;
         buf = write_u64 buf (ev_timestamp params);
         buf = buf @ [event_type_u8 (ev_event_type params)];
         buf = buf @ zeros 3;
         service_off_pos = length buf;
         buf = write_u32 buf 0;
         buf = align4 buf;
         (buf, device_id_start) = write_opt write_byte_vector buf (ev_device_id params);
         buf = align4 buf;
         (buf, session_id_start) = write_opt write_byte_vector buf (ev_session_id params);
         buf = align4 buf;
         (buf, service_start) = write_opt write_string buf (ev_service params);
         buf = align4 buf;
         (buf, event_name_start) = write_opt write_string buf (ev_event_name params);
         buf = align4 buf;
         (buf, payload_start) = write_opt write_byte_vector buf (ev_payload params)
     in do {
       buf \<leftarrow> copy_into buf 0 (u32_le (as_u32 table_start));
       buf \<leftarrow> patch_opt buf device_id_off_pos device_id_start;
       buf \<leftarrow> patch_opt buf session_id_off_pos session_id_start;
       buf \<leftarrow> patch_opt buf service_off_pos service_start;
       buf \<leftarrow> patch_opt buf event_name_off_pos event_name_start;
       patch_opt buf payload_off_pos payload_start
     })"

definition encode_event_into :: "bytes \<Rightarrow> EventParams \<Rightarrow> bytes option" where
  "encode_event_into buf params =
    (let has_device_id = ev_device_id params \<noteq> None;
         has_session_id = ev_session_id params \<noteq> None;
         has_service = ev_service params \<noteq> None;
         has_event_name = ev_event_name params \<noteq> None;
         has_payload = ev_payload params \<noteq> None;
         vtable_size = 4 + 7 * 2;
         table_size = 4 + 32;
         root_pos = length buf;
         buf = buf @ zeros 4;
         vtable_start = length buf;
         buf = write_u16 buf vtable_size;
         buf = write_u16 buf table_size;
         buf = write_u16 buf 28;
         buf = write_u16 buf 20;
         buf = write_u16 buf (if has_service then 32 else 0);
         buf = write_u16 buf (if has_device_id then 4 else 0);
         buf = write_u16 buf (if has_session_id then 8 else 0);
         buf = write_u16 buf (if has_event_name then 12 else 0);
         buf = write_u16 buf (if has_payload then 16 else 0);
         buf = buf @ zeros 2;
         table_start = length buf;
         soffset = as_u32 (table_start - vtable_start);
         buf = write_i32 buf soffset;
         device_id_off_pos = length buf;
         buf = write_u32 buf 0;
         session_id_off_pos = length buf;
         buf = write_u32 buf 0;
         event_name_off_pos = length buf;
         buf = write_u32 buf 0;
         payload_off_pos = length buf;
         buf = write_u32 buf 0;
         buf = write_u64 buf (ev_timestamp params);
         buf = buf @ [event_type_u8 (ev_event_type params)];
         buf = buf @ zeros 3;
         service_off_pos = length buf;
         buf = write_u32 buf 0;
         buf = align4 buf;
         (buf, device_id_start) = write_opt write_byte_vector buf (ev_device_id params);
         buf = align4 buf;
         (buf, session_id_start) = write_opt write_byte_vector buf (ev_session_id params);
         buf = align4 buf;
         (buf, service_start) = write_opt write_string buf (ev_service params);
         buf = align4 buf;
         (buf, event_name_start) = write_opt write_string buf (ev_event_name params);
         buf = align4 buf;
         (buf, payload_start) = write_opt write_byte_vector buf (ev_payload params)
     in do {
       buf \<leftarrow> copy_into buf root_pos (u32_le (as_u32 (table_start - root_pos)));
       buf \<leftarrow> patch_opt buf device_id_off_pos device_id_start;
       buf \<leftarrow> patch_opt buf session_id_off_pos session_id_start;
       buf \<leftarrow> patch_opt buf service_off_pos service_start;
       buf \<leftarrow> patch_opt buf event_name_off_pos event_name_start;
       patch_opt buf payload_off_pos payload_start
     })"

text \<open>
  The layout the encoder produces when it starts at position \<open>n\<close> of the buffer: a fixed
  part of 60 bytes (root word, vtable, table) and the five optional sections, each padded
  to a multiple of four.
\<close>

definition event_sections :: "EventParams \<Rightarrow> bytes list" where
  "event_sections p =
     [opt_bytes byte_vector (ev_device_id p), opt_bytes byte_vector (ev_session_id p),
      opt_bytes string_bytes (ev_service p), opt_bytes string_bytes (ev_event_name p),
      opt_bytes byte_vector (ev_payload p)]"

definition event_words :: "EventParams \<Rightarrow> u16 list" where
  "event_words p =
     [28, 20, if ev_service p = None then 0 else 32, if ev_device_id p = None then 0 else 4,
      if ev_session_id p = None then 0 else 8, if ev_event_name p = None then 0 else 12,
      if ev_payload p = None then 0 else 16]"

definition event_body :: "nat \<Rightarrow> EventParams \<Rightarrow> bytes" where
  "event_body n p =
    (let at = (\<lambda>i. sect_starts (n + 60) (event_sections p) ! i) in
     u32_le (opt_slot (ev_device_id p) (at 0 - (28 + n))) @
     u32_le (opt_slot (ev_session_id p) (at 1 - (32 + n))) @
     u32_le (opt_slot (ev_event_name p) (at 3 - (36 + n))) @
     u32_le (opt_slot (ev_payload p) (at 4 - (40 + n))) @
     u64_le (ev_timestamp p) @ [event_type_u8 (ev_event_type p)] @ zeros 3 @
     u32_le (opt_slot (ev_service p) (at 2 - (56 + n))))"

definition event_layout :: "nat \<Rightarrow> EventParams \<Rightarrow> bytes" where
  "event_layout n p = u32_le (as_u32 24) @ vtable 36 (event_words p) 2 @ event_body n p @
     sect_bytes (n + 60) (event_sections p)"

lemma length_event_words [simp]: "length (event_words p) = 7"
  by (simp add: event_words_def)

lemma length_event_body [simp]: "length (event_body n p) = 32"
  by (simp add: event_body_def Let_def)

lemma encode_event_into_layout:
  "encode_event_into buf p = Some (buf @ event_layout (length buf) p)"
  unfolding encode_event_into_def event_layout_def event_words_def event_body_def event_sections_def vtable_def
  by (simp add: Let_def layout_simps ac_simps split del: if_split)

lemma event_layout_mod: "n mod 4 = m mod 4 \<Longrightarrow> event_layout n p = event_layout m p"
proof -
  assume m: "n mod 4 = m mod 4"
  then have "(n + 60) mod 4 = (m + 60) mod 4" by (metis mod_add_left_eq)
  then show ?thesis
    using sect_start_rel [OF m, of _ "event_sections p" _ 60]
    by (simp add: event_layout_def event_body_def Let_def sect_bytes_mod [of "n + 60" "m + 60"] event_sections_def)
qed

subsection \<open>Reading an event back\<close>

definition read_event :: "bytes \<Rightarrow> nat \<Rightarrow> EventParams option" where
  "read_event b t = do {
     ty \<leftarrow> fb_scalar8 b t 0; ty \<leftarrow> event_type_of_u8 ty;
     ts \<leftarrow> fb_scalar64 b t 1;
     service \<leftarrow> fb_ref fb_string b t 2;
     device_id \<leftarrow> fb_ref fb_vector b t 3;
     session_id \<leftarrow> fb_ref fb_vector b t 4;
     name \<leftarrow> fb_ref fb_string b t 5;
     payload \<leftarrow> fb_ref fb_vector b t 6;
     Some \<lparr>ev_event_type = ty, ev_timestamp = ts, ev_service = service, ev_device_id = device_id,
           ev_session_id = session_id, ev_event_name = name, ev_payload = payload\<rparr> }"

lemma read_event_layout:
  assumes n: "length pre = n" and bound: "length (event_layout n p) < 2 ^ 32"
  shows "read_event (pre @ event_layout n p @ post) (n + 24) = Some p"
proof -
  let ?b = "(pre @ u32_le (as_u32 24)) @ vtable 36 (event_words p) 2 @ event_body n p @ sect_bytes (n + 60) (event_sections p) @ post"
  have b: "pre @ event_layout n p @ post = ?b" by (simp add: event_layout_def)
  have "length (sect_bytes (n + 60) (event_sections p)) < 2 ^ 32 - 60"
    using bound by (simp add: event_layout_def)
  note end_of = sect_bounds [of _ "event_sections p", OF _ this]
  note ends = end_of [of 0] end_of [of 1] end_of [of 2] end_of [of 3] end_of [of 4]
  note defs = n event_words_def event_body_def event_sections_def Let_def read_simps
  note ref = fb_ref_entry [where t = "n + 24" and n = "n + 60" and ws = "event_words p" and pad = 2
      and body = "event_body n p" and ds = "event_sections p"]
  have "fb_scalar8 ?b (n + 24) 0 = Some (event_type_u8 (ev_event_type p))"
    by (rule fb_scalar_entry [where w = 28]) (simp_all add: defs)
  moreover have "fb_scalar64 ?b (n + 24) 1 = Some (ev_timestamp p)"
    by (rule fb_scalar_entry [where w = 20]) (simp_all add: defs)
  moreover have "fb_ref fb_string ?b (n + 24) 2 = Some (ev_service p)"
    by (rule ref [where w = 32 and k = 2 and enc = string_bytes])
       (use ends in \<open>auto simp: defs intro!: fb_string_at\<close>)
  moreover have "fb_ref fb_vector ?b (n + 24) 3 = Some (ev_device_id p)"
    by (rule ref [where w = 4 and k = 0 and enc = byte_vector])
       (use ends in \<open>auto simp: defs intro!: fb_vector_at\<close>)
  moreover have "fb_ref fb_vector ?b (n + 24) 4 = Some (ev_session_id p)"
    by (rule ref [where w = 8 and k = 1 and enc = byte_vector])
       (use ends in \<open>auto simp: defs intro!: fb_vector_at\<close>)
  moreover have "fb_ref fb_string ?b (n + 24) 5 = Some (ev_event_name p)"
    by (rule ref [where w = 12 and k = 3 and enc = string_bytes])
       (use ends in \<open>auto simp: defs intro!: fb_string_at\<close>)
  moreover have "fb_ref fb_vector ?b (n + 24) 6 = Some (ev_payload p)"
    by (rule ref [where w = 16 and k = 4 and enc = byte_vector])
       (use ends in \<open>auto simp: defs intro!: fb_vector_at\<close>)
  ultimately show ?thesis
    unfolding b read_event_def by simp
qed

definition decode_event :: "bytes \<Rightarrow> nat \<Rightarrow> EventParams option" where
  "decode_event b base = do { t \<leftarrow> fb_root b base; read_event b t }"

lemma encode_event_into_Nil: "encode_event p = encode_event_into [] p"
  unfolding encode_event_def encode_event_into_def Let_def by simp

lemma encode_event_layout: "encode_event p = Some (event_layout 0 p)"
  by (simp add: encode_event_into_Nil encode_event_into_layout)

interpretation event_enc: entry_encoder encode_event_into event_layout 24 read_event
proof
  show "take 4 (event_layout n p) = u32_le (as_u32 24)" for n p
    by (simp add: event_layout_def)
  show "24 < (2 :: nat) ^ 32 \<and> 24 \<le> length (event_layout n p)" for n p
    by (simp add: event_layout_def)
qed (fact encode_event_into_layout event_layout_mod | (rule read_event_layout, assumption+))+

subsection \<open>Vectors of events\<close>

definition encode_event_data_into :: "bytes \<Rightarrow> EventParams list \<Rightarrow> (bytes \<times> nat \<times> nat) option" where
  "encode_event_data_into buf events = encode_data_into (in_place_entry encode_event_into) buf events"

definition encode_event_data :: "bytes list \<Rightarrow> bytes option" where
  "encode_event_data encoded_events = encode_data encoded_events"

definition decode_event_data :: "bytes \<Rightarrow> nat \<Rightarrow> EventParams list option" where
  "decode_event_data b base = read_data read_event b base"

lemma fb_root_layout:
  "fb_root (pre @ u32_le (as_u32 k) @ post) (length pre) = Some (length pre + unat (as_u32 k))"
  by (simp add: fb_root_def read_simps)

text \<open>
  An event encoded in place after any bytes already in the buffer never panics, leaves
  those bytes as they were, and, while the encoding fits 32-bit offsets, is read back field
  by field, whatever bytes follow it.
\<close>

theorem encode_event_into_roundtrip:
  "\<exists>b. encode_event_into buf p = Some b \<and> take (length buf) b = buf \<and>
     (length b < length buf + 2 ^ 32 \<longrightarrow> decode_event (b @ rest) (length buf) = Some p)"
proof (intro exI conjI impI)
  let ?b = "buf @ event_layout (length buf) p"
  show "encode_event_into buf p = Some ?b" by (rule encode_event_into_layout)
  show "take (length buf) ?b = buf" by simp
  assume "length ?b < length buf + 2 ^ 32"
  then have "read_event (?b @ rest) (length buf + 24) = Some p"
    using read_event_layout [of buf "length buf" p rest] by simp
  moreover have "fb_root (?b @ rest) (length buf) = Some (length buf + 24)"
    unfolding event_layout_def by (simp add: fb_root_layout)
  ultimately show "decode_event (?b @ rest) (length buf) = Some p"
    by (simp add: decode_event_def)
qed

definition sample_event :: EventParams where
  "sample_event = \<lparr>ev_event_type = Track, ev_timestamp = 1706000000000, ev_service = None,
     ev_device_id = Some (replicate 16 1), ev_session_id = None, ev_event_name = Some [80, 97],
     ev_payload = Some [123, 125]\<rparr>"

lemma sample_event_length: "length (event_layout n sample_event) < 200"
  using sect_bytes_bound [of "n + 60" "event_sections sample_event"]
  by (simp add: event_layout_def event_sections_def sample_event_def)

theorem encode_event_into_roundtrip_witness:
  "\<exists>b. encode_event_into (zeros 3) sample_event = Some b \<and> decode_event (b @ [9]) 3 = Some sample_event"
proof -
  have "length (event_layout 3 sample_event) < 2 ^ 32"
    by (rule less_trans [OF sample_event_length]) simp
  then show ?thesis
    using encode_event_into_roundtrip [of "zeros 3" sample_event "[9]"]
    unfolding encode_event_into_layout by auto
qed

text \<open>
  C16: a batch of events encoded in place never panics, returns exactly the range it wrote,
  and the reader recovers the list of events in order, if it takes less than \<open>2 ^ 32\<close> bytes.
\<close>

theorem encode_event_data_into_roundtrip:
  "\<exists>b. encode_event_data_into buf ps = Some (b, length buf, length b) \<and> take (length buf) b = buf \<and>
     (length b < length buf + 2 ^ 32 \<longrightarrow> decode_event_data (b @ rest) (length buf) = Some ps)"
  unfolding encode_event_data_into_def decode_event_data_def
  by (rule event_enc.encode_data_into_roundtrip)

text \<open>
  Encoding events straight into the batch buffer gives byte for byte what encoding each
  event on its own and then copying the encodings gives, at any 4-aligned position.
\<close>

theorem encode_event_data_into_eq_copied:
  assumes "4 dvd length buf"
  shows "encode_event_data_into buf ps =
    do { es \<leftarrow> those (map encode_event ps); d \<leftarrow> encode_event_data es;
         Some (buf @ d, length buf, length buf + length d) }"
  unfolding encode_event_data_into_def encode_event_data_def encode_event_layout
  by (simp add: event_enc.encode_data_into_copied [OF assms] those_map_Some)

theorem encode_event_data_into_roundtrip_witness:
  "\<exists>b. encode_event_data_into [] [sample_event] = Some (b, 0, length b) \<and>
     decode_event_data (b @ [9]) 0 = Some [sample_event]"
proof -
  have "length (event_enc.entry_lay n sample_event) \<le> 203" for n
    using sample_event_length [of "n + pad4 n"] pad4_lt [of n] by (simp add: event_enc.entry_lay_def)
  then have "length (event_enc.data_layout 0 [sample_event]) \<le> 30 + 4 + 203"
    using event_enc.data_layout_bound [of "[sample_event]" "\<lambda>_. 203" 0] by simp
  then show ?thesis
    using encode_event_data_into_roundtrip [of "[]" "[sample_event]" "[9]"]
    unfolding encode_event_data_into_def event_enc.encode_data_into_eq by auto
qed

theorem encode_event_data_into_eq_copied_witness:
  "encode_event_data_into (zeros 4) [sample_event, sample_event] =
    do { es \<leftarrow> those (map encode_event [sample_event, sample_event]); d \<leftarrow> encode_event_data es;
         Some (zeros 4 @ d, 4, 4 + length d) }"
  using encode_event_data_into_eq_copied [of "zeros 4" "[sample_event, sample_event]"] by simp

end
