(* ===== verification/Enc_Log.thy ===== *)
theory Enc_Log
  imports Enc_Data
begin

section \<open>The log encoder (\<open>log.rs\<close>)\<close>

text \<open>
  \<open>encode_log_entry\<close>, \<open>encode_log_entry_into\<close> and the \<open>LogData\<close> envelope, with the
  closed layout and the round trip of each.
\<close>

definition encode_log_entry :: "LogEntryParams \<Rightarrow> bytes option" where
  "encode_log_entry params =
    (let has_session_id = lg_session_id params \<noteq> None;
         has_source = lg_source params \<noteq> None;
         has_service = lg_service params \<noteq> None;
         has_payload = lg_payload params \<noteq> None;
         vtable_size = 4 + 7 * 2;
         table_size = 4 + 28;
         buf = zeros 4;
         vtable_start = length buf;
         buf = write_u16 buf vtable_size;
         buf = write_u16 buf table_size;
         buf = write_u16 buf 28;
         buf = write_u16 buf (if has_session_id then 4 else 0);
         buf = write_u16 buf 29;
         buf = write_u16 buf 20;
         buf = write_u16 buf (if has_source then 8 else 0);
         buf = write_u16 buf (if has_service then 12 else 0);
         buf = write_u16 buf (if has_payload then 16 else 0);
         buf = buf @ zeros 2;
         table_start = length buf;
         soffset = as_u32 (table_start - vtable_start);
         buf = write_i32 buf soffset;
         session_id_off_pos = length buf;
         buf = write_u32 buf 0;
         source_off_pos = length buf;
         buf = write_u32 buf 0;
         service_off_pos = length buf;
         buf = write_u32 buf 0;
         payload_off_pos = length buf;
         buf = write_u32 buf 0;
         buf = write_u64 buf (lg_timestamp params);
         buf = buf @ [log_event_type_u8 (lg_event_type params)];
         buf = buf @ [log_level_u8 (lg_level params)];
         buf = buf @ zeros 2;
         buf = align4 buf;
         (buf, session_id_start) = write_opt write_byte_vector buf (lg_session_id params);
         buf = align4 buf;
         (buf, source_start) = write_opt write_string buf (lg_source params);
         buf = align4 buf;
         (buf, service_start) = write_opt write_string buf (lg_service params);
         buf = align4 buf;
         (buf, payload_start) = write_opt write_byte_vector buf (lg_payload params)
     in do {
       buf \<leftarrow> copy_into buf 0 (u32_le (as_u32 table_start));
       buf \<leftarrow> patch_opt buf session_id_off_pos session_id_start;
       buf \<leftarrow> patch_opt buf source_off_pos source_start;
       buf \<leftarrow> patch_opt buf service_off_pos service_start;
       patch_opt buf payload_off_pos payload_start
     })"

definition encode_log_entry_into :: "bytes \<Rightarrow> LogEntryParams \<Rightarrow> bytes option" where
  "encode_log_entry_into buf params =
    (let has_session_id = lg_session_id params \<noteq> None;
         has_source = lg_source params \<noteq> None;
         has_service = lg_service params \<noteq> None;
         has_payload = lg_payload params \<noteq> None;
         vtable_size = 4 + 7 * 2;
         table_size = 4 + 28;
         root_pos = length buf;
         buf = buf @ zeros 4;
         vtable_start = length buf;
         buf = write_u16 buf vtable_size;
         buf = write_u16 buf table_size;
         buf = write_u16 buf 28;
         buf = write_u16 buf (if has_session_id then 4 else 0);
         buf = write_u16 buf 29;
         buf = write_u16 buf 20;
         buf = write_u16 buf (if has_source then 8 else 0);
         buf = write_u16 buf (if has_service then 12 else 0);
         buf = write_u16 buf (if has_payload then 16 else 0);
         buf = buf @ zeros 2;
         table_start = length buf;
         soffset = as_u32 (table_start - vtable_start);
         buf = write_i32 buf soffset;
         session_id_off_pos = length buf;
         buf = write_u32 buf 0;
         source_off_pos = length buf;
         buf = write_u32 buf 0;
         service_off_pos = length buf;
         buf = write_u32 buf 0;
         payload_off_pos = length buf;
         buf = write_u32 buf 0;
         buf = write_u64 buf (lg_timestamp params);
         buf = buf @ [log_event_type_u8 (lg_event_type params)];
         buf = buf @ [log_level_u8 (lg_level params)];
         buf = buf @ zeros 2;
         buf = align4 buf;
         (buf, session_id_start) = write_opt write_byte_vector buf (lg_session_id params);
         buf = align4 buf;
         (buf, source_start) = write_opt write_string buf (lg_source params);
         buf = align4 buf;
         (buf, service_start) = write_opt write_string buf (lg_service params);
         buf = align4 buf;
         (buf, payload_start) = write_opt write_byte_vector buf (lg_payload params)
     in do {
       buf \<leftarrow> copy_into buf root_pos (u32_le (as_u32 (table_start - root_pos)));
       buf \<leftarrow> patch_opt buf session_id_off_pos session_id_start;
       buf \<leftarrow> patch_opt buf source_off_pos source_start;
       buf \<leftarrow> patch_opt buf service_off_pos service_start;
       patch_opt buf payload_off_pos payload_start
     })"

subsection \<open>Layout\<close>

definition log_sections :: "LogEntryParams \<Rightarrow> bytes list" where
  "log_sections p =
     [opt_bytes byte_vector (lg_session_id p), opt_bytes string_bytes (lg_source p),
      opt_bytes string_bytes (lg_service p), opt_bytes byte_vector (lg_payload p)]"

definition log_words :: "LogEntryParams \<Rightarrow> u16 list" where
  "log_words p =
     [28, if lg_session_id p = None then 0 else 4, 29, 20, if lg_source p = None then 0 else 8,
      if lg_service p = None then 0 else 12, if lg_payload p = None then 0 else 16]"

definition log_body :: "nat \<Rightarrow> LogEntryParams \<Rightarrow> bytes" where
  "log_body n p =
    (let at = (\<lambda>i. sect_starts (n + 56) (log_sections p) ! i) in
     u32_le (opt_slot (lg_session_id p) (at 0 - (28 + n))) @
     u32_le (opt_slot (lg_source p) (at 1 - (32 + n))) @
     u32_le (opt_slot (lg_service p) (at 2 - (36 + n))) @
     u32_le (opt_slot (lg_payload p) (at 3 - (40 + n))) @
     u64_le (lg_timestamp p) @ [log_event_type_u8 (lg_event_type p), log_level_u8 (lg_level p)] @ zeros 2)"

definition log_layout :: "nat \<Rightarrow> LogEntryParams \<Rightarrow> bytes" where
  "log_layout n p = u32_le (as_u32 24) @ vtable 32 (log_words p) 2 @ log_body n p @
     sect_bytes (n + 56) (log_sections p)"

lemma length_log_words [simp]: "length (log_words p) = 7"
  by (simp add: log_words_def)

lemma length_log_body [simp]: "length (log_body n p) = 28"
  by (simp add: log_body_def Let_def)

lemma encode_log_entry_into_layout:
  "encode_log_entry_into buf p = Some (buf @ log_layout (length buf) p)"
  unfolding encode_log_entry_into_def log_layout_def log_words_def log_body_def log_sections_def vtable_def
  by (simp add: Let_def layout_simps ac_simps split del: if_split)

lemma log_layout_mod: "n mod 4 = m mod 4 \<Longrightarrow> log_layout n p = log_layout m p"
proof -
  assume m: "n mod 4 = m mod 4"
  then have "(n + 56) mod 4 = (m + 56) mod 4" by (metis mod_add_left_eq)
  then show ?thesis
    using sect_start_rel [OF m, of _ "log_sections p" _ 56]
    by (simp add: log_layout_def log_body_def Let_def sect_bytes_mod [of "n + 56" "m + 56"] log_sections_def)
qed

subsection \<open>Reading a log entry back\<close>

definition read_log :: "bytes \<Rightarrow> nat \<Rightarrow> LogEntryParams option" where
  "read_log b t = do {
     ty \<leftarrow> fb_scalar8 b t 0; ty \<leftarrow> log_event_type_of_u8 ty;
     session_id \<leftarrow> fb_ref fb_vector b t 1;
     level \<leftarrow> fb_scalar8 b t 2; level \<leftarrow> log_level_of_u8 level;
     ts \<leftarrow> fb_scalar64 b t 3;
     source \<leftarrow> fb_ref fb_string b t 4;
     service \<leftarrow> fb_ref fb_string b t 5;
     payload \<leftarrow> fb_ref fb_vector b t 6;
     Some \<lparr>lg_event_type = ty, lg_session_id = session_id, lg_level = level, lg_timestamp = ts,
           lg_source = source, lg_service = service, lg_payload = payload\<rparr> }"

lemma read_log_layout:
  assumes n: "length pre = n" and bound: "length (log_layout n p) < 2 ^ 32"
  shows "read_log (pre @ log_layout n p @ post) (n + 24) = Some p"
proof -
  let ?b = "(pre @ u32_le (as_u32 24)) @ vtable 32 (log_words p) 2 @ log_body n p @
    sect_bytes (n + 56) (log_sections p) @ post"
  have b: "pre @ log_layout n p @ post = ?b" by (simp add: log_layout_def)
  have "length (sect_bytes (n + 56) (log_sections p)) < 2 ^ 32 - 56"
    using bound by (simp add: log_layout_def)
  note end_of = sect_bounds [of _ "log_sections p", OF _ this]
  note ends = end_of [of 0] end_of [of 1] end_of [of 2] end_of [of 3]
  note defs = n log_words_def log_body_def log_sections_def Let_def read_simps
  note ref = fb_ref_entry [where t = "n + 24" and n = "n + 56" and ws = "log_words p" and pad = 2
      and body = "log_body n p" and ds = "log_sections p"]
  have "fb_scalar8 ?b (n + 24) 0 = Some (log_event_type_u8 (lg_event_type p))"
    by (rule fb_scalar_entry [where w = 28]) (simp_all add: defs)
  moreover have "fb_ref fb_vector ?b (n + 24) 1 = Some (lg_session_id p)"
    by (rule ref [where w = 4 and k = 0 and enc = byte_vector])
       (use ends in \<open>auto simp: defs intro!: fb_vector_at\<close>)
  moreover have "fb_scalar8 ?b (n + 24) 2 = Some (log_level_u8 (lg_level p))"
    by (rule fb_scalar_entry [where w = 29]) (simp_all add: defs)
  moreover have "fb_scalar64 ?b (n + 24) 3 = Some (lg_timestamp p)"
    by (rule fb_scalar_entry [where w = 20]) (simp_all add: defs)
  moreover have "fb_ref fb_string ?b (n + 24) 4 = Some (lg_source p)"
    by (rule ref [where w = 8 and k = 1 and enc = string_bytes])
       (use ends in \<open>auto simp: defs intro!: fb_string_at\<close>)
  moreover have "fb_ref fb_string ?b (n + 24) 5 = Some (lg_service p)"
    by (rule ref [where w = 12 and k = 2 and enc = string_bytes])
       (use ends in \<open>auto simp: defs intro!: fb_string_at\<close>)
  moreover have "fb_ref fb_vector ?b (n + 24) 6 = Some (lg_payload p)"
    by (rule ref [where w = 16 and k = 3 and enc = byte_vector])
       (use ends in \<open>auto simp: defs intro!: fb_vector_at\<close>)
  ultimately show ?thesis
    unfolding b read_log_def by simp
qed

lemma encode_log_entry_into_Nil: "encode_log_entry p = encode_log_entry_into [] p"
  unfolding encode_log_entry_def encode_log_entry_into_def Let_def by simp

lemma encode_log_entry_layout: "encode_log_entry p = Some (log_layout 0 p)"
  by (simp add: encode_log_entry_into_Nil encode_log_entry_into_layout)

interpretation log_enc: entry_encoder encode_log_entry_into log_layout 24 read_log
proof
  show "take 4 (log_layout n p) = u32_le (as_u32 24)" for n p
    by (simp add: log_layout_def)
  show "24 < (2 :: nat) ^ 32 \<and> 24 \<le> length (log_layout n p)" for n p
    by (simp add: log_layout_def)
qed (fact encode_log_entry_into_layout log_layout_mod | (rule read_log_layout, assumption+))+

subsection \<open>Vectors of log entries\<close>

definition encode_log_data_into :: "bytes \<Rightarrow> LogEntryParams list \<Rightarrow> (bytes \<times> nat \<times> nat) option" where
  "encode_log_data_into buf logs = encode_data_into (in_place_entry encode_log_entry_into) buf logs"

definition encode_log_data :: "bytes list \<Rightarrow> bytes option" where
  "encode_log_data encoded_logs = encode_data encoded_logs"

definition decode_log_data :: "bytes \<Rightarrow> nat \<Rightarrow> LogEntryParams list option" where
  "decode_log_data b base = read_data read_log b base"

definition sample_log :: LogEntryParams where
  "sample_log = \<lparr>lg_event_type = LogEventLog, lg_session_id = Some (replicate 16 5), lg_level = Warning,
     lg_timestamp = 77, lg_source = Some [104], lg_service = None, lg_payload = Some [123, 125]\<rparr>"

lemma sample_log_length: "length (log_layout n sample_log) < 200"
  using sect_bytes_bound [of "n + 56" "log_sections sample_log"]
  by (simp add: log_layout_def log_sections_def sample_log_def)

text \<open>
  C17: a batch of log entries encoded in place never panics, returns exactly the range it
  wrote, and the reader recovers the entries in order, if it takes less than \<open>2 ^ 32\<close> bytes.
\<close>

theorem encode_log_data_into_roundtrip:
  "\<exists>b. encode_log_data_into buf ps = Some (b, length buf, length b) \<and> take (length buf) b = buf \<and>
     (length b < length buf + 2 ^ 32 \<longrightarrow> decode_log_data (b @ rest) (length buf) = Some ps)"
  unfolding encode_log_data_into_def decode_log_data_def
  by (rule log_enc.encode_data_into_roundtrip)

theorem encode_log_data_into_roundtrip_witness:
  "\<exists>b. encode_log_data_into [] [sample_log] = Some (b, 0, length b) \<and>
     decode_log_data (b @ [9]) 0 = Some [sample_log]"
proof -
  have "length (log_enc.entry_lay n sample_log) \<le> 203" for n
    using sample_log_length [of "n + pad4 n"] pad4_lt [of n] by (simp add: log_enc.entry_lay_def)
  then have "length (log_enc.data_layout 0 [sample_log]) \<le> 30 + 4 + 203"
    using log_enc.data_layout_bound [of "[sample_log]" "\<lambda>_. 203" 0] by simp
  then show ?thesis
    using encode_log_data_into_roundtrip [of "[]" "[sample_log]" "[9]"]
    unfolding encode_log_data_into_def log_enc.encode_data_into_eq by auto
qed

text \<open>
  Encoding log entries straight into the batch buffer gives byte for byte what encoding
  each entry on its own and then copying the encodings gives, at any 4-aligned position.
\<close>

theorem encode_log_data_into_eq_copied:
  assumes "4 dvd length buf"
  shows "encode_log_data_into buf ps =
    do { es \<leftarrow> those (map encode_log_entry ps); d \<leftarrow> encode_log_data es;
         Some (buf @ d, length buf, length buf + length d) }"
  unfolding encode_log_data_into_def encode_log_data_def encode_log_entry_layout
  by (simp add: log_enc.encode_data_into_copied [OF assms] those_map_Some)

theorem encode_log_data_into_eq_copied_witness:
  "encode_log_data_into (zeros 4) [sample_log, sample_log] =
    do { es \<leftarrow> those (map encode_log_entry [sample_log, sample_log]); d \<leftarrow> encode_log_data es;
         Some (zeros 4 @ d, 4, 4 + length d) }"
  using encode_log_data_into_eq_copied [of "zeros 4" "[sample_log, sample_log]"] by simp

end
