(* ===== verification/Enc_Metric.thy ===== *)
theory Enc_Metric
  imports Enc_Data
begin

section \<open>The metric encoder (\<open>metric.rs\<close>)\<close>

text \<open>
  Labels and buckets are vectors of tables, so their loop bodies are interpreted as element
  writers; the histogram is a sub-table with its own vtable; the metric entry holds the
  strings, the labels and the histogram, and is itself an entry of the \<open>MetricData\<close> envelope.
\<close>

subsection \<open>Labels\<close>

definition write_label :: "bytes \<Rightarrow> LabelParam \<Rightarrow> (bytes \<times> nat) option" where
  "write_label buf label =
    (let buf = align4 buf;
         vtable_start = length buf;
         buf = write_u16 buf 8;
         buf = write_u16 buf 12;
         buf = write_u16 buf 4;
         buf = write_u16 buf 8;
         table_start = length buf;
         soffset = as_u32 (table_start - vtable_start);
         buf = write_i32 buf soffset;
         key_off_pos = length buf;
         buf = write_u32 buf 0;
         value_off_pos = length buf;
         buf = write_u32 buf 0;
         buf = align4 buf;
         (buf, key_start) = write_string buf (lb_key label);
         buf = align4 buf;
         (buf, value_start) = write_string buf (lb_value label)
     in do {
       buf \<leftarrow> patch_offset buf key_off_pos key_start;
       buf \<leftarrow> patch_offset buf value_off_pos value_start;
       Some (buf, table_start) })"

definition encode_labels :: "bytes \<Rightarrow> LabelParam list \<Rightarrow> (bytes \<times> nat) option" where
  "encode_labels buf labels = write_table_vector write_label buf labels"

definition label_sections :: "LabelParam \<Rightarrow> bytes list" where
  "label_sections l = [string_bytes (lb_key l), string_bytes (lb_value l)]"

definition label_body :: "nat \<Rightarrow> LabelParam \<Rightarrow> bytes" where
  "label_body n l =
    (let at = (\<lambda>i. sect_starts (n + 20) (label_sections l) ! i) in
     u32_le (as_u32 (at 0 - (12 + n))) @ u32_le (as_u32 (at 1 - (16 + n))))"

definition label_table :: "nat \<Rightarrow> LabelParam \<Rightarrow> bytes" where
  "label_table n l = vtable 12 [4, 8] 0 @ label_body n l @ sect_bytes (n + 20) (label_sections l)"

definition label_lay :: "nat \<Rightarrow> LabelParam \<Rightarrow> bytes" where
  "label_lay n l = zeros (pad4 n) @ label_table (n + pad4 n) l"

lemma length_label_body [simp]: "length (label_body n l) = 8"
  by (simp add: label_body_def Let_def)

lemma write_label_eq:
  "write_label buf l = Some (buf @ label_lay (length buf) l, length buf + (pad4 (length buf) + 8))"
  unfolding write_label_def label_lay_def label_table_def label_body_def label_sections_def vtable_def
  by (simp add: Let_def layout_simps ac_simps)

definition read_label :: "bytes \<Rightarrow> nat \<Rightarrow> LabelParam option" where
  "read_label b t = do {
     k \<leftarrow> fb_ref fb_string b t 0; k \<leftarrow> k; v \<leftarrow> fb_ref fb_string b t 1; v \<leftarrow> v;
     Some \<lparr>lb_key = k, lb_value = v\<rparr> }"

lemma read_label_table:
  assumes n: "length pre = n" and bound: "length (label_table n l) < 2 ^ 32"
  shows "read_label (pre @ label_table n l @ post) (n + 8) = Some l"
proof -
  let ?b = "pre @ vtable 12 [4, 8] 0 @ label_body n l @ sect_bytes (n + 20) (label_sections l) @ post"
  have b: "pre @ label_table n l @ post = ?b" by (simp add: label_table_def)
  have "length (sect_bytes (n + 20) (label_sections l)) < 2 ^ 32 - 20"
    using bound by (simp add: label_table_def)
  note end_of = sect_bounds [of _ "label_sections l", OF _ this]
  note ends = end_of [of 0] end_of [of 1]
  note defs = n label_body_def label_sections_def Let_def read_simps
  note ref = fb_ref_entry [where t = "n + 8" and n = "n + 20" and ws = "[4, 8]" and pad = 0
      and body = "label_body n l" and ds = "label_sections l"]
  have "fb_ref fb_string ?b (n + 8) 0 = Some (Some (lb_key l))"
    by (rule ref [where w = 4 and k = 0 and enc = string_bytes])
       (use ends in \<open>auto simp: defs intro!: fb_string_at\<close>)
  moreover have "fb_ref fb_string ?b (n + 8) 1 = Some (Some (lb_value l))"
    by (rule ref [where w = 8 and k = 1 and enc = string_bytes])
       (use ends in \<open>auto simp: defs intro!: fb_string_at\<close>)
  ultimately show ?thesis unfolding b read_label_def by simp
qed

lemma label_table_mod: "n mod 4 = m mod 4 \<Longrightarrow> label_table n l = label_table m l"
proof -
  assume m: "n mod 4 = m mod 4"
  then have "(n + 20) mod 4 = (m + 20) mod 4" by (metis mod_add_left_eq)
  then show ?thesis
    using sect_start_rel [OF m, of _ "label_sections l" _ 20]
    by (simp add: label_table_def label_body_def Let_def sect_bytes_mod [of "n + 20" "m + 20"] label_sections_def)
qed

interpretation label_w: element_writer write_label label_lay "\<lambda>n l. pad4 n + 8" read_label
proof
  show "label_lay n l = label_lay m l \<and> pad4 n + 8 = pad4 m + 8" if "n mod 4 = m mod 4" for n m l
    using pad4_mod [OF that] label_table_mod [OF mod_add_pad4 [OF that]] by (simp add: label_lay_def)
  show "read_label (pre @ label_lay n l @ post) (n + (pad4 n + 8)) = Some l"
    if "length (label_lay n l) < 2 ^ 32" "length pre = n" for n l pre post
    using read_label_table [of "pre @ zeros (pad4 n)" "n + pad4 n" l post] that
    by (simp add: label_lay_def add.assoc)
qed (simp_all add: write_label_eq label_lay_def label_table_def)

subsection \<open>Buckets\<close>

definition write_bucket :: "bytes \<Rightarrow> f64 \<times> u64 \<Rightarrow> (bytes \<times> nat) option" where
  "write_bucket buf bucket =
    (let (upper_bound, count) = bucket;
         vtable_start = length buf;
         buf = write_u16 buf 8;
         buf = write_u16 buf 20;
         buf = write_u16 buf 4;
         buf = write_u16 buf 12;
         buf = align4 buf;
         table_start = length buf;
         buf = write_i32 buf (as_u32 (table_start - vtable_start));
         buf = write_f64 buf upper_bound;
         buf = write_u64 buf count;
         buf = align4 buf
     in Some (buf, table_start))"

definition encode_buckets :: "bytes \<Rightarrow> (f64 \<times> u64) list \<Rightarrow> (bytes \<times> nat) option" where
  "encode_buckets buf buckets = write_table_vector write_bucket buf buckets"

definition bucket_lay :: "nat \<Rightarrow> f64 \<times> u64 \<Rightarrow> bytes" where
  "bucket_lay n x = vtable 20 [4, 12] (pad4 (n + 8)) @ (u64_le (fst x) @ u64_le (snd x)) @
     zeros (pad4 (n + 28 + pad4 (n + 8)))"

lemma write_bucket_eq:
  "write_bucket buf x = Some (buf @ bucket_lay (length buf) x, length buf + (8 + pad4 (length buf + 8)))"
  unfolding write_bucket_def bucket_lay_def vtable_def
  by (cases x) (simp add: Let_def layout_simps ac_simps del: add_2_eq_Suc add_2_eq_Suc')

definition read_bucket :: "bytes \<Rightarrow> nat \<Rightarrow> (f64 \<times> u64) option" where
  "read_bucket b t = do { ub \<leftarrow> fb_scalar64 b t 0; count \<leftarrow> fb_scalar64 b t 1; Some (ub, count) }"

lemma read_bucket_lay:
  assumes "length pre = n"
  shows "read_bucket (pre @ bucket_lay n x @ post) (n + (8 + pad4 (n + 8))) = Some x"
proof -
  let ?b = "pre @ vtable 20 [4, 12] (pad4 (n + 8)) @ (u64_le (fst x) @ u64_le (snd x)) @
    zeros (pad4 (n + 28 + pad4 (n + 8))) @ post"
  have "fb_scalar64 ?b (n + (8 + pad4 (n + 8))) 0 = Some (fst x)"
    by (rule fb_scalar_entry [where w = 4]) (simp_all add: assms read_simps pad4_lt)
  moreover have "fb_scalar64 ?b (n + (8 + pad4 (n + 8))) 1 = Some (snd x)"
    by (rule fb_scalar_entry [where w = 12]) (simp_all add: assms read_simps pad4_lt)
  ultimately show ?thesis by (simp add: read_bucket_def bucket_lay_def)
qed

interpretation bucket_w: element_writer write_bucket bucket_lay "\<lambda>n x. 8 + pad4 (n + 8)" read_bucket
proof
  show "bucket_lay n x = bucket_lay m x \<and> 8 + pad4 (n + 8) = 8 + pad4 (m + 8)"
    if "n mod 4 = m mod 4" for n m x
  proof -
    have p: "pad4 (n + k) = pad4 (m + k)" for k
      by (rule pad4_mod) (use that in \<open>metis mod_add_left_eq\<close>)
    show ?thesis using p [of 8] p [of "28 + pad4 (m + 8)"] by (simp add: bucket_lay_def add.assoc)
  qed
qed (simp_all add: write_bucket_eq read_bucket_lay, simp add: bucket_lay_def)

subsection \<open>Histograms\<close>

definition encode_histogram :: "bytes \<Rightarrow> HistogramParams \<Rightarrow> (bytes \<times> nat) option" where
  "encode_histogram buf h =
    (let has_buckets = hp_buckets h \<noteq> [];
         vtable_start = length buf;
         buf = write_u16 buf 14;
         buf = write_u16 buf 40;
         buf = write_u16 buf 4;
         buf = write_u16 buf 12;
         buf = write_u16 buf (if has_buckets then 20 else 0);
         buf = write_u16 buf 24;
         buf = write_u16 buf 32;
         buf = align4 buf;
         table_start = length buf;
         buf = write_i32 buf (as_u32 (table_start - vtable_start));
         buf = write_u64 buf (hp_count h);
         buf = write_f64 buf (hp_sum h);
         buckets_off_pos = length buf;
         buf = write_u32 buf 0;
         buf = write_f64 buf (hp_min h);
         buf = write_f64 buf (hp_max h);
         buf = align4 buf
     in do {
       buf \<leftarrow> (if has_buckets
               then do { (buf, start) \<leftarrow> encode_buckets buf (hp_buckets h);
                         patch_offset buf buckets_off_pos start }
               else Some buf);
       Some (buf, table_start) })"

text \<open>A vector field is present when the vector is not empty.\<close>

definition nonempty :: "'a list \<Rightarrow> 'a list option" where
  "nonempty xs = (if xs = [] then None else Some xs)"

definition of_nonempty :: "'a list option \<Rightarrow> 'a list" where
  "of_nonempty x = (case x of None \<Rightarrow> [] | Some xs \<Rightarrow> xs)"

lemma of_nonempty_nonempty [simp]: "of_nonempty (nonempty xs) = xs"
  by (simp add: nonempty_def of_nonempty_def)

lemma nonempty_None [simp]: "nonempty xs = None \<longleftrightarrow> xs = []"
  by (simp add: nonempty_def)

definition hist_words :: "HistogramParams \<Rightarrow> u16 list" where
  "hist_words h = [4, 12, if nonempty (hp_buckets h) = None then 0 else 20, 24, 32]"

text \<open>
  The table starts at \<open>n + (14 + p)\<close> with \<open>p\<close> the padding of the vtable, its inline part
  ends 40 bytes later, and the buckets follow at the next aligned position.
\<close>

definition hist_buckets_at :: "nat \<Rightarrow> nat" where
  "hist_buckets_at n = (let e = n + (54 + pad4 (n + 14)) in e + pad4 e)"

definition hist_body :: "nat \<Rightarrow> HistogramParams \<Rightarrow> bytes" where
  "hist_body n h = u64_le (hp_count h) @ u64_le (hp_sum h) @
     u32_le (opt_slot (nonempty (hp_buckets h)) (hist_buckets_at n - (n + (34 + pad4 (n + 14))))) @
     u64_le (hp_min h) @ u64_le (hp_max h)"

definition hist_rest :: "nat \<Rightarrow> HistogramParams \<Rightarrow> bytes" where
  "hist_rest n h = zeros (pad4 (n + (54 + pad4 (n + 14)))) @
     opt_bytes (bucket_w.vec_layout (hist_buckets_at n)) (nonempty (hp_buckets h))"

definition hist_lay :: "nat \<Rightarrow> HistogramParams \<Rightarrow> bytes" where
  "hist_lay n h = vtable 40 (hist_words h) (pad4 (n + 14)) @ hist_body n h @ hist_rest n h"

lemma length_hist [simp]: "length (hist_words h) = 5" "length (hist_body n h) = 36"
  by (simp_all add: hist_words_def hist_body_def)

lemma encode_histogram_eq:
  "encode_histogram buf h = Some (buf @ hist_lay (length buf) h, length buf + (14 + pad4 (length buf + 14)))"
proof (cases "hp_buckets h = []")
  case True
  then show ?thesis
    unfolding encode_histogram_def hist_lay_def hist_words_def hist_body_def hist_rest_def vtable_def
    by (simp add: Let_def layout_simps ac_simps u32_le_0 hist_buckets_at_def nonempty_def
        del: add_2_eq_Suc add_2_eq_Suc')
next
  case False
  then show ?thesis
    unfolding encode_histogram_def hist_lay_def hist_words_def hist_body_def hist_rest_def vtable_def
      encode_buckets_def bucket_w.write_table_vector_eq
    by (simp add: Let_def layout_simps ac_simps u32_le_0 hist_buckets_at_def nonempty_def
        del: add_2_eq_Suc add_2_eq_Suc')
qed

definition read_histogram :: "bytes \<Rightarrow> nat \<Rightarrow> HistogramParams option" where
  "read_histogram b t = do {
     count \<leftarrow> fb_scalar64 b t 0; sum \<leftarrow> fb_scalar64 b t 1;
     buckets \<leftarrow> fb_ref (fb_tables read_bucket) b t 2;
     min \<leftarrow> fb_scalar64 b t 3; max \<leftarrow> fb_scalar64 b t 4;
     Some \<lparr>hp_count = count, hp_sum = sum, hp_min = min, hp_max = max, hp_buckets = of_nonempty buckets\<rparr> }"

lemma read_histogram_lay:
  assumes n: "length pre = n" and bound: "length (hist_lay n h) < 2 ^ 32"
  shows "read_histogram (pre @ hist_lay n h @ post) (n + (14 + pad4 (n + 14))) = Some h"
proof -
  let ?t = "n + (14 + pad4 (n + 14))"
  let ?b = "pre @ vtable 40 (hist_words h) (pad4 (n + 14)) @ hist_body n h @ (hist_rest n h @ post)"
  have b: "pre @ hist_lay n h @ post = ?b" by (simp add: hist_lay_def)
  note defs = n hist_words_def hist_body_def read_simps pad4_lt
  have "fb_scalar64 ?b ?t 0 = Some (hp_count h)"
    by (rule fb_scalar_entry [where w = 4]) (simp_all add: defs)
  moreover have "fb_scalar64 ?b ?t 1 = Some (hp_sum h)"
    by (rule fb_scalar_entry [where w = 12]) (simp_all add: defs)
  moreover have "fb_ref (fb_tables read_bucket) ?b ?t 2 = Some (nonempty (hp_buckets h))"
  proof (rule fb_ref_entry_at [where w = 20 and q = "hist_buckets_at n"])
    fix v assume v: "nonempty (hp_buckets h) = Some v"
    let ?a = "pre @ vtable 40 (hist_words h) (pad4 (n + 14)) @ hist_body n h @
      zeros (pad4 (n + (54 + pad4 (n + 14))))"
    have "fb_tables read_bucket (?a @ bucket_w.vec_layout (hist_buckets_at n) v @ post) (hist_buckets_at n) = Some v"
      by (rule bucket_w.vec_layout_read)
        (use bound v in \<open>simp_all add: hist_lay_def hist_rest_def hist_buckets_at_def Let_def n\<close>)
    then show "fb_tables read_bucket ?b (hist_buckets_at n) = Some v"
      by (simp add: hist_rest_def v)
  qed (simp_all add: defs hist_buckets_at_def Let_def order.strict_trans2 [OF pad4_lt])
  moreover have "fb_scalar64 ?b ?t 3 = Some (hp_min h)"
    by (rule fb_scalar_entry [where w = 24]) (simp_all add: defs)
  moreover have "fb_scalar64 ?b ?t 4 = Some (hp_max h)"
    by (rule fb_scalar_entry [where w = 32]) (simp_all add: defs)
  ultimately show ?thesis unfolding b read_histogram_def by simp
qed

lemma hist_lay_mod:
  assumes "n mod 4 = m mod 4"
  shows "hist_lay n h = hist_lay m h"
proof -
  have p: "pad4 (n + k) = pad4 (m + k)" for k
    by (rule pad4_mod) (use assms in \<open>metis mod_add_left_eq\<close>)
  show ?thesis
    unfolding hist_lay_def hist_body_def hist_rest_def hist_buckets_at_def Let_def p
      add.assoc bucket_w.vec_layout_mod [OF assms] by simp
qed

interpretation hist_w: element_writer encode_histogram hist_lay "\<lambda>n h. 14 + pad4 (n + 14)" read_histogram
proof
  show "hist_lay n h = hist_lay m h \<and> 14 + pad4 (n + 14) = 14 + pad4 (m + 14)"
    if "n mod 4 = m mod 4" for n m h
    using hist_lay_mod [OF that] pad4_mod [of "n + 14" "m + 14"] that by (metis mod_add_left_eq)
qed (simp_all add: encode_histogram_eq read_histogram_lay, simp add: hist_lay_def)

subsection \<open>Metric entries\<close>

text \<open>The two optional tables of an entry: \<open>if has_labels\<close> and \<open>params.histogram.map(..)\<close>.\<close>

definition opt_labels :: "bytes \<Rightarrow> LabelParam list \<Rightarrow> (bytes \<times> nat option) option" where
  "opt_labels buf labels =
    (if labels \<noteq> []
     then do { (buf, start) \<leftarrow> encode_labels buf labels; Some (buf, Some start) }
     else Some (buf, None))"

definition opt_histogram :: "bytes \<Rightarrow> HistogramParams option \<Rightarrow> (bytes \<times> nat option) option" where
  "opt_histogram buf histogram =
    (case histogram of None \<Rightarrow> Some (buf, None)
     | Some h \<Rightarrow> do { (buf, start) \<leftarrow> encode_histogram buf h; Some (buf, Some start) })"

definition encode_metric_entry_into :: "bytes \<Rightarrow> MetricEntryParams \<Rightarrow> bytes option" where
  "encode_metric_entry_into buf params =
    (let has_source = mt_source params \<noteq> None;
         has_service = mt_service params \<noteq> None;
         has_labels = mt_labels params \<noteq> [];
         has_histogram = mt_histogram params \<noteq> None;
         has_session_id = mt_session_id params \<noteq> None;
         vtable_size = 4 + 11 * 2;
         table_size = 52;
         root_pos = length buf;
         buf = buf @ zeros 4;
         vtable_start = length buf;
         buf = write_u16 buf vtable_size;
         buf = write_u16 buf table_size;
         buf = write_u16 buf 48;
         buf = write_u16 buf 32;
         buf = write_u16 buf 4;
         buf = write_u16 buf 40;
         buf = write_u16 buf (if has_source then 8 else 0);
         buf = write_u16 buf (if has_service then 12 else 0);
         buf = write_u16 buf (if has_labels then 16 else 0);
         buf = write_u16 buf 49;
         buf = write_u16 buf (if has_histogram then 24 else 0);
         buf = write_u16 buf (if has_session_id then 28 else 0);
         buf = write_u16 buf 0;
         buf = buf @ zeros 2;
         table_start = length buf;
         soffset = as_u32 (table_start - vtable_start);
         buf = write_i32 buf soffset;
         name_off_pos = length buf;
         buf = write_u32 buf 0;
         source_off_pos = length buf;
         buf = write_u32 buf 0;
         service_off_pos = length buf;
         buf = write_u32 buf 0;
         labels_off_pos = length buf;
         buf = write_u32 buf 0;
         buf = write_u32 buf 0;
         histogram_off_pos = length buf;
         buf = write_u32 buf 0;
         session_id_off_pos = length buf;
         buf = write_u32 buf 0;
         buf = write_u64 buf (mt_timestamp params);
         buf = write_f64 buf (mt_value params);
         buf = buf @ [metric_type_u8 (mt_metric_type params)];
         buf = buf @ [temporality_u8 (mt_temporality params)];
         buf = buf @ zeros 2;
         buf = align4 buf;
         (buf, name_start) = write_string buf (mt_name params);
         buf = align4 buf;
         (buf, source_start) = write_opt write_string buf (mt_source params);
         buf = align4 buf;
         (buf, service_start) = write_opt write_string buf (mt_service params);
         buf = align4 buf;
         (buf, session_id_start) = write_opt write_byte_vector buf (mt_session_id params);
         buf = align4 buf
     in do {
       (buf, labels_start) \<leftarrow> opt_labels buf (mt_labels params);
       (buf, histogram_start) \<leftarrow> opt_histogram buf (mt_histogram params);
       buf \<leftarrow> copy_into buf root_pos (u32_le (as_u32 (table_start - root_pos)));
       buf \<leftarrow> patch_offset buf name_off_pos name_start;
       buf \<leftarrow> patch_opt buf source_off_pos source_start;
       buf \<leftarrow> patch_opt buf service_off_pos service_start;
       buf \<leftarrow> patch_opt buf session_id_off_pos session_id_start;
       buf \<leftarrow> patch_opt buf labels_off_pos labels_start;
       patch_opt buf histogram_off_pos histogram_start
     })"

definition encode_metric_entry :: "MetricEntryParams \<Rightarrow> bytes option" where
  "encode_metric_entry params = encode_metric_entry_into [] params"

lemma opt_labels_eq [layout_simps]:
  "opt_labels buf ls = Some (buf @ opt_bytes (label_w.vec_layout (length buf)) (nonempty ls),
     map_option (\<lambda>_. length buf) (nonempty ls))"
  by (simp add: opt_labels_def encode_labels_def label_w.write_table_vector_eq nonempty_def)

lemma opt_histogram_eq [layout_simps]:
  "opt_histogram buf h = Some (buf @ opt_bytes (hist_lay (length buf)) h,
     map_option (\<lambda>_. length buf + (14 + pad4 (length buf + 14))) h)"
  by (simp add: opt_histogram_def encode_histogram_eq split: option.split)

text \<open>
  The strings and the session id are a run of aligned sections; an empty last section stands
  for the alignment before the labels, which the histogram follows directly.
\<close>

definition metric_sections :: "MetricEntryParams \<Rightarrow> bytes list" where
  "metric_sections p =
     [string_bytes (mt_name p), opt_bytes string_bytes (mt_source p),
      opt_bytes string_bytes (mt_service p), opt_bytes byte_vector (mt_session_id p), []]"

definition metric_words :: "MetricEntryParams \<Rightarrow> u16 list" where
  "metric_words p =
     [48, 32, 4, 40, if mt_source p = None then 0 else 8, if mt_service p = None then 0 else 12,
      if mt_labels p = [] then 0 else 16, 49, if mt_histogram p = None then 0 else 24,
      if mt_session_id p = None then 0 else 28, 0]"

definition metric_labels_at :: "nat \<Rightarrow> MetricEntryParams \<Rightarrow> nat" where
  "metric_labels_at n p = sect_starts (n + 84) (metric_sections p) ! 4"

definition metric_labels :: "nat \<Rightarrow> MetricEntryParams \<Rightarrow> bytes" where
  "metric_labels n p = opt_bytes (label_w.vec_layout (metric_labels_at n p)) (nonempty (mt_labels p))"

definition metric_hist_at :: "nat \<Rightarrow> MetricEntryParams \<Rightarrow> nat" where
  "metric_hist_at n p = metric_labels_at n p + length (metric_labels n p)"

definition metric_hist :: "nat \<Rightarrow> MetricEntryParams \<Rightarrow> bytes" where
  "metric_hist n p = opt_bytes (hist_lay (metric_hist_at n p)) (mt_histogram p)"

definition metric_hist_table :: "nat \<Rightarrow> MetricEntryParams \<Rightarrow> nat" where
  "metric_hist_table n p = metric_hist_at n p + (14 + pad4 (metric_hist_at n p + 14))"

definition metric_body :: "nat \<Rightarrow> MetricEntryParams \<Rightarrow> bytes" where
  "metric_body n p =
    (let at = (\<lambda>i. sect_starts (n + 84) (metric_sections p) ! i) in
     u32_le (as_u32 (at 0 - (36 + n))) @
     u32_le (opt_slot (mt_source p) (at 1 - (40 + n))) @
     u32_le (opt_slot (mt_service p) (at 2 - (44 + n))) @
     u32_le (opt_slot (nonempty (mt_labels p)) (metric_labels_at n p - (48 + n))) @
     u32_le 0 @
     u32_le (opt_slot (mt_histogram p) (metric_hist_table n p - (56 + n))) @
     u32_le (opt_slot (mt_session_id p) (at 3 - (60 + n))) @
     u64_le (mt_timestamp p) @ u64_le (mt_value p) @
     [metric_type_u8 (mt_metric_type p), temporality_u8 (mt_temporality p)] @ zeros 2)"

definition metric_layout :: "nat \<Rightarrow> MetricEntryParams \<Rightarrow> bytes" where
  "metric_layout n p = u32_le (as_u32 32) @ vtable 52 (metric_words p) 2 @ metric_body n p @
     sect_bytes (n + 84) (metric_sections p) @ metric_labels n p @ metric_hist n p"

lemma length_metric_words [simp]: "length (metric_words p) = 11"
  by (simp add: metric_words_def)

lemma length_metric_body [simp]: "length (metric_body n p) = 48"
  by (simp add: metric_body_def Let_def)

lemma encode_metric_entry_into_layout:
  "encode_metric_entry_into buf p = Some (buf @ metric_layout (length buf) p)"
  unfolding encode_metric_entry_into_def metric_layout_def metric_words_def metric_body_def
    metric_labels_def metric_hist_def metric_hist_at_def metric_hist_table_def metric_labels_at_def
    metric_sections_def vtable_def
  by (simp add: Let_def layout_simps ac_simps split del: if_split) simp

lemma metric_labels_at_le:
  "n + 84 \<le> metric_labels_at n p"
  "metric_labels_at n p = n + 84 + length (sect_bytes (n + 84) (metric_sections p))"
proof -
  have "sect_starts m (ds @ [[]]) ! length ds = m + length (sect_bytes m (ds @ [[]]))" for m ds
    by (induction ds arbitrary: m) (simp_all add: layout_simps)
  from this [of "n + 84" "butlast (metric_sections p)"]
  show "metric_labels_at n p = n + 84 + length (sect_bytes (n + 84) (metric_sections p))"
    by (simp add: metric_labels_at_def metric_sections_def eval_nat_numeral)
  then show "n + 84 \<le> metric_labels_at n p" by simp
qed

lemma metric_layout_mod:
  assumes m: "n mod 4 = m mod 4"
  shows "metric_layout n p = metric_layout m p"
proof -
  have nm: "(n + 84) mod 4 = (m + 84) mod 4" using m by (metis mod_add_left_eq)
  define k where "k = 84 + length (sect_bytes (m + 84) (metric_sections p))"
  have at: "metric_labels_at n p = n + k" "metric_labels_at m p = m + k"
    using metric_labels_at_le(2) [of n p] metric_labels_at_le(2) [of m p] sect_bytes_mod [OF nm]
    by (simp_all add: k_def)
  have k: "84 \<le> k" by (simp add: k_def)
  have labels: "metric_labels n p = metric_labels m p"
    unfolding metric_labels_def at by (simp only: label_w.vec_layout_mod [OF m, abs_def])
  define j where "j = k + length (metric_labels m p)"
  have hat: "metric_hist_at n p = n + j" "metric_hist_at m p = m + j"
    by (simp_all add: metric_hist_at_def labels at j_def)
  have j: "84 \<le> j" using k by (simp add: j_def)
  have nj: "(n + i) mod 4 = (m + i) mod 4" for i using m by (metis mod_add_left_eq)
  have hist: "metric_hist n p = metric_hist m p"
    unfolding metric_hist_def hat by (simp only: hist_lay_mod [OF nj, abs_def])
  have tab: "metric_hist_table n p - (56 + n) = metric_hist_table m p - (56 + m)"
    using j pad4_mod [OF nj, of "j + 14"] by (simp add: metric_hist_table_def hat add.assoc)
  have body: "metric_body n p = metric_body m p"
    using sect_start_rel [OF m, of _ "metric_sections p" _ 84] k
    by (simp add: metric_body_def Let_def tab at metric_sections_def)
  show ?thesis
    by (simp add: metric_layout_def labels hist body sect_bytes_mod [OF nm])
qed

subsection \<open>Reading a metric entry back\<close>

definition read_metric :: "bytes \<Rightarrow> nat \<Rightarrow> MetricEntryParams option" where
  "read_metric b t = do {
     ty \<leftarrow> fb_scalar8 b t 0; ty \<leftarrow> metric_type_of_u8 ty;
     ts \<leftarrow> fb_scalar64 b t 1;
     name \<leftarrow> fb_ref fb_string b t 2; name \<leftarrow> name;
     v \<leftarrow> fb_scalar64 b t 3;
     source \<leftarrow> fb_ref fb_string b t 4;
     service \<leftarrow> fb_ref fb_string b t 5;
     labels \<leftarrow> fb_ref (fb_tables read_label) b t 6;
     temporality \<leftarrow> fb_scalar8 b t 7; temporality \<leftarrow> temporality_of_u8 temporality;
     histogram \<leftarrow> fb_ref read_histogram b t 8;
     session_id \<leftarrow> fb_ref fb_vector b t 9;
     Some \<lparr>mt_metric_type = ty, mt_timestamp = ts, mt_name = name, mt_value = v, mt_source = source,
           mt_service = service, mt_labels = of_nonempty labels, mt_temporality = temporality,
           mt_histogram = histogram, mt_session_id = session_id\<rparr> }"

lemma read_metric_layout:
  assumes n: "length pre = n" and bound: "length (metric_layout n p) < 2 ^ 32"
  shows "read_metric (pre @ metric_layout n p @ post) (n + 32) = Some p"
proof -
  let ?rest = "metric_labels n p @ metric_hist n p @ post"
  let ?b = "(pre @ u32_le (as_u32 32)) @ vtable 52 (metric_words p) 2 @ metric_body n p @
    sect_bytes (n + 84) (metric_sections p) @ ?rest"
  have b: "pre @ metric_layout n p @ post = ?b" by (simp add: metric_layout_def)
  have len: "length (sect_bytes (n + 84) (metric_sections p)) + length (metric_labels n p) +
      length (metric_hist n p) < 2 ^ 32 - 84"
    using bound by (simp add: metric_layout_def)
  then have "length (sect_bytes (n + 84) (metric_sections p)) < 2 ^ 32 - 84" by simp
  note end_of = sect_bounds [of _ "metric_sections p", OF _ this]
  note ends = end_of [of 0] end_of [of 1] end_of [of 2] end_of [of 3]
  note at = metric_labels_at_le [of n p]
  have hist_at: "metric_hist_at n p \<le> metric_hist_table n p" "metric_hist_table n p < metric_hist_at n p + 18"
    "metric_hist_at n p = metric_labels_at n p + length (metric_labels n p)"
    using pad4_lt [of "metric_hist_at n p + 14"] by (simp_all add: metric_hist_table_def metric_hist_at_def)
  note defs = n metric_words_def metric_body_def metric_sections_def Let_def read_simps
  note ref = fb_ref_entry [where t = "n + 32" and n = "n + 84" and ws = "metric_words p" and pad = 2
      and body = "metric_body n p" and ds = "metric_sections p"]
  have "fb_scalar8 ?b (n + 32) 0 = Some (metric_type_u8 (mt_metric_type p))"
    by (rule fb_scalar_entry [where w = 48]) (simp_all add: defs)
  moreover have "fb_scalar64 ?b (n + 32) 1 = Some (mt_timestamp p)"
    by (rule fb_scalar_entry [where w = 32]) (simp_all add: defs)
  moreover have "fb_ref fb_string ?b (n + 32) 2 = Some (Some (mt_name p))"
    by (rule ref [where w = 4 and k = 0 and enc = string_bytes])
       (use ends in \<open>auto simp: defs intro!: fb_string_at\<close>)
  moreover have "fb_scalar64 ?b (n + 32) 3 = Some (mt_value p)"
    by (rule fb_scalar_entry [where w = 40]) (simp_all add: defs)
  moreover have "fb_ref fb_string ?b (n + 32) 4 = Some (mt_source p)"
    by (rule ref [where w = 8 and k = 1 and enc = string_bytes])
       (use ends in \<open>auto simp: defs intro!: fb_string_at\<close>)
  moreover have "fb_ref fb_string ?b (n + 32) 5 = Some (mt_service p)"
    by (rule ref [where w = 12 and k = 2 and enc = string_bytes])
       (use ends in \<open>auto simp: defs intro!: fb_string_at\<close>)
  moreover have "fb_ref (fb_tables read_label) ?b (n + 32) 6 = Some (nonempty (mt_labels p))"
  proof (rule fb_ref_entry_at [where w = 16 and q = "metric_labels_at n p"])
    fix v assume v: "nonempty (mt_labels p) = Some v"
    let ?a = "(pre @ u32_le (as_u32 32)) @ vtable 52 (metric_words p) 2 @ metric_body n p @
      sect_bytes (n + 84) (metric_sections p)"
    have "fb_tables read_label (?a @ label_w.vec_layout (metric_labels_at n p) v @ (metric_hist n p @ post))
        (metric_labels_at n p) = Some v"
      by (rule label_w.vec_layout_read) (use len v in \<open>simp_all add: metric_labels_def at(2) n\<close>)
    then show "fb_tables read_label ?b (metric_labels_at n p) = Some v"
      by (simp add: metric_labels_def v)
  qed (use at len in \<open>simp_all add: defs\<close>)
  moreover have "fb_scalar8 ?b (n + 32) 7 = Some (temporality_u8 (mt_temporality p))"
    by (rule fb_scalar_entry [where w = 49]) (simp_all add: defs)
  moreover have "fb_ref read_histogram ?b (n + 32) 8 = Some (mt_histogram p)"
  proof (rule fb_ref_entry_at [where w = 24 and q = "metric_hist_table n p"])
    fix v assume v: "mt_histogram p = Some v"
    let ?a = "(pre @ u32_le (as_u32 32)) @ vtable 52 (metric_words p) 2 @ metric_body n p @
      sect_bytes (n + 84) (metric_sections p) @ metric_labels n p"
    have "read_histogram (?a @ hist_lay (metric_hist_at n p) v @ post) (metric_hist_table n p) = Some v"
      unfolding metric_hist_table_def
      by (rule read_histogram_lay) (use len v in \<open>simp_all add: metric_hist_def metric_hist_at_def at(2) n\<close>)
    then show "read_histogram ?b (metric_hist_table n p) = Some v"
      by (simp add: metric_hist_def v)
  qed (use at hist_at len in \<open>simp_all add: defs\<close>)
  moreover have "fb_ref fb_vector ?b (n + 32) 9 = Some (mt_session_id p)"
    by (rule ref [where w = 28 and k = 3 and enc = byte_vector])
       (use ends in \<open>auto simp: defs intro!: fb_vector_at\<close>)
  ultimately show ?thesis
    unfolding b read_metric_def by simp
qed

lemma encode_metric_entry_layout: "encode_metric_entry p = Some (metric_layout 0 p)"
  by (simp add: encode_metric_entry_def encode_metric_entry_into_layout)

interpretation metric_enc: entry_encoder encode_metric_entry_into metric_layout 32 read_metric
proof
  show "take 4 (metric_layout n p) = u32_le (as_u32 32)" for n p
    by (simp add: metric_layout_def)
  show "32 < (2 :: nat) ^ 32 \<and> 32 \<le> length (metric_layout n p)" for n p
    by (simp add: metric_layout_def)
qed (fact encode_metric_entry_into_layout metric_layout_mod | (rule read_metric_layout, assumption+))+

subsection \<open>Vectors of metric entries\<close>

definition encode_metric_data_into :: "bytes \<Rightarrow> MetricEntryParams list \<Rightarrow> (bytes \<times> nat \<times> nat) option" where
  "encode_metric_data_into buf metrics = encode_data_into (in_place_entry encode_metric_entry_into) buf metrics"

definition encode_metric_data :: "bytes list \<Rightarrow> bytes option" where
  "encode_metric_data encoded_metrics = encode_data encoded_metrics"

definition decode_metric_data :: "bytes \<Rightarrow> nat \<Rightarrow> MetricEntryParams list option" where
  "decode_metric_data b base = read_data read_metric b base"

definition sample_metric :: MetricEntryParams where
  "sample_metric = \<lparr>mt_metric_type = Histogram, mt_timestamp = 77, mt_name = [97, 98, 99], mt_value = 0,
     mt_source = Some [104], mt_service = None, mt_labels = [\<lparr>lb_key = [107], lb_value = [118]\<rparr>],
     mt_temporality = Delta,
     mt_histogram = Some \<lparr>hp_count = 2, hp_sum = 5, hp_min = 1, hp_max = 4, hp_buckets = [(3, 1), (9, 1)]\<rparr>,
     mt_session_id = None\<rparr>"

text \<open>
  C18: a batch of metric entries, with their label vectors and histogram sub-tables, encoded in
  place never panics, returns exactly the range it wrote, and the reader recovers every entry,
  label and bucket in order, if it takes less than \<open>2 ^ 32\<close> bytes.
\<close>

theorem encode_metric_data_into_roundtrip:
  "\<exists>b. encode_metric_data_into buf ps = Some (b, length buf, length b) \<and> take (length buf) b = buf \<and>
     (length b < length buf + 2 ^ 32 \<longrightarrow> decode_metric_data (b @ rest) (length buf) = Some ps)"
  unfolding encode_metric_data_into_def decode_metric_data_def
  by (rule metric_enc.encode_data_into_roundtrip)

lemma label_lay_length: "length (label_lay n l) \<le> 39 + length (lb_key l) + length (lb_value l)"
  using sect_bytes_bound [of "n + pad4 n + 20" "label_sections l"] pad4_lt [of n]
  by (simp add: label_lay_def label_table_def label_sections_def)

lemma hist_lay_length: "length (hist_lay n h) \<le> 67 + 38 * length (hp_buckets h)"
proof -
  have lay: "length (bucket_lay m x) \<le> 34" for m x
    using pad4_lt [of "m + 8"] pad4_lt [of "m + 28 + pad4 (m + 8)"] by (simp add: bucket_lay_def)
  have "length (bucket_w.vec_layout (hist_buckets_at n) (hp_buckets h)) \<le>
      7 + 4 * length (hp_buckets h) + sum_list (map (\<lambda>_. 34) (hp_buckets h))"
    by (rule bucket_w.vec_layout_bound) (rule lay)
  then show ?thesis
    using pad4_lt [of "n + 14"] pad4_lt [of "n + (54 + pad4 (n + 14))"]
    by (simp add: hist_lay_def hist_rest_def nonempty_def sum_list_triv)
qed

lemma sample_metric_length: "length (metric_layout n sample_metric) < 600"
proof -
  let ?l = "\<lparr>lb_key = [107], lb_value = [118]\<rparr>"
  have "length (label_w.vec_layout m [?l]) \<le> 7 + 4 * length [?l] + sum_list (map (\<lambda>_. 41) [?l])" for m
    by (rule label_w.vec_layout_bound) (use label_lay_length [of _ ?l] in simp)
  then have labels: "length (metric_labels n sample_metric) \<le> 52"
    by (simp add: metric_labels_def sample_metric_def nonempty_def)
  have hist: "length (metric_hist n sample_metric) \<le> 143"
    using hist_lay_length [of "metric_hist_at n sample_metric" "the (mt_histogram sample_metric)"]
    by (simp add: metric_hist_def sample_metric_def)
  have "length (sect_bytes (n + 84) (metric_sections sample_metric)) \<le> 29"
    using sect_bytes_bound [of "n + 84" "metric_sections sample_metric"]
    by (simp add: metric_sections_def sample_metric_def)
  with labels hist show ?thesis by (simp add: metric_layout_def)
qed

theorem encode_metric_data_into_roundtrip_witness:
  "\<exists>b. encode_metric_data_into [] [sample_metric] = Some (b, 0, length b) \<and>
     decode_metric_data (b @ [9]) 0 = Some [sample_metric]"
proof -
  have "length (metric_enc.entry_lay n sample_metric) \<le> 603" for n
    using sample_metric_length [of "n + pad4 n"] pad4_lt [of n] by (simp add: metric_enc.entry_lay_def)
  then have "length (metric_enc.data_layout 0 [sample_metric]) \<le> 30 + 4 + 603"
    using metric_enc.data_layout_bound [of "[sample_metric]" "\<lambda>_. 603" 0] by simp
  then show ?thesis
    using encode_metric_data_into_roundtrip [of "[]" "[sample_metric]" "[9]"]
    unfolding encode_metric_data_into_def metric_enc.encode_data_into_eq by auto
qed

text \<open>
  Encoding metric entries straight into the batch buffer gives byte for byte what encoding
  each entry on its own and then copying the encodings gives, at any 4-aligned position.
\<close>

theorem encode_metric_data_into_eq_copied:
  assumes "4 dvd length buf"
  shows "encode_metric_data_into buf ps =
    do { es \<leftarrow> those (map encode_metric_entry ps); d \<leftarrow> encode_metric_data es;
         Some (buf @ d, length buf, length buf + length d) }"
  unfolding encode_metric_data_into_def encode_metric_data_def encode_metric_entry_layout
  by (simp add: metric_enc.encode_data_into_copied [OF assms] those_map_Some)

theorem encode_metric_data_into_eq_copied_witness:
  "encode_metric_data_into (zeros 4) [sample_metric, sample_metric] =
    do { es \<leftarrow> those (map encode_metric_entry [sample_metric, sample_metric]); d \<leftarrow> encode_metric_data es;
         Some (zeros 4 @ d, 4, 4 + length d) }"
  using encode_metric_data_into_eq_copied [of "zeros 4" "[sample_metric, sample_metric]"] by simp

end
