(* ===== verification/Enc_Batch.thy ===== *)
theory Enc_Batch
  imports Enc_Data
begin

section \<open>The batch envelope (\<open>batch.rs\<close>)\<close>

text \<open>
  \<open>encode_batch_into\<close> and \<open>encode_batch\<close>. The root word is the absolute position of the
  table, as the code writes it; the round trip holds for the empty buffer the callers pass,
  and the last theorem shows what the root word means in a buffer that already holds bytes.
\<close>

definition encode_batch_into :: "bytes \<Rightarrow> BatchParams \<Rightarrow> bytes option" where
  "encode_batch_into buf params =
    (let has_batch_id = bp_batch_id params \<noteq> 0;
         version = (if bp_version params = 0 then DEFAULT_VERSION else bp_version params);
         vtable_size = 4 + 6 * 2;
         table_size = 4 + 28;
         base = length buf;
         buf = buf @ zeros 4;
         vtable_start = length buf;
         buf = write_u16 buf vtable_size;
         buf = write_u16 buf table_size;
         buf = write_u16 buf 4;
         buf = write_u16 buf 24;
         buf = write_u16 buf 25;
         buf = write_u16 buf (if has_batch_id then 16 else 0);
         buf = write_u16 buf 8;
         buf = write_u16 buf 0;
         table_start = length buf;
         soffset = as_u32 (table_start - vtable_start);
         buf = write_i32 buf soffset;
         api_key_off_pos = length buf;
         buf = write_u32 buf 0;
         data_off_pos = length buf;
         buf = write_u32 buf 0;
         buf = write_u32 buf 0;
         buf = write_u64 buf (bp_batch_id params);
         buf = buf @ [schema_u8 (bp_schema_type params)];
         buf = buf @ [version];
         buf = buf @ zeros 2;
         buf = align4 buf;
         (buf, api_key_vec_start) = write_byte_vector buf (bp_api_key params);
         buf = align4 buf;
         (buf, data_vec_start) = write_byte_vector buf (bp_data params)
     in do {
       buf \<leftarrow> copy_into buf base (u32_le (as_u32 table_start));
       buf \<leftarrow> patch_offset buf api_key_off_pos api_key_vec_start;
       patch_offset buf data_off_pos data_vec_start
     })"

definition encode_batch :: "BatchParams \<Rightarrow> bytes option" where
  "encode_batch params = (let buf = [] in encode_batch_into buf params)"

subsection \<open>Layout\<close>

definition batch_version :: "BatchParams \<Rightarrow> u8" where
  "batch_version p = (if bp_version p = 0 then DEFAULT_VERSION else bp_version p)"

definition batch_sections :: "BatchParams \<Rightarrow> bytes list" where
  "batch_sections p = [byte_vector (bp_api_key p), byte_vector (bp_data p)]"

definition batch_words :: "BatchParams \<Rightarrow> u16 list" where
  "batch_words p = [4, 24, 25, if bp_batch_id p = 0 then 0 else 16, 8, 0]"

definition batch_body :: "nat \<Rightarrow> BatchParams \<Rightarrow> bytes" where
  "batch_body n p =
    (let at = (\<lambda>i. sect_starts (n + 48) (batch_sections p) ! i) in
     u32_le (as_u32 (at 0 - (24 + n))) @ u32_le (as_u32 (at 1 - (28 + n))) @ u32_le 0 @
     u64_le (bp_batch_id p) @ [schema_u8 (bp_schema_type p), batch_version p] @ zeros 2)"

definition batch_layout :: "nat \<Rightarrow> BatchParams \<Rightarrow> bytes" where
  "batch_layout n p = u32_le (as_u32 (20 + n)) @ vtable 32 (batch_words p) 0 @ batch_body n p @
     sect_bytes (n + 48) (batch_sections p)"

lemma length_batch_words [simp]: "length (batch_words p) = 6"
  by (simp add: batch_words_def)

lemma length_batch_body [simp]: "length (batch_body n p) = 24"
  by (simp add: batch_body_def Let_def)

lemma encode_batch_into_layout:
  "encode_batch_into buf p = Some (buf @ batch_layout (length buf) p)"
  unfolding encode_batch_into_def batch_layout_def batch_words_def batch_body_def batch_sections_def
    vtable_def batch_version_def
  by (simp add: Let_def layout_simps ac_simps split del: if_split cong: if_cong) (simp split: if_split)

subsection \<open>Reading a batch back\<close>

definition read_batch :: "bytes \<Rightarrow> nat \<Rightarrow> BatchParams option" where
  "read_batch b t = do {
     api_key \<leftarrow> fb_ref fb_vector b t 0; api_key \<leftarrow> api_key;
     ty \<leftarrow> fb_scalar8 b t 1; ty \<leftarrow> schema_of_u8 ty;
     version \<leftarrow> fb_scalar8 b t 2;
     batch_id \<leftarrow> fb_scalar64 b t 3;
     data \<leftarrow> fb_ref fb_vector b t 4; data \<leftarrow> data;
     Some \<lparr>bp_api_key = api_key, bp_schema_type = ty, bp_version = version, bp_batch_id = batch_id,
           bp_data = data\<rparr> }"

definition decode_batch :: "bytes \<Rightarrow> nat \<Rightarrow> BatchParams option" where
  "decode_batch b base = do { t \<leftarrow> fb_root b base; read_batch b t }"

lemma read_batch_layout:
  assumes n: "length pre = n" and bound: "length (batch_layout n p) < 2 ^ 32"
  shows "read_batch (pre @ batch_layout n p @ post) (n + 20) = Some (p\<lparr>bp_version := batch_version p\<rparr>)"
proof -
  let ?b = "(pre @ u32_le (as_u32 (20 + n))) @ vtable 32 (batch_words p) 0 @ batch_body n p @
    sect_bytes (n + 48) (batch_sections p) @ post"
  have b: "pre @ batch_layout n p @ post = ?b" by (simp add: batch_layout_def)
  have "length (sect_bytes (n + 48) (batch_sections p)) < 2 ^ 32 - 48"
    using bound by (simp add: batch_layout_def)
  note end_of = sect_bounds [of _ "batch_sections p", OF _ this]
  note ends = end_of [of 0] end_of [of 1]
  note defs = n batch_words_def batch_body_def batch_sections_def Let_def read_simps
  note ref = fb_ref_entry [where t = "n + 20" and n = "n + 48" and ws = "batch_words p" and pad = 0
      and body = "batch_body n p" and ds = "batch_sections p"]
  have "fb_ref fb_vector ?b (n + 20) 0 = Some (Some (bp_api_key p))"
    by (rule ref [where w = 4 and k = 0 and enc = byte_vector])
       (use ends in \<open>auto simp: defs intro!: fb_vector_at\<close>)
  moreover have "fb_scalar8 ?b (n + 20) 1 = Some (schema_u8 (bp_schema_type p))"
    by (rule fb_scalar_entry [where w = 24]) (simp_all add: defs)
  moreover have "fb_scalar8 ?b (n + 20) 2 = Some (batch_version p)"
    by (rule fb_scalar_entry [where w = 25]) (simp_all add: defs)
  moreover have "fb_scalar64 ?b (n + 20) 3 = Some (bp_batch_id p)"
  proof (cases "bp_batch_id p = 0")
    case True
    have "fb_field ?b (n + 20) 3 = Some None"
      by (subst fb_field_vtable) (simp_all add: n batch_words_def True)
    with True show ?thesis by (simp add: fb_scalar64_def)
  next
    case False
    then show ?thesis
      by (intro fb_scalar_entry [where w = 16]) (simp_all add: defs)
  qed
  moreover have "fb_ref fb_vector ?b (n + 20) 4 = Some (Some (bp_data p))"
    by (rule ref [where w = 8 and k = 1 and enc = byte_vector])
       (use ends in \<open>auto simp: defs intro!: fb_vector_at\<close>)
  ultimately show ?thesis
    unfolding b read_batch_def by simp
qed

text \<open>
  C19: the envelope of a batch never panics and is read back: API key, schema, batch id and
  data unchanged, and the version, with 0 standing for the default version 100, if the batch
  takes less than \<open>2 ^ 32\<close> bytes.
\<close>

theorem encode_batch_roundtrip:
  "\<exists>b. encode_batch p = Some b \<and>
     (length b < 2 ^ 32 \<longrightarrow> decode_batch (b @ rest) 0 =
        Some (p\<lparr>bp_version := if bp_version p = 0 then 100 else bp_version p\<rparr>))"
proof (intro exI conjI impI)
  show "encode_batch p = Some (batch_layout 0 p)"
    using encode_batch_into_layout [of "[]" p] by (simp add: encode_batch_def)
  assume "length (batch_layout 0 p) < 2 ^ 32"
  then have "read_batch (batch_layout 0 p @ rest) 20 = Some (p\<lparr>bp_version := batch_version p\<rparr>)"
    using read_batch_layout [of "[]" 0 p rest] by simp
  moreover have "fb_root (batch_layout 0 p @ rest) 0 = Some 20"
    by (simp add: batch_layout_def fb_root_def read_simps)
  ultimately show "decode_batch (batch_layout 0 p @ rest) 0 =
      Some (p\<lparr>bp_version := if bp_version p = 0 then 100 else bp_version p\<rparr>)"
    by (simp add: decode_batch_def batch_version_def DEFAULT_VERSION_def)
qed

definition sample_batch :: BatchParams where
  "sample_batch = \<lparr>bp_api_key = replicate 16 161, bp_schema_type = SchemaEvent, bp_version = 0,
     bp_batch_id = 42, bp_data = [1, 2, 3]\<rparr>"

lemma sample_batch_length: "length (batch_layout n sample_batch) < 100"
  using sect_bytes_bound [of "n + 48" "batch_sections sample_batch"]
  by (simp add: batch_layout_def batch_sections_def sample_batch_def)

theorem encode_batch_roundtrip_witness:
  "\<exists>b. encode_batch sample_batch = Some b \<and>
     decode_batch (b @ [5]) 0 = Some (sample_batch\<lparr>bp_version := 100\<rparr>)"
proof -
  have "length (batch_layout 0 sample_batch) < 2 ^ 32"
    by (rule less_trans [OF sample_batch_length]) simp
  moreover have "encode_batch sample_batch = Some (batch_layout 0 sample_batch)"
    using encode_batch_into_layout [of "[]"] by (simp add: encode_batch_def)
  ultimately show ?thesis
    using encode_batch_roundtrip [of sample_batch "[5]"] by (auto simp: sample_batch_def)
qed

text \<open>
  C40: in a buffer that already holds bytes, the table is written where a reader expects it
  (20 bytes after the start of the envelope), but the root word holds its absolute position
  and not the distance from the envelope's start, so the root leads \<open>length buf\<close> bytes past
  the table. The event, log and metric encoders write the distance.
\<close>

theorem encode_batch_into_root_is_absolute:
  assumes "length buf + length (bp_data p) + length (bp_api_key p) < 2 ^ 31"
  shows "\<exists>b. encode_batch_into buf p = Some b \<and>
     read_batch b (length buf + 20) = Some (p\<lparr>bp_version := if bp_version p = 0 then 100 else bp_version p\<rparr>) \<and>
     fb_root b (length buf) = Some (length buf + 20 + length buf)"
proof (intro exI conjI)
  let ?n = "length buf"
  show "encode_batch_into buf p = Some (buf @ batch_layout ?n p)"
    by (rule encode_batch_into_layout)
  have "length (batch_layout ?n p) < 2 ^ 32"
    using sect_bytes_bound [of "?n + 48" "batch_sections p"] assms
    by (simp add: batch_layout_def batch_sections_def)
  then show "read_batch (buf @ batch_layout ?n p) (?n + 20) =
      Some (p\<lparr>bp_version := if bp_version p = 0 then 100 else bp_version p\<rparr>)"
    using read_batch_layout [of buf ?n p "[]"] by (simp add: batch_version_def DEFAULT_VERSION_def)
  show "fb_root (buf @ batch_layout ?n p) ?n = Some (?n + 20 + ?n)"
    using assms by (simp add: batch_layout_def fb_root_def read_simps)
qed

theorem encode_batch_into_root_is_absolute_witness:
  "\<exists>b. encode_batch_into (zeros 8) sample_batch = Some b \<and>
     read_batch b 28 = Some (sample_batch\<lparr>bp_version := 100\<rparr>) \<and> fb_root b 8 = Some 36"
  using encode_batch_into_root_is_absolute [of "zeros 8" sample_batch] by (simp add: sample_batch_def)

end
