(* ===== verification/Log_Spec.thy ===== *)
theory Log_Spec
  imports Main "HOL-Library.Multiset"
begin

section \<open>What a durable log promises\<close>

text \<open>
  The contract between the write-ahead log and the worker: a queue of items with a byte
  capacity, oldest items evicted first, and a cursor that a crash may set back. The abstract
  state is the list of items taken since the last settle and the queue of items to take.
\<close>

datatype 'x log_op = Push 'x | Pop | Settle | Crash

datatype 'x log_out = Evicted nat | Popped "'x option" | Done

type_synonym 'x log_state = "'x list \<times> 'x list"

definition total :: "('x \<Rightarrow> nat) \<Rightarrow> 'x list \<Rightarrow> nat" where
  "total sz xs = sum_list (map sz xs)"

text \<open>How many of the oldest items make room for \<open>needed\<close> bytes: as few as possible, or all.\<close>

fun evict_count :: "('x \<Rightarrow> nat) \<Rightarrow> nat \<Rightarrow> nat \<Rightarrow> 'x list \<Rightarrow> nat" where
  "evict_count sz cap needed [] = 0"
| "evict_count sz cap needed (x # q) =
     (if total sz (x # q) + needed \<le> cap then 0 else Suc (evict_count sz cap needed q))"

fun spec_step :: "('x \<Rightarrow> nat) \<Rightarrow> nat \<Rightarrow> 'x log_op \<Rightarrow> 'x log_state \<Rightarrow> 'x log_out \<times> 'x log_state" where
  "spec_step sz cap (Push x) (b, c) =
     (let n = evict_count sz cap (sz x) c in
      (Evicted (total sz (take n c)),
       (if total sz c + sz x \<le> cap then b else []), drop n c @ [x]))"
| "spec_step sz cap Pop (b, c) =
     (case c of [] \<Rightarrow> (Popped None, b, []) | x # c' \<Rightarrow> (Popped (Some x), b @ [x], c'))"
| "spec_step sz cap Settle (b, c) = (Done, [], c)"
| "spec_step sz cap Crash (b, c) = (Done, [], b @ c)"

fun spec_run :: "('x \<Rightarrow> nat) \<Rightarrow> nat \<Rightarrow> 'x log_op list \<Rightarrow> 'x log_state \<Rightarrow> 'x log_out list \<times> 'x log_state" where
  "spec_run sz cap [] st = ([], st)"
| "spec_run sz cap (p # ps) st =
     (let (out, st) = spec_step sz cap p st; (outs, st) = spec_run sz cap ps st in (out # outs, st))"

text \<open>A run of the operations of an implementation; \<open>None\<close> as soon as one returns an error.\<close>

fun log_step ::
  "('x \<Rightarrow> 's \<Rightarrow> ('e + nat) \<times> 's) \<Rightarrow> ('s \<Rightarrow> ('e + 'x option) \<times> 's) \<Rightarrow> ('s \<Rightarrow> ('e + unit) \<times> 's) \<Rightarrow>
   ('s \<Rightarrow> ('e + unit) \<times> 's) \<Rightarrow> 'x log_op \<Rightarrow> 's \<Rightarrow> ('x log_out \<times> 's) option" where
  "log_step push pop settle restart (Push x) s =
     (case push x s of (Inr n, s) \<Rightarrow> Some (Evicted n, s) | _ \<Rightarrow> None)"
| "log_step push pop settle restart Pop s =
     (case pop s of (Inr x, s) \<Rightarrow> Some (Popped x, s) | _ \<Rightarrow> None)"
| "log_step push pop settle restart Settle s =
     (case settle s of (Inr _, s) \<Rightarrow> Some (Done, s) | _ \<Rightarrow> None)"
| "log_step push pop settle restart Crash s =
     (case restart s of (Inr _, s) \<Rightarrow> Some (Done, s) | _ \<Rightarrow> None)"

fun log_run ::
  "('x \<Rightarrow> 's \<Rightarrow> ('e + nat) \<times> 's) \<Rightarrow> ('s \<Rightarrow> ('e + 'x option) \<times> 's) \<Rightarrow> ('s \<Rightarrow> ('e + unit) \<times> 's) \<Rightarrow>
   ('s \<Rightarrow> ('e + unit) \<times> 's) \<Rightarrow> 'x log_op list \<Rightarrow> 's \<Rightarrow> ('x log_out list \<times> 's) option" where
  "log_run push pop settle restart [] s = Some ([], s)"
| "log_run push pop settle restart (p # ps) s =
     (case log_step push pop settle restart p s of
        None \<Rightarrow> None
      | Some (out, s) \<Rightarrow>
          (case log_run push pop settle restart ps s of
             None \<Rightarrow> None
           | Some (outs, s) \<Rightarrow> Some (out # outs, s)))"

fun pushed :: "'x log_op list \<Rightarrow> 'x list" where
  "pushed [] = []"
| "pushed (Push x # ps) = x # pushed ps"
| "pushed (_ # ps) = pushed ps"

fun popped :: "'x log_out list \<Rightarrow> 'x list" where
  "popped [] = []"
| "popped (Popped (Some x) # outs) = x # popped outs"
| "popped (_ # outs) = popped outs"

subsection \<open>Facts about the specification\<close>

lemma total_simps [simp]:
  "total sz [] = 0" "total sz (x # xs) = sz x + total sz xs"
  "total sz (xs @ ys) = total sz xs + total sz ys"
  by (simp_all add: total_def)

lemma total_drop_le: "total sz (drop n xs) \<le> total sz xs"
proof -
  have "total sz xs = total sz (take n xs) + total sz (drop n xs)"
    by (simp flip: total_simps(3))
  then show ?thesis by simp
qed

lemma evict_count_fits: "total sz c + needed \<le> cap \<Longrightarrow> evict_count sz cap needed c = 0"
  by (cases c) auto

lemma evict_count_le: "evict_count sz cap needed c \<le> length c"
  by (induction c) auto

lemma evict_count_room:
  "total sz (drop (evict_count sz cap needed c) c) + needed \<le> max cap needed"
  by (induction c) auto

lemma evict_count_unique:
  assumes "n \<le> length c" "n = length c \<or> total sz (drop n c) + needed \<le> cap"
    and "0 < n \<longrightarrow> cap < total sz (drop (n - 1) c) + needed"
  shows "n = evict_count sz cap needed c"
  using assms
proof (induction c arbitrary: n)
  case (Cons x c)
  show ?case
  proof (cases n)
    case 0
    with Cons.prems show ?thesis by simp
  next
    case (Suc m)
    have "cap < total sz (x # c) + needed"
      using Cons.prems(3) Suc total_drop_le [of sz m "x # c"] by simp
    moreover have "m = evict_count sz cap needed c"
      using Cons.prems Suc by (intro Cons.IH) (auto simp: drop_Cons' split: if_splits)
    ultimately show ?thesis using Suc by simp
  qed
qed simp

lemma spec_run_Cons:
  "spec_step sz cap p st = (out, st') \<Longrightarrow> spec_run sz cap ps st' = (outs, st'') \<Longrightarrow>
   spec_run sz cap (p # ps) st = (out # outs, st'')"
  by simp

lemma log_run_append:
  "log_run push pop settle restart ps s = Some (outs, s1) \<Longrightarrow>
   log_run push pop settle restart qs s1 = Some (outs', s2) \<Longrightarrow>
   log_run push pop settle restart (ps @ qs) s = Some (outs @ outs', s2)"
  by (induction ps arbitrary: s outs) (auto split: option.splits)

text \<open>While everything fits, nothing is evicted.\<close>

lemma spec_step_total:
  assumes "total sz (b @ c) + total sz (pushed [p]) \<le> cap" "spec_step sz cap p (b, c) = (out, b', c')"
  shows "total sz (b' @ c') \<le> total sz (b @ c) + total sz (pushed [p])"
  using assms by (cases p) (auto simp: evict_count_fits Let_def split: list.splits)

text \<open>Without a crash the items taken and those still queued are the items pushed, in order.\<close>

lemma spec_fifo:
  assumes "Crash \<notin> set ps" "total sz (b @ c) + total sz (pushed ps) \<le> cap"
    and "spec_run sz cap ps (b, c) = (outs, b', c')"
  shows "popped outs @ c' = c @ pushed ps"
  using assms
proof (induction ps arbitrary: b c outs)
  case (Cons p ps)
  obtain out b1 c1 where st: "spec_step sz cap p (b, c) = (out, b1, c1)" by (metis prod_cases3)
  obtain outs' where run: "spec_run sz cap ps (b1, c1) = (outs', b', c')" "outs = out # outs'"
    using Cons.prems(3) st by (auto split: prod.splits)
  have "pushed (p # ps) = pushed [p] @ pushed ps" by (cases p) auto
  then have le: "total sz (b1 @ c1) + total sz (pushed ps) \<le> cap"
    using spec_step_total [OF _ st] Cons.prems(2) by simp
  have "popped outs' @ c' = c1 @ pushed ps"
    using Cons.prems(1) by (intro Cons.IH [OF _ le run(1)]) simp
  then show ?case
    using st Cons.prems run by (cases p) (auto simp: evict_count_fits Let_def split: list.splits)
qed simp

text \<open>With crashes nothing is lost: an item is taken at least once or still queued.\<close>

lemma spec_at_least_once:
  assumes "total sz (b @ c) + total sz (pushed ps) \<le> cap"
    and "spec_run sz cap ps (b, c) = (outs, b', c')"
  shows "mset c + mset (pushed ps) \<subseteq># mset (popped outs) + mset c'"
  using assms
proof (induction ps arbitrary: b c outs)
  case (Cons p ps)
  obtain out b1 c1 where st: "spec_step sz cap p (b, c) = (out, b1, c1)" by (metis prod_cases3)
  obtain outs' where run: "spec_run sz cap ps (b1, c1) = (outs', b', c')" "outs = out # outs'"
    using Cons.prems(2) st by (auto split: prod.splits)
  have "pushed (p # ps) = pushed [p] @ pushed ps" by (cases p) auto
  then have le: "total sz (b1 @ c1) + total sz (pushed ps) \<le> cap"
    using spec_step_total [OF _ st] Cons.prems(1) by simp
  have IH: "mset c1 + mset (pushed ps) \<subseteq># mset (popped outs') + mset c'"
    by (rule Cons.IH [OF le run(1)])
  show ?case
  proof (cases p)
    case Crash
    with st have "c1 = b @ c" "out = Done" by simp_all
    with IH Crash run show ?thesis
      by (auto intro: subset_mset.order_trans [OF _ IH])
  qed (use st Cons.prems run IH in \<open>auto simp: evict_count_fits Let_def split: list.splits\<close>)
qed simp

subsection \<open>The contract\<close>

locale durable_log =
  fixes rep :: "'s \<Rightarrow> 'x list \<Rightarrow> 'x list \<Rightarrow> bool"
    and ok :: "'x \<Rightarrow> bool"
    and sz :: "'x \<Rightarrow> nat"
    and cap :: "'s \<Rightarrow> nat"
    and push :: "'x \<Rightarrow> 's \<Rightarrow> ('e + nat) \<times> 's"
    and pop :: "'s \<Rightarrow> ('e + 'x option) \<times> 's"
    and settle :: "'s \<Rightarrow> ('e + unit) \<times> 's"
    and restart :: "'s \<Rightarrow> ('e + unit) \<times> 's"
  assumes push: "rep s b c \<Longrightarrow> ok x \<Longrightarrow> n = evict_count sz (cap s) (sz x) c \<Longrightarrow>
      \<exists>s'. push x s = (Inr (total sz (take n c)), s') \<and> cap s' = cap s \<and>
        rep s' (if total sz c + sz x \<le> cap s then b else []) (drop n c @ [x])"
    and pop_Nil: "rep s b [] \<Longrightarrow> \<exists>s'. pop s = (Inr None, s') \<and> rep s' b [] \<and> cap s' = cap s"
    and pop_Cons: "rep s b (x # c) \<Longrightarrow> \<exists>s'. pop s = (Inr (Some x), s') \<and> rep s' (b @ [x]) c \<and> cap s' = cap s"
    and settle: "rep s b c \<Longrightarrow> \<exists>s'. settle s = (Inr (), s') \<and> rep s' [] c \<and> cap s' = cap s"
    and restart: "rep s b c \<Longrightarrow> \<exists>s'. restart s = (Inr (), s') \<and> rep s' [] (b @ c) \<and> cap s' = cap s"
begin

lemma step_refines:
  assumes "rep s b c" "list_all ok (pushed [p])"
  shows "\<exists>s' out b' c'. log_step push pop settle restart p s = Some (out, s') \<and>
    spec_step sz (cap s) p (b, c) = (out, b', c') \<and> rep s' b' c' \<and> cap s' = cap s"
proof (cases p)
  case (Push x)
  with push [OF assms(1), of x] assms(2) show ?thesis by (fastforce simp: Let_def)
next
  case Pop
  with pop_Nil [of s b] pop_Cons [of s b] assms show ?thesis by (cases c) fastforce+
next
  case Settle
  with settle [OF assms(1)] show ?thesis by fastforce
next
  case Crash
  with restart [OF assms(1)] show ?thesis by fastforce
qed

lemma run_refines:
  assumes "rep s b c" "list_all ok (pushed ps)"
  shows "\<exists>s' outs b' c'. log_run push pop settle restart ps s = Some (outs, s') \<and>
    spec_run sz (cap s) ps (b, c) = (outs, b', c') \<and> rep s' b' c' \<and> cap s' = cap s"
  using assms
proof (induction ps arbitrary: s b c)
  case (Cons p ps)
  have split: "pushed (p # ps) = pushed [p] @ pushed ps" by (cases p) auto
  then obtain s1 out b1 c1 where st: "log_step push pop settle restart p s = Some (out, s1)"
    "spec_step sz (cap s) p (b, c) = (out, b1, c1)" "rep s1 b1 c1" "cap s1 = cap s"
    using step_refines [OF Cons.prems(1), of p] Cons.prems(2) by auto
  from Cons.IH [OF st(3)] Cons.prems(2) split obtain s2 outs b2 c2 where
    "log_run push pop settle restart ps s1 = Some (outs, s2)"
    "spec_run sz (cap s1) ps (b1, c1) = (outs, b2, c2)" "rep s2 b2 c2" "cap s2 = cap s1"
    by auto
  with st show ?case by auto
qed auto

end

end
