(* ===== verification/Disk_Buffer.thy ===== *)
theory Disk_Buffer
  imports Tell_Prelude Log_Spec
begin

section \<open>The write-ahead log (\<open>buffer.rs\<close>)\<close>

text \<open>
  \<open>DiskBuffer\<close> over an explicit disk: the WAL file, the cursor file and the temporary file of
  a compaction. Every system call first takes the next entry of a fault schedule, so that an
  error, a short write or a crash can be placed at any call; an empty schedule is a disk that
  works. Positions are natural numbers (a \<open>u64\<close> file position does not wrap in practice);
  the frame length keeps its \<open>as u32\<close> cast.
\<close>

definition FRAME_HEADER_LEN :: nat where "FRAME_HEADER_LEN = 4"
definition MAX_FRAME_LEN :: nat where "MAX_FRAME_LEN = 256 * 1024 * 1024"
definition DEFAULT_BUFFER_MAX_BYTES :: nat where "DEFAULT_BUFFER_MAX_BYTES = 3 * 1024 * 1024 * 1024"

subsection \<open>The disk\<close>

datatype io_error = UnexpectedEof | InvalidData | InvalidInput | OtherIo

text \<open>\<open>Fail k\<close>: the call fails, after moving \<open>k\<close> bytes when it reads or writes.\<close>

datatype fault = Fine | Fail nat

datatype cursor_file = NoCursor | CursorAt nat | CursorGarbage

record disk =
  d_wal :: "bytes option"
  d_symlink :: bool
  d_cursor :: cursor_file
  d_tmp :: "bytes option"
  d_faults :: "fault list"

text \<open>
  The struct, with the disk it works on. An open handle on the WAL is a flag (\<open>wal_file\<close>) or
  its position (\<open>reader\<close>): handles are dropped before the file is replaced, so they always
  refer to the current file.
\<close>

record DiskBuffer =
  db_disk :: disk
  db_max_bytes :: nat
  db_write_pos :: nat
  db_read_pos :: nat
  db_persisted_pos :: nat
  db_wal_file :: bool
  db_reader :: "nat option"

type_synonym 'a io = "DiskBuffer \<Rightarrow> (io_error + 'a) \<times> DiskBuffer"

definition ret :: "'a \<Rightarrow> 'a io" where
  "ret x s = (Inr x, s)"

definition err :: "io_error \<Rightarrow> 'a io" where
  "err e s = (Inl e, s)"

text \<open>The operator \<open>?\<close>: stop at the first error, keep the state it left.\<close>

definition try_io :: "'a io \<Rightarrow> ('a \<Rightarrow> 'b io) \<Rightarrow> 'b io" where
  "try_io m f s = (case m s of (Inl e, s') \<Rightarrow> (Inl e, s') | (Inr x, s') \<Rightarrow> f x s')"

definition modify :: "(DiskBuffer \<Rightarrow> DiskBuffer) \<Rightarrow> unit io" where
  "modify f s = (Inr (), f s)"

definition on_disk :: "(disk \<Rightarrow> disk) \<Rightarrow> DiskBuffer \<Rightarrow> DiskBuffer" where
  "on_disk f s = s\<lparr>db_disk := f (db_disk s)\<rparr>"

definition wal_bytes :: "DiskBuffer \<Rightarrow> bytes" where
  "wal_bytes s = (case d_wal (db_disk s) of None \<Rightarrow> [] | Some b \<Rightarrow> b)"

definition next_fault :: "DiskBuffer \<Rightarrow> fault \<times> DiskBuffer" where
  "next_fault s =
    (case d_faults (db_disk s) of
       [] \<Rightarrow> (Fine, s)
     | f # fs \<Rightarrow> (f, on_disk (\<lambda>d. d\<lparr>d_faults := fs\<rparr>) s))"

text \<open>A system call that either has its effect or fails without one.\<close>

definition sys :: "(DiskBuffer \<Rightarrow> DiskBuffer) \<Rightarrow> unit io" where
  "sys f s =
    (case next_fault s of
       (Fine, s) \<Rightarrow> (Inr (), f s)
     | (Fail _, s) \<Rightarrow> (Inl OtherIo, s))"

text \<open>\<open>write_all\<close> on the append handle: a failing call leaves a prefix in the file.\<close>

definition append_wal :: "bytes \<Rightarrow> DiskBuffer \<Rightarrow> DiskBuffer" where
  "append_wal b s = on_disk (\<lambda>d. d\<lparr>d_wal := Some (wal_bytes s @ b)\<rparr>) s"

definition write_all :: "bytes \<Rightarrow> unit io" where
  "write_all b s =
    (case next_fault s of
       (Fine, s) \<Rightarrow> (Inr (), append_wal b s)
     | (Fail k, s) \<Rightarrow> (Inl OtherIo, append_wal (take k b) s))"

text \<open>\<open>read_exact\<close> of \<open>n\<close> bytes at a position of the WAL, and the position it leaves.\<close>

definition read_exact :: "nat \<Rightarrow> nat \<Rightarrow> DiskBuffer \<Rightarrow> (io_error + bytes) \<times> nat \<times> DiskBuffer" where
  "read_exact pos n s =
    (case next_fault s of
       (Fine, s) \<Rightarrow>
         (if pos + n \<le> length (wal_bytes s) then (Inr (take n (drop pos (wal_bytes s))), pos + n, s)
          else (Inl UnexpectedEof, max pos (length (wal_bytes s)), s))
     | (Fail k, s) \<Rightarrow> (Inl OtherIo, pos + min k n, s))"

definition open_append :: "unit io" where
  "open_append = sys (on_disk (\<lambda>d. d\<lparr>d_wal := Some (case d_wal d of None \<Rightarrow> [] | Some b \<Rightarrow> b)\<rparr>))"

text \<open>\<open>File::open\<close> and \<open>seek\<close>: fails when the file is missing.\<close>

definition open_reader :: "nat \<Rightarrow> nat io" where
  "open_reader offset = try_io (sys id) (\<lambda>_ s.
     if d_wal (db_disk s) = None then err OtherIo s else ret offset s)"

definition read_cursor :: "nat io" where
  "read_cursor = try_io (sys id) (\<lambda>_ s.
     case d_cursor (db_disk s) of
       NoCursor \<Rightarrow> ret 0 s
     | CursorAt n \<Rightarrow> ret n s
     | CursorGarbage \<Rightarrow> err InvalidData s)"

text \<open>Create, write and sync the temporary file, then the rename that makes it visible.\<close>

definition write_cursor :: "nat \<Rightarrow> unit io" where
  "write_cursor pos =
     try_io (sys id) (\<lambda>_. try_io (sys id) (\<lambda>_. try_io (sys id) (\<lambda>_.
       sys (on_disk (\<lambda>d. d\<lparr>d_cursor := CursorAt pos\<rparr>)))))"

text \<open>\<open>io::copy\<close> of the next \<open>len\<close> bytes into the temporary file: how many were there.\<close>

definition copy_tail :: "nat \<Rightarrow> nat \<Rightarrow> nat io" where
  "copy_tail pos len s =
    (let tail = take len (drop pos (wal_bytes s)) in
     case next_fault s of
       (Fine, s) \<Rightarrow> (Inr (length tail), on_disk (\<lambda>d. d\<lparr>d_tmp := Some tail\<rparr>) s)
     | (Fail k, s) \<Rightarrow> (Inl OtherIo, on_disk (\<lambda>d. d\<lparr>d_tmp := Some (take k tail)\<rparr>) s))"

definition rewrite_tail :: "nat \<Rightarrow> nat \<Rightarrow> unit io" where
  "rewrite_tail offset len =
     try_io (open_reader offset) (\<lambda>pos.
     try_io (sys (on_disk (\<lambda>d. d\<lparr>d_tmp := Some []\<rparr>))) (\<lambda>_.
     try_io (copy_tail pos len) (\<lambda>copied.
     if copied \<noteq> len then err UnexpectedEof else sys id)))"

subsection \<open>The operations\<close>

definition persist_cursor :: "unit io" where
  "persist_cursor s =
     try_io (write_cursor (db_read_pos s)) (\<lambda>_. modify (\<lambda>s. s\<lparr>db_persisted_pos := db_read_pos s\<rparr>)) s"

definition file_handle :: "unit io" where
  "file_handle s =
    (if db_wal_file s then ret () s
     else try_io open_append (\<lambda>_. modify (\<lambda>s. s\<lparr>db_wal_file := True\<rparr>)) s)"

definition reader_handle :: "nat io" where
  "reader_handle s =
    (case db_reader s of
       Some pos \<Rightarrow> ret pos s
     | None \<Rightarrow> try_io (open_reader (db_read_pos s)) (\<lambda>pos.
         try_io (modify (\<lambda>s. s\<lparr>db_reader := Some pos\<rparr>)) (\<lambda>_. ret pos)) s)"

text \<open>\<open>self.reader()?.read_exact(..)\<close>, which moves the reader kept in the struct.\<close>

definition reader_read :: "nat \<Rightarrow> bytes io" where
  "reader_read n = try_io reader_handle (\<lambda>pos s.
     case read_exact pos n s of (r, pos, s) \<Rightarrow> (r, s\<lparr>db_reader := Some pos\<rparr>))"

definition read_frame_header :: "bytes \<Rightarrow> nat" where
  "read_frame_header header = unat (le_u32 header)"

definition read_header :: "nat option io" where
  "read_header s =
    (case reader_read FRAME_HEADER_LEN s of
       (Inr h, s) \<Rightarrow> ret (Some (read_frame_header h)) s
     | (Inl e, s) \<Rightarrow> if e = UnexpectedEof then ret None s else err e s)"

definition reset_to_end :: "unit io" where
  "reset_to_end = try_io (modify (\<lambda>s. s\<lparr>db_read_pos := db_write_pos s, db_reader := None\<rparr>)) (\<lambda>_. persist_cursor)"

definition drain_next :: "bytes option io" where
  "drain_next s =
    (if db_write_pos s \<le> db_read_pos s then ret None s
     else let remaining = db_write_pos s - db_read_pos s in
       try_io read_header (\<lambda>h.
         case h of
           None \<Rightarrow> try_io reset_to_end (\<lambda>_. ret None)
         | Some frame_len \<Rightarrow>
             if MAX_FRAME_LEN < frame_len then try_io reset_to_end (\<lambda>_. err InvalidData)
             else if remaining < frame_len + FRAME_HEADER_LEN then try_io reset_to_end (\<lambda>_. ret None)
             else (\<lambda>s. case reader_read frame_len s of
                 (Inr frame, s) \<Rightarrow>
                   ret (Some frame) (s\<lparr>db_read_pos := db_read_pos s + (FRAME_HEADER_LEN + frame_len)\<rparr>)
               | (Inl e, s) \<Rightarrow>
                   if e = UnexpectedEof then try_io reset_to_end (\<lambda>_. ret None) s else err e s)) s)"

definition truncate_all :: "unit io" where
  "truncate_all =
     try_io (modify (\<lambda>s. s\<lparr>db_wal_file := False, db_reader := None\<rparr>)) (\<lambda>_.
     try_io (sys (on_disk (\<lambda>d. d\<lparr>d_wal := Some []\<rparr>))) (\<lambda>_.
     try_io (modify (\<lambda>s. s\<lparr>db_wal_file := True, db_write_pos := 0, db_read_pos := 0\<rparr>)) (\<lambda>_.
     persist_cursor)))"

definition compact :: "unit io" where
  "compact s =
    (if db_read_pos s = 0 then ret () s
     else let remaining = db_write_pos s - db_read_pos s in
       if remaining = 0 then truncate_all s
       else
         try_io (rewrite_tail (db_read_pos s) remaining) (\<lambda>_.
         try_io (modify (\<lambda>s. s\<lparr>db_wal_file := False, db_reader := None\<rparr>)) (\<lambda>_.
         try_io (sys (on_disk (\<lambda>d. d\<lparr>d_wal := d_tmp d, d_tmp := None\<rparr>))) (\<lambda>_.
         try_io open_append (\<lambda>_.
         try_io (modify (\<lambda>s. s\<lparr>db_wal_file := True, db_write_pos := remaining, db_read_pos := 0\<rparr>)) (\<lambda>_.
         persist_cursor))))) s)"

text \<open>
  \<open>read_pos as f64 / write_pos as f64 > 0.5\<close>, which is exact for positions below \<open>2 ^ 53\<close>:
  the quotient differs from a half by more than half the spacing of the doubles there.
\<close>

definition maybe_compact :: "unit io" where
  "maybe_compact s =
    (if db_write_pos s = 0 then ret () s
     else if db_write_pos s < 2 * db_read_pos s then compact s
     else ret () s)"

function evict_loop :: "nat \<Rightarrow> nat \<Rightarrow> nat \<Rightarrow> nat io" where
  "evict_loop pos must_free freed s =
    (if freed < must_free then
       (case read_exact pos FRAME_HEADER_LEN s of
          (Inr h, pos, s) \<Rightarrow>
            if read_frame_header h \<le> MAX_FRAME_LEN
            then (case sys id s of
                    (Inl e, s) \<Rightarrow> err e s
                  | (Inr _, s) \<Rightarrow>
                      evict_loop (pos + read_frame_header h) must_free
                        (freed + (FRAME_HEADER_LEN + read_frame_header h)) s)
            else ret freed s
        | (Inl e, _, s) \<Rightarrow> if e = UnexpectedEof then ret freed s else err e s)
     else ret freed s)"
  by pat_completeness auto
termination
  by (relation "measure (\<lambda>(_, must_free, freed, _). must_free - freed)") (auto simp: FRAME_HEADER_LEN_def)

declare evict_loop.simps [simp del]

definition evict_if_needed :: "nat \<Rightarrow> nat io" where
  "evict_if_needed needed s =
    (let current_size = db_write_pos s - db_read_pos s in
     if current_size + needed \<le> db_max_bytes s then ret 0 s
     else let must_free = (current_size + needed) - db_max_bytes s in
       try_io (open_reader (db_read_pos s)) (\<lambda>pos.
       try_io (evict_loop pos must_free 0) (\<lambda>freed.
       try_io (modify (\<lambda>s. s\<lparr>db_read_pos := min (db_read_pos s + freed) (db_write_pos s), db_reader := None\<rparr>)) (\<lambda>_.
       try_io persist_cursor (\<lambda>_.
       try_io maybe_compact (\<lambda>_. ret freed))))) s)"

definition append :: "bytes \<Rightarrow> nat io" where
  "append batch =
    (let frame_size = FRAME_HEADER_LEN + length batch in
     try_io (evict_if_needed frame_size) (\<lambda>evicted.
     try_io file_handle (\<lambda>_.
     try_io (write_all (u32_le (as_u32 (length batch)))) (\<lambda>_.
     try_io (write_all batch) (\<lambda>_.
     try_io (sys id) (\<lambda>_.
     try_io (modify (\<lambda>s. s\<lparr>db_write_pos := db_write_pos s + frame_size\<rparr>)) (\<lambda>_.
     ret evicted)))))))"

definition commit :: "unit io" where
  "commit s =
    (if db_read_pos s \<noteq> db_persisted_pos s then try_io persist_cursor (\<lambda>_. maybe_compact) s
     else maybe_compact s)"

definition is_empty :: "DiskBuffer \<Rightarrow> bool" where
  "is_empty s \<longleftrightarrow> db_write_pos s \<le> db_read_pos s"

definition buffered_bytes :: "DiskBuffer \<Rightarrow> nat" where
  "buffered_bytes s = db_write_pos s - db_read_pos s"

text \<open>The destructor: the cursor is written best-effort, errors ignored; what stays is the disk.\<close>

definition drop_buffer :: "DiskBuffer \<Rightarrow> disk" where
  "drop_buffer s =
    (if db_read_pos s \<noteq> db_persisted_pos s then db_disk (snd (write_cursor (db_read_pos s) s))
     else db_disk s)"

text \<open>
  \<open>open\<close> on a disk: directory and permissions, the symlink check of a file that exists, the
  append handle, the file length as write position and the stored cursor, clamped, as read
  position. The struct is built only at the end; until then the record holds the disk and
  placeholder positions. When the clamped cursor cannot be written, the struct is dropped on the
  way out, and its destructor tries once more.
\<close>

definition clamp_cursor :: "unit io" where
  "clamp_cursor s =
    (if db_write_pos s < db_read_pos s
     then (case persist_cursor (s\<lparr>db_read_pos := db_write_pos s\<rparr>) of
             (Inr _, s) \<Rightarrow> ret () s
           | (Inl e, s) \<Rightarrow> err e (on_disk (\<lambda>_. drop_buffer s) s))
     else ret () s)"

definition open_buffer :: "nat \<Rightarrow> disk \<Rightarrow> (io_error + unit) \<times> DiskBuffer" where
  "open_buffer max_bytes d =
    (let s = \<lparr>db_disk = d, db_max_bytes = max_bytes, db_write_pos = 0, db_read_pos = 0,
              db_persisted_pos = 0, db_wal_file = False, db_reader = None\<rparr> in
     try_io (sys id) (\<lambda>_.
     try_io (sys id) (\<lambda>_.
     try_io (\<lambda>s. if d_wal (db_disk s) = None then ret () s
             else try_io (sys id) (\<lambda>_ s. if d_symlink (db_disk s) then err InvalidInput s else ret () s) s) (\<lambda>_.
     try_io open_append (\<lambda>_.
     try_io (sys id) (\<lambda>_.
     try_io (sys id) (\<lambda>_.
     try_io (modify (\<lambda>s. s\<lparr>db_write_pos := length (wal_bytes s), db_wal_file := True\<rparr>)) (\<lambda>_.
     try_io read_cursor (\<lambda>cursor.
     try_io (modify (\<lambda>s. s\<lparr>db_read_pos := cursor, db_persisted_pos := cursor\<rparr>)) (\<lambda>_. clamp_cursor))))))))) s)"

subsection \<open>Running on a disk that works\<close>

named_theorems io_simps

definition healthy :: "DiskBuffer \<Rightarrow> bool" where
  "healthy s \<longleftrightarrow> d_faults (db_disk s) = []"

lemma try_io_simps [io_simps]:
  "m s = (Inr x, s') \<Longrightarrow> try_io m f s = f x s'"
  "m s = (Inl e, s') \<Longrightarrow> try_io m f s = (Inl e, s')"
  by (simp_all add: try_io_def)

lemma ret_simps [io_simps]:
  "ret x s = (Inr x, s)" "err e s = (Inl e, s)" "modify f s = (Inr (), f s)"
  by (simp_all add: ret_def err_def modify_def)

lemma healthy_calls [io_simps]:
  assumes "healthy s"
  shows "sys f s = (Inr (), f s)" "write_all b s = (Inr (), append_wal b s)"
    "read_exact pos n s =
      (if pos + n \<le> length (wal_bytes s) then (Inr (take n (drop pos (wal_bytes s))), pos + n, s)
       else (Inl UnexpectedEof, max pos (length (wal_bytes s)), s))"
  using assms by (simp_all add: healthy_def sys_def next_fault_def write_all_def read_exact_def)

lemma healthy_simps [simp]:
  "healthy (append_wal b s) = healthy s"
  "healthy (s\<lparr>db_max_bytes := a\<rparr>) = healthy s" "healthy (s\<lparr>db_write_pos := a\<rparr>) = healthy s"
  "healthy (s\<lparr>db_read_pos := a\<rparr>) = healthy s" "healthy (s\<lparr>db_persisted_pos := a\<rparr>) = healthy s"
  "healthy (s\<lparr>db_wal_file := h\<rparr>) = healthy s" "healthy (s\<lparr>db_reader := r\<rparr>) = healthy s"
  "healthy (s\<lparr>db_disk := d\<rparr>) = (d_faults d = [])"
  "healthy (on_disk (\<lambda>d. d\<lparr>d_cursor := c\<rparr>) s) = healthy s"
  "healthy (on_disk (\<lambda>d. d\<lparr>d_tmp := t\<rparr>) s) = healthy s"
  by (simp_all add: healthy_def append_wal_def on_disk_def)

lemma healthy_faults [io_simps]: "healthy s \<Longrightarrow> d_faults (db_disk s) = []"
  by (simp add: healthy_def)

lemma wal_bytes_simps [simp]:
  "wal_bytes (s\<lparr>db_write_pos := a\<rparr>) = wal_bytes s" "wal_bytes (s\<lparr>db_read_pos := a\<rparr>) = wal_bytes s"
  "wal_bytes (s\<lparr>db_persisted_pos := a\<rparr>) = wal_bytes s" "wal_bytes (s\<lparr>db_wal_file := h\<rparr>) = wal_bytes s"
  "wal_bytes (s\<lparr>db_reader := r\<rparr>) = wal_bytes s"
  "wal_bytes (s\<lparr>db_disk := d\<rparr>) = (case d_wal d of None \<Rightarrow> [] | Some b \<Rightarrow> b)"
  by (simp_all add: wal_bytes_def)

lemma persist_cursor_healthy [io_simps]:
  "healthy s \<Longrightarrow> persist_cursor s = (Inr (), s\<lparr>db_persisted_pos := db_read_pos s,
     db_disk := (db_disk s)\<lparr>d_cursor := CursorAt (db_read_pos s)\<rparr>\<rparr>)"
  by (simp add: persist_cursor_def write_cursor_def io_simps on_disk_def)

lemma rewrite_tail_healthy [io_simps]:
  assumes "healthy s" "d_wal (db_disk s) = Some w" "offset + len \<le> length w"
  shows "rewrite_tail offset len s = (Inr (), on_disk (\<lambda>d. d\<lparr>d_tmp := Some (take len (drop offset w))\<rparr>) s)"
  using assms
  by (simp add: rewrite_tail_def open_reader_def copy_tail_def next_fault_def on_disk_def io_simps
      wal_bytes_def healthy_def [symmetric])

subsection \<open>Frames and the representation invariant\<close>

definition frame :: "bytes \<Rightarrow> bytes" where
  "frame b = u32_le (as_u32 (length b)) @ b"

definition wal_of :: "bytes list \<Rightarrow> bytes" where
  "wal_of xs = concat (map frame xs)"

definition frame_ok :: "bytes \<Rightarrow> bool" where
  "frame_ok b \<longleftrightarrow> length b \<le> MAX_FRAME_LEN"

definition frame_size :: "bytes \<Rightarrow> nat" where
  "frame_size b = FRAME_HEADER_LEN + length b"

lemma wal_of_simps [simp]:
  "wal_of [] = []" "wal_of (x # xs) = frame x @ wal_of xs" "wal_of (xs @ ys) = wal_of xs @ wal_of ys"
  by (simp_all add: wal_of_def)

lemma length_frame [simp]: "length (frame b) = 4 + length b"
  by (simp add: frame_def)

lemma frame_size_eq: "frame_size b = 4 + length b"
  by (simp add: frame_size_def FRAME_HEADER_LEN_def)

lemma length_wal_of: "length (wal_of xs) = total frame_size xs"
  by (induction xs) (simp_all add: frame_size_eq)

lemma wal_of_Nil_iff: "length (wal_of xs) = 0 \<longleftrightarrow> xs = []"
  by (cases xs) (simp_all add: frame_def)

lemma header_of_frame [io_simps]:
  "frame_ok b \<Longrightarrow> read_frame_header (u32_le (as_u32 (length b))) = length b"
  by (simp add: read_frame_header_def frame_ok_def MAX_FRAME_LEN_def)

text \<open>
  The WAL file is the bytes \<open>a\<close> consumed and recorded as such, whatever they are, the frames
  \<open>b\<close> consumed since the cursor was last written, and the frames \<open>c\<close> still to be sent.
\<close>

definition db_rep :: "DiskBuffer \<Rightarrow> bytes \<Rightarrow> bytes list \<Rightarrow> bytes list \<Rightarrow> bool" where
  "db_rep s a b c \<longleftrightarrow>
     healthy s \<and> \<not> d_symlink (db_disk s) \<and> d_wal (db_disk s) = Some (a @ wal_of (b @ c)) \<and>
     list_all frame_ok (b @ c) \<and>
     db_persisted_pos s = length a \<and> db_read_pos s = length (a @ wal_of b) \<and>
     db_write_pos s = length (a @ wal_of (b @ c)) \<and>
     (db_reader s = None \<or> db_reader s = Some (db_read_pos s)) \<and>
     (d_cursor (db_disk s) = CursorAt (db_persisted_pos s) \<or>
      d_cursor (db_disk s) = NoCursor \<and> db_persisted_pos s = 0)"

lemma db_rep_wal: "db_rep s a b c \<Longrightarrow> wal_bytes s = a @ wal_of b @ wal_of c"
  by (simp add: db_rep_def wal_bytes_def)

lemma db_rep_persist:
  "db_rep s a b c \<Longrightarrow> db_rep (s\<lparr>db_persisted_pos := db_read_pos s,
     db_disk := (db_disk s)\<lparr>d_cursor := CursorAt (db_read_pos s)\<rparr>\<rparr>) (a @ wal_of b) [] c"
  by (auto simp: db_rep_def healthy_def)

lemma compact_rep:
  assumes "db_rep s a [] c"
  shows "\<exists>s' a'. compact s = (Inr (), s') \<and> db_rep s' a' [] c \<and> db_max_bytes s' = db_max_bytes s"
proof -
  have h: "healthy s" and rp: "db_read_pos s = length a"
    and wp: "db_write_pos s = length a + length (wal_of c)"
    and w: "d_wal (db_disk s) = Some (a @ wal_of c)" "list_all frame_ok c" "\<not> d_symlink (db_disk s)"
    using assms by (simp_all add: db_rep_def)
  consider "a = []" | "a \<noteq> []" "c = []" | "a \<noteq> []" "c \<noteq> []" by blast
  then show ?thesis
  proof cases
    case 1
    with assms rp show ?thesis by (auto simp: compact_def io_simps)
  next
    case 2
    with rp have "db_read_pos s \<noteq> 0" by simp
    with 2 h rp wp w(3) have "\<exists>s'. compact s = (Inr (), s') \<and> db_rep s' [] [] c \<and> db_max_bytes s' = db_max_bytes s"
      by (auto simp: compact_def truncate_all_def io_simps on_disk_def db_rep_def)
    then show ?thesis by blast
  next
    case 3
    with rp wal_of_Nil_iff [of c] have "db_read_pos s \<noteq> 0" "wal_of c \<noteq> []" by auto
    with h rp wp w have "\<exists>s'. compact s = (Inr (), s') \<and> db_rep s' [] [] c \<and> db_max_bytes s' = db_max_bytes s"
      by (auto simp: compact_def open_append_def io_simps on_disk_def db_rep_def wal_bytes_def)
    then show ?thesis by blast
  qed
qed

lemma maybe_compact_rep:
  assumes "db_rep s a [] c"
  shows "\<exists>s' a'. maybe_compact s = (Inr (), s') \<and> db_rep s' a' [] c \<and> db_max_bytes s' = db_max_bytes s"
  using compact_rep [OF assms] assms by (auto simp: maybe_compact_def io_simps)

lemma commit_rep:
  assumes "db_rep s a b c"
  shows "\<exists>s' a'. commit s = (Inr (), s') \<and> db_rep s' a' [] c \<and> db_max_bytes s' = db_max_bytes s"
proof (cases "db_read_pos s = db_persisted_pos s")
  case True
  with assms have "length (wal_of b) = 0" unfolding db_rep_def by auto
  then have "b = []" by (simp only: wal_of_Nil_iff)
  with True maybe_compact_rep assms show ?thesis by (auto simp: commit_def)
next
  case False
  have "healthy s" using assms by (simp add: db_rep_def)
  with False maybe_compact_rep [OF db_rep_persist [OF assms]] show ?thesis
    by (simp add: commit_def io_simps)
qed

subsection \<open>Draining\<close>

lemma wal_bytes_next:
  assumes "db_rep s a b (x # c)"
  shows "healthy s" "frame_ok x"
    "wal_bytes s = (a @ wal_of b) @ u32_le (as_u32 (length x)) @ x @ wal_of c"
    "db_read_pos s = length (a @ wal_of b)"
    "db_write_pos s = db_read_pos s + (4 + length x + length (wal_of c))"
    "db_reader s = None \<or> db_reader s = Some (db_read_pos s)" "d_wal (db_disk s) \<noteq> None"
  using assms by (auto simp: db_rep_def wal_bytes_def frame_def)

lemma reader_read_healthy:
  assumes "healthy s" "d_wal (db_disk s) \<noteq> None" "db_reader s = None \<or> db_reader s = Some (db_read_pos s)"
    and "wal_bytes s = pre @ x @ post" "db_read_pos s = length pre" "n = length x"
  shows "reader_read n s = (Inr x, s\<lparr>db_reader := Some (db_read_pos s + n)\<rparr>)"
  using assms by (auto simp: reader_read_def reader_handle_def open_reader_def io_simps)

lemma reader_read_open:
  assumes "healthy s" "db_reader s = Some (length pre)" "wal_bytes s = pre @ x @ post" "n = length x"
  shows "reader_read n s = (Inr x, s\<lparr>db_reader := Some (length pre + n)\<rparr>)"
  using assms by (auto simp: reader_read_def reader_handle_def io_simps)

lemma drain_next_frame:
  assumes "healthy s" "d_wal (db_disk s) \<noteq> None" "db_reader s = None \<or> db_reader s = Some (db_read_pos s)"
    and "wal_bytes s = pre @ frame x @ post" "db_read_pos s = length pre" "frame_ok x"
    and "db_read_pos s + frame_size x \<le> db_write_pos s"
  shows "drain_next s = (Inr (Some x), s\<lparr>db_read_pos := db_read_pos s + frame_size x,
    db_reader := Some (db_read_pos s + frame_size x)\<rparr>)"
proof -
  let ?h = "u32_le (as_u32 (length x))"
  let ?s1 = "s\<lparr>db_reader := Some (db_read_pos s + 4)\<rparr>"
  have "reader_read 4 s = (Inr ?h, ?s1)"
    by (rule reader_read_healthy [where pre = pre and post = "x @ post"]) (use assms in \<open>simp_all add: frame_def\<close>)
  then have header: "read_header s = (Inr (Some (length x)), ?s1)"
    using assms(6) by (simp add: read_header_def FRAME_HEADER_LEN_def io_simps)
  have body: "reader_read (length x) ?s1 = (Inr x, ?s1\<lparr>db_reader := Some (length (pre @ ?h) + length x)\<rparr>)"
    by (rule reader_read_open [where post = post]) (use assms in \<open>simp_all add: frame_def\<close>)
  show ?thesis
    using assms(5-7) body
    by (simp add: drain_next_def io_simps header Let_def FRAME_HEADER_LEN_def frame_ok_def frame_size_eq)
qed

lemma drain_next_Cons:
  assumes "db_rep s a b (x # c)"
  shows "\<exists>s'. drain_next s = (Inr (Some x), s') \<and> db_rep s' a (b @ [x]) c \<and> db_max_bytes s' = db_max_bytes s"
proof -
  note n = wal_bytes_next [OF assms]
  have "drain_next s = (Inr (Some x), s\<lparr>db_read_pos := db_read_pos s + frame_size x,
      db_reader := Some (db_read_pos s + frame_size x)\<rparr>)"
    by (rule drain_next_frame [where pre = "a @ wal_of b" and post = "wal_of c"])
      (use n in \<open>simp_all add: frame_def frame_size_eq\<close>)
  moreover have "db_rep (s\<lparr>db_read_pos := db_read_pos s + frame_size x,
      db_reader := Some (db_read_pos s + frame_size x)\<rparr>) a (b @ [x]) c"
    using assms by (auto simp: db_rep_def frame_size_eq)
  ultimately show ?thesis by simp
qed

lemma drain_next_Nil: "db_rep s a b [] \<Longrightarrow> drain_next s = (Inr None, s)"
  by (simp add: drain_next_def db_rep_def io_simps)

subsection \<open>Appending and evicting\<close>

lemma evict_loop_frames:
  assumes "healthy s" "wal_bytes s = pre @ wal_of q" "pos = length pre" "list_all frame_ok q"
  shows "\<exists>n. evict_loop pos must_free freed s = (Inr (freed + length (wal_of (take n q))), s) \<and> n \<le> length q \<and>
     (n = length q \<or> must_free \<le> freed + length (wal_of (take n q))) \<and>
     (0 < n \<longrightarrow> freed + length (wal_of (take (n - 1) q)) < must_free)"
  using assms
proof (induction q arbitrary: pre pos freed)
  case Nil
  then show ?case
    by (auto simp: evict_loop.simps io_simps FRAME_HEADER_LEN_def)
next
  case (Cons x q)
  show ?case
  proof (cases "freed < must_free")
    case False
    then show ?thesis by (intro exI [of _ 0]) (simp add: evict_loop.simps io_simps)
  next
    case True
    from Cons.IH [of "pre @ frame x" "length (pre @ frame x)" "freed + (4 + length x)"] Cons.prems
    obtain n where n: "evict_loop (length (pre @ frame x)) must_free (freed + (4 + length x)) s =
        (Inr (freed + (4 + length x) + length (wal_of (take n q))), s)" "n \<le> length q"
      "n = length q \<or> must_free \<le> freed + (4 + length x) + length (wal_of (take n q))"
      "0 < n \<longrightarrow> freed + (4 + length x) + length (wal_of (take (n - 1) q)) < must_free"
      by auto
    have "take 4 (drop (length pre) (wal_bytes s)) = u32_le (as_u32 (length x))"
      using Cons.prems by (simp add: frame_def)
    then have "evict_loop pos must_free freed s =
        evict_loop (length (pre @ frame x)) must_free (freed + (4 + length x)) s"
      using True Cons.prems
      by (subst evict_loop.simps) (simp add: io_simps FRAME_HEADER_LEN_def frame_ok_def [symmetric]
          read_frame_header_def frame_ok_def MAX_FRAME_LEN_def add.assoc)
    with n True show ?thesis
      by (intro exI [of _ "Suc n"]) (cases n, auto simp: add.assoc)
  qed
qed

text \<open>
  Eviction drops the oldest unsent frames, as few as make room for \<open>needed\<close> bytes.
\<close>

definition evicts :: "nat \<Rightarrow> nat \<Rightarrow> bytes list \<Rightarrow> nat \<Rightarrow> bool" where
  "evicts cap needed q n \<longleftrightarrow> n \<le> length q \<and>
     (n = length q \<or> length (wal_of (drop n q)) + needed \<le> cap) \<and>
     (0 < n \<longrightarrow> cap < length (wal_of (drop (n - 1) q)) + needed)"

lemma length_wal_of_take: "length (wal_of (take n q)) + length (wal_of (drop n q)) = length (wal_of q)"
  by (metis append_take_drop_id length_append wal_of_simps(3))

lemma evict_rep:
  assumes "db_rep s a b c"
  shows "\<exists>n s' a'. evict_if_needed needed s = (Inr (length (wal_of (take n c))), s') \<and>
     db_rep s' a' (if length (wal_of c) + needed \<le> db_max_bytes s then b else []) (drop n c) \<and> db_max_bytes s' = db_max_bytes s \<and> evicts (db_max_bytes s) needed c n"
proof (cases "length (wal_of c) + needed \<le> db_max_bytes s")
  case True
  then have "evicts (db_max_bytes s) needed c 0" by (simp add: evicts_def)
  moreover have "evict_if_needed needed s = (Inr (length (wal_of (take 0 c))), s)"
    using True assms by (simp add: evict_if_needed_def db_rep_def io_simps)
  moreover have "db_rep s a (if length (wal_of c) + needed \<le> db_max_bytes s then b else []) (drop 0 c)"
    using True assms by simp
  ultimately show ?thesis by blast
next
  case False
  let ?must = "length (wal_of c) + needed - db_max_bytes s"
  have h: "healthy s" and pos: "db_read_pos s = length (a @ wal_of b)"
    and size: "db_write_pos s - db_read_pos s = length (wal_of c)" and wal: "d_wal (db_disk s) \<noteq> None"
    and ok: "list_all frame_ok c"
    using assms by (simp_all add: db_rep_def)
  obtain n where n: "evict_loop (db_read_pos s) ?must 0 s = (Inr (0 + length (wal_of (take n c))), s)"
    "n \<le> length c" "n = length c \<or> ?must \<le> 0 + length (wal_of (take n c))"
    "0 < n \<longrightarrow> 0 + length (wal_of (take (n - 1) c)) < ?must"
    using evict_loop_frames [OF h _ pos ok, of ?must 0] db_rep_wal [OF assms] by auto
  have ev: "evicts (db_max_bytes s) needed c n"
    using n(2-4) length_wal_of_take [of n c] length_wal_of_take [of "n - 1" c] False
    by (auto simp: evicts_def)
  define s1 where "s1 = s\<lparr>db_read_pos := length (a @ wal_of (b @ take n c)), db_reader := None\<rparr>"
  have "db_read_pos s + length (wal_of (take n c)) \<le> db_write_pos s"
    using assms length_wal_of_take [of n c] by (simp add: db_rep_def)
  then have min: "min (db_read_pos s + length (wal_of (take n c))) (db_write_pos s) = length (a @ wal_of (b @ take n c))"
    using pos by simp
  have "db_rep s1 a (b @ take n c) (drop n c)"
  proof -
    have "wal_of c = wal_of (take n c) @ wal_of (drop n c)"
      by (metis append_take_drop_id wal_of_simps(3))
    moreover have "list_all frame_ok (take n c) \<and> list_all frame_ok (drop n c)"
      using ok by (metis append_take_drop_id list_all_append)
    ultimately show ?thesis
      using assms by (auto simp: db_rep_def s1_def healthy_def)
  qed
  from maybe_compact_rep [OF db_rep_persist [OF this]] obtain s2 a2 where
    s2: "maybe_compact (s1\<lparr>db_persisted_pos := db_read_pos s1,
      db_disk := (db_disk s1)\<lparr>d_cursor := CursorAt (db_read_pos s1)\<rparr>\<rparr>) = (Inr (), s2)"
    "db_rep s2 a2 [] (drop n c)" "db_max_bytes s2 = db_max_bytes s"
    by (auto simp: s1_def)
  have "persist_cursor s1 = (Inr (), s1\<lparr>db_persisted_pos := db_read_pos s1,
      db_disk := (db_disk s1)\<lparr>d_cursor := CursorAt (db_read_pos s1)\<rparr>\<rparr>)"
    by (rule persist_cursor_healthy) (use h in \<open>simp add: s1_def\<close>)
  then have tail: "try_io persist_cursor (\<lambda>_. try_io maybe_compact (\<lambda>_. ret v)) s1 = (Inr v, s2)" for v :: nat
    using s2(1) by (simp add: try_io_def ret_def)
  have "modify (\<lambda>s. s\<lparr>db_read_pos := min (db_read_pos s + length (wal_of (take n c))) (db_write_pos s),
      db_reader := None\<rparr>) s = (Inr (), s1)"
    unfolding modify_def min s1_def by simp
  then have "evict_if_needed needed s = (Inr (length (wal_of (take n c))), s2)"
    using False h wal n(1) unfolding evict_if_needed_def Let_def size
    by (simp add: try_io_simps open_reader_def healthy_calls ret_simps tail)
  with s2 ev False show ?thesis by auto
qed

lemma append_rep:
  assumes "db_rep s a b c" "frame_ok x"
  shows "\<exists>n s' a'. append x s = (Inr (length (wal_of (take n c))), s') \<and>
     db_rep s' a' (if length (wal_of c) + frame_size x \<le> db_max_bytes s then b else []) (drop n c @ [x]) \<and>
     db_max_bytes s' = db_max_bytes s \<and> evicts (db_max_bytes s) (frame_size x) c n"
proof -
  let ?b = "if length (wal_of c) + frame_size x \<le> db_max_bytes s then b else []"
  obtain n s1 a' where e: "evict_if_needed (frame_size x) s = (Inr (length (wal_of (take n c))), s1)"
    "db_rep s1 a' ?b (drop n c)" "db_max_bytes s1 = db_max_bytes s"
    "evicts (db_max_bytes s) (frame_size x) c n"
    using evict_rep [OF assms(1)] by blast
  have h: "healthy s1" and w: "d_wal (db_disk s1) = Some (a' @ wal_of (?b @ drop n c))"
    using e(2) by (simp_all add: db_rep_def)
  define s2 where "s2 = s1\<lparr>db_wal_file := True\<rparr>"
  have f: "file_handle s1 = (Inr (), s2)"
    using h w by (cases "db_wal_file s1") (simp_all add: file_handle_def open_append_def io_simps on_disk_def s2_def)
  have "append x s = (Inr (length (wal_of (take n c))),
      (append_wal x (append_wal (u32_le (as_u32 (length x))) s2))\<lparr>db_write_pos := db_write_pos s1 + frame_size x\<rparr>)"
    using h e(1) unfolding append_def Let_def frame_size_def [symmetric]
    by (simp add: io_simps f) (simp add: io_simps s2_def append_wal_def on_disk_def)
  moreover have "db_rep ((append_wal x (append_wal (u32_le (as_u32 (length x))) s2))\<lparr>db_write_pos := db_write_pos s1 + frame_size x\<rparr>)
      a' ?b (drop n c @ [x])"
    using e(2) assms(2) by (auto simp: db_rep_def split del: if_split simp: append_wal_def on_disk_def wal_bytes_def s2_def frame_def frame_size_eq healthy_def)
  moreover have "db_max_bytes ((append_wal x (append_wal (u32_le (as_u32 (length x))) s2))
      \<lparr>db_write_pos := db_write_pos s1 + frame_size x\<rparr>) = db_max_bytes s"
    using e(3) by (simp add: s2_def append_wal_def on_disk_def)
  ultimately show ?thesis using e(4) by blast
qed

subsection \<open>Opening\<close>

definition reopen :: "unit io" where
  "reopen s = open_buffer (db_max_bytes s) (db_disk s)"

lemma open_buffer_rep:
  assumes "d_faults d = []" "d_wal d = Some (a @ wal_of c)" "\<not> d_symlink d"
    and "d_cursor d = CursorAt (length a) \<or> d_cursor d = NoCursor \<and> a = []" "list_all frame_ok c"
  shows "\<exists>s. open_buffer m d = (Inr (), s) \<and> db_rep s a [] c \<and> db_max_bytes s = m"
  using assms
  by (auto simp: open_buffer_def clamp_cursor_def Let_def io_simps open_append_def read_cursor_def on_disk_def db_rep_def
      healthy_def wal_bytes_def)

lemma reopen_rep:
  assumes "db_rep s a b c"
  shows "\<exists>s'. reopen s = (Inr (), s') \<and> db_rep s' a [] (b @ c) \<and> db_max_bytes s' = db_max_bytes s"
  unfolding reopen_def by (rule open_buffer_rep) (use assms in \<open>auto simp: db_rep_def healthy_def\<close>)

subsection \<open>The WAL is a durable log\<close>

interpretation wal: durable_log "\<lambda>s b c. \<exists>a. db_rep s a b c" frame_ok frame_size db_max_bytes
  append drain_next commit reopen
proof
  fix s b c x n
  assume "\<exists>a. db_rep s a b c" "frame_ok x" and n: "n = evict_count frame_size (db_max_bytes s) (frame_size x) c"
  then obtain m s' a' where m: "append x s = (Inr (length (wal_of (take m c))), s')"
    "db_rep s' a' (if length (wal_of c) + frame_size x \<le> db_max_bytes s then b else []) (drop m c @ [x])"
    "db_max_bytes s' = db_max_bytes s" "evicts (db_max_bytes s) (frame_size x) c m"
    using append_rep by blast
  have "m = n"
    using m(4) unfolding n evicts_def length_wal_of by (intro evict_count_unique) auto
  with m show "\<exists>s'. append x s = (Inr (total frame_size (take n c)), s') \<and> db_max_bytes s' = db_max_bytes s \<and>
      (\<exists>a. db_rep s' a (if total frame_size c + frame_size x \<le> db_max_bytes s then b else []) (drop n c @ [x]))"
    by (auto simp: length_wal_of)
next
  show "\<exists>s'. drain_next s = (Inr None, s') \<and> (\<exists>a. db_rep s' a b []) \<and> db_max_bytes s' = db_max_bytes s"
    if "\<exists>a. db_rep s a b []" for s b
    using that drain_next_Nil by blast
  show "\<exists>s'. drain_next s = (Inr (Some x), s') \<and> (\<exists>a. db_rep s' a (b @ [x]) c) \<and> db_max_bytes s' = db_max_bytes s"
    if "\<exists>a. db_rep s a b (x # c)" for s b x c
    using that drain_next_Cons by blast
  show "\<exists>s'. commit s = (Inr (), s') \<and> (\<exists>a. db_rep s' a [] c) \<and> db_max_bytes s' = db_max_bytes s"
    if "\<exists>a. db_rep s a b c" for s b c
    using that commit_rep by blast
  show "\<exists>s'. reopen s = (Inr (), s') \<and> (\<exists>a. db_rep s' a [] (b @ c)) \<and> db_max_bytes s' = db_max_bytes s"
    if "\<exists>a. db_rep s a b c" for s b c
    using that reopen_rep by blast
qed

subsection \<open>Sequences of operations\<close>

definition fresh_disk :: disk where
  "fresh_disk = \<lparr>d_wal = None, d_symlink = False, d_cursor = NoCursor, d_tmp = None, d_faults = []\<rparr>"

definition wal_run :: "bytes log_op list \<Rightarrow> DiskBuffer \<Rightarrow> (bytes log_out list \<times> DiskBuffer) option" where
  "wal_run = log_run append drain_next commit reopen"

lemma open_fresh:
  "\<exists>s. open_buffer m fresh_disk = (Inr (), s) \<and> db_rep s [] [] [] \<and> db_max_bytes s = m"
  by (simp add: open_buffer_def clamp_cursor_def Let_def io_simps open_append_def read_cursor_def on_disk_def db_rep_def
      healthy_def wal_bytes_def fresh_disk_def)

lemma wal_run_fresh:
  assumes "list_all frame_ok (pushed ops)"
  shows "\<exists>s outs s' b c a. open_buffer m fresh_disk = (Inr (), s) \<and> wal_run ops s = Some (outs, s') \<and>
    spec_run frame_size m ops ([], []) = (outs, b, c) \<and> db_rep s' a b c \<and> db_max_bytes s' = m"
proof -
  obtain s where s: "open_buffer m fresh_disk = (Inr (), s)" "db_rep s [] [] []" "db_max_bytes s = m"
    using open_fresh by blast
  from wal.run_refines [of s "[]" "[]" ops] s assms show ?thesis
    unfolding wal_run_def by blast
qed

lemma db_rep_buffered:
  "db_rep s a b c \<Longrightarrow> buffered_bytes s = total frame_size c \<and> (is_empty s \<longleftrightarrow> c = [])"
  by (simp add: db_rep_def buffered_bytes_def is_empty_def length_wal_of [symmetric])
     (metis add.right_neutral list.size(3) wal_of_Nil_iff wal_of_simps(1))

definition small_ops :: "bytes log_op list" where
  "small_ops = [Push [1, 2], Push [3], Pop, Crash, Pop, Settle, Push [4, 5], Pop]"

text \<open>
  C9: on a disk that works, every sequence of appends of frames up to \<open>MAX_FRAME_LEN\<close>, drains,
  commits and crashes between them (the process dies and the log is opened again) gives the
  results of the specification: a queue with a byte capacity that evicts the oldest frames, and
  a cursor a crash sets back to the last commit. Compaction never shows, eviction only as that.
\<close>

theorem wal_refines_spec:
  assumes "list_all frame_ok (pushed ops)"
  shows "\<exists>s outs s' b c. open_buffer m fresh_disk = (Inr (), s) \<and> wal_run ops s = Some (outs, s') \<and>
    spec_run frame_size m ops ([], []) = (outs, b, c) \<and>
    buffered_bytes s' = total frame_size c \<and> (is_empty s' \<longleftrightarrow> c = [])"
proof -
  obtain s outs s' b c a where "open_buffer m fresh_disk = (Inr (), s)" "wal_run ops s = Some (outs, s')"
    "spec_run frame_size m ops ([], []) = (outs, b, c)" "db_rep s' a b c"
    using wal_run_fresh [OF assms, of m] by blast
  with db_rep_buffered [of s' a b c] show ?thesis by blast
qed

theorem wal_refines_spec_witness:
  "\<exists>s s'. open_buffer 100 fresh_disk = (Inr (), s) \<and>
    wal_run small_ops s = Some ([Evicted 0, Evicted 0, Popped (Some [1, 2]), Done, Popped (Some [1, 2]), Done,
      Evicted 0, Popped (Some [3])], s') \<and> buffered_bytes s' = 6"
  using wal_refines_spec [of small_ops 100]
  by (simp add: small_ops_def frame_ok_def MAX_FRAME_LEN_def frame_size_eq Let_def) blast

text \<open>
  Frames that fit the capacity together are delivered at least once: after any sequence
  of operations, crashes included, each appended frame was drained or is still in the log.
\<close>

theorem wal_at_least_once:
  assumes "list_all frame_ok (pushed ops)" "total frame_size (pushed ops) \<le> m"
  shows "\<exists>s outs s' a b c. open_buffer m fresh_disk = (Inr (), s) \<and> wal_run ops s = Some (outs, s') \<and>
    db_rep s' a b c \<and> mset (pushed ops) \<subseteq># mset (popped outs) + mset c"
proof -
  obtain s outs s' b c a where "open_buffer m fresh_disk = (Inr (), s)" "wal_run ops s = Some (outs, s')"
    "spec_run frame_size m ops ([], []) = (outs, b, c)" "db_rep s' a b c"
    using wal_run_fresh [OF assms(1), of m] by blast
  with spec_at_least_once [of frame_size "[]" "[]" ops m outs b c] assms(2) show ?thesis by auto
qed

theorem wal_at_least_once_witness:
  "\<exists>s outs s' a b c. open_buffer 100 fresh_disk = (Inr (), s) \<and> wal_run small_ops s = Some (outs, s') \<and>
    db_rep s' a b c \<and> mset [[1, 2], [3], [4, 5]] \<subseteq># mset (popped outs) + mset c"
  using wal_at_least_once [of small_ops 100]
  by (simp add: small_ops_def frame_ok_def MAX_FRAME_LEN_def frame_size_eq)

text \<open>
  With no crash in between, frames that fit are drained exactly once and in the order
  they were appended, whatever commits, compactions and drains come in between.
\<close>

theorem wal_fifo:
  assumes "list_all frame_ok (pushed ops)" "total frame_size (pushed ops) \<le> m" "Crash \<notin> set ops"
  shows "\<exists>s outs s' a b c. open_buffer m fresh_disk = (Inr (), s) \<and> wal_run ops s = Some (outs, s') \<and>
    db_rep s' a b c \<and> popped outs @ c = pushed ops"
proof -
  obtain s outs s' b c a where "open_buffer m fresh_disk = (Inr (), s)" "wal_run ops s = Some (outs, s')"
    "spec_run frame_size m ops ([], []) = (outs, b, c)" "db_rep s' a b c"
    using wal_run_fresh [OF assms(1), of m] by blast
  with spec_fifo [of ops frame_size "[]" "[]" m outs b c] assms(2,3) show ?thesis by auto
qed

theorem wal_fifo_witness:
  "\<exists>s outs s' a b c. open_buffer 100 fresh_disk = (Inr (), s) \<and>
    wal_run [Push [1, 2], Push [3], Pop, Settle, Pop, Push [4]] s = Some (outs, s') \<and>
    db_rep s' a b c \<and> popped outs @ c = [[1, 2], [3], [4]]"
  using wal_fifo [of "[Push [1, 2], Push [3], Pop, Settle, Pop, Push [4]]" 100]
  by (simp add: frame_ok_def MAX_FRAME_LEN_def frame_size_eq)

text \<open>
  An append keeps the unsent bytes within \<open>max_bytes\<close> by evicting the oldest frames,
  except that the new frame itself is always kept, even one larger than the whole capacity.
\<close>

theorem append_capacity:
  assumes "db_rep s a b c" "frame_ok x"
  shows "\<exists>n s'. append x s = (Inr (total frame_size (take n c)), s') \<and> n \<le> length c \<and>
    buffered_bytes s' \<le> max (db_max_bytes s) (frame_size x) \<and>
    (\<exists>a b. db_rep s' a b (drop n c @ [x]))"
proof -
  let ?n = "evict_count frame_size (db_max_bytes s) (frame_size x) c"
  obtain s' a' b' where s': "append x s = (Inr (total frame_size (take ?n c)), s')" "db_rep s' a' b' (drop ?n c @ [x])"
    using wal.push [of s b c x ?n] assms by blast
  have "buffered_bytes s' \<le> max (db_max_bytes s) (frame_size x)"
    using db_rep_buffered [OF s'(2)] evict_count_room [of frame_size "db_max_bytes s" "frame_size x" c] by simp
  with s' evict_count_le show ?thesis by blast
qed

definition sample_db :: "nat \<Rightarrow> bytes list \<Rightarrow> DiskBuffer" where
  "sample_db m c = \<lparr>db_disk = fresh_disk\<lparr>d_wal := Some (wal_of c)\<rparr>, db_max_bytes = m,
     db_write_pos = length (wal_of c), db_read_pos = 0, db_persisted_pos = 0, db_wal_file = True, db_reader = None\<rparr>"

lemma sample_db_rep: "list_all frame_ok c \<Longrightarrow> db_rep (sample_db m c) [] [] c"
  by (simp add: db_rep_def sample_db_def healthy_def fresh_disk_def)

theorem append_capacity_witness:
  "\<exists>n s'. append (zeros 20) (sample_db 30 [[1, 2], [3]]) = (Inr (total frame_size (take n [[1, 2], [3]])), s') \<and>
     buffered_bytes s' \<le> 30"
  using append_capacity [OF sample_db_rep, of "[[1, 2], [3]]" "zeros 20" 30]
  by (auto simp: frame_ok_def MAX_FRAME_LEN_def frame_size_eq sample_db_def)

end
