(* ===== verification/Disk_Faults.thy ===== *)
theory Disk_Faults
  imports Disk_Buffer
begin

section \<open>The write-ahead log on a disk that fails\<close>

text \<open>
  What survives arbitrary faults (the cursor never passes the write position), and four
  places where a fault or the state of the directory breaks the promise of the log.
\<close>

subsection \<open>Positions under arbitrary faults\<close>

definition pos_ok :: "DiskBuffer \<Rightarrow> bool" where
  "pos_ok s \<longleftrightarrow> db_read_pos s \<le> db_write_pos s"

text \<open>Calls that keep both positions, and calls that keep their order.\<close>

definition keeps :: "'a io \<Rightarrow> bool" where
  "keeps m \<longleftrightarrow> (\<forall>s. db_read_pos (snd (m s)) = db_read_pos s \<and> db_write_pos (snd (m s)) = db_write_pos s)"

definition safe :: "'a io \<Rightarrow> bool" where
  "safe m \<longleftrightarrow> (\<forall>s. pos_ok s \<longrightarrow> pos_ok (snd (m s)))"

named_theorems pos_intros

lemma keeps_safe [pos_intros]: "keeps m \<Longrightarrow> safe m"
  by (simp add: keeps_def safe_def pos_ok_def)

lemma keeps_try: "keeps m \<Longrightarrow> (\<And>x. keeps (f x)) \<Longrightarrow> keeps (try_io m f)"
  unfolding keeps_def try_io_def
  by (auto split: prod.splits sum.splits) (metis snd_conv)+

lemma safe_try [pos_intros]: "safe m \<Longrightarrow> (\<And>x. safe (f x)) \<Longrightarrow> safe (try_io m f)"
  by (force simp: safe_def try_io_def split: prod.splits sum.splits)

lemma next_fault_pos:
  "next_fault s = (f, s') \<Longrightarrow> db_read_pos s' = db_read_pos s \<and> db_write_pos s' = db_write_pos s"
  by (auto simp: next_fault_def on_disk_def split: list.splits)

lemma keeps_calls [pos_intros]:
  "keeps (ret x)" "keeps (err e)" "keeps (sys id)" "keeps (sys (on_disk g))" "keeps (write_all b)"
  by (auto simp: keeps_def ret_def err_def sys_def write_all_def append_wal_def on_disk_def
      split: prod.splits fault.splits dest: next_fault_pos)

lemma keeps_modify [pos_intros]:
  "(\<And>s. db_read_pos (f s) = db_read_pos s \<and> db_write_pos (f s) = db_write_pos s) \<Longrightarrow> keeps (modify f)"
  by (simp add: keeps_def modify_def)

lemma safe_modify [pos_intros]: "(\<And>s. pos_ok s \<Longrightarrow> pos_ok (f s)) \<Longrightarrow> safe (modify f)"
  by (simp add: safe_def modify_def)

lemma keeps_state: "(\<And>s. keeps (g s)) \<Longrightarrow> keeps (\<lambda>s. g s s)"
  by (simp add: keeps_def)

lemma keeps_open_reader [pos_intros]: "keeps (open_reader p)"
  unfolding open_reader_def
  by (intro keeps_try keeps_calls) (simp add: keeps_def err_def ret_def)

lemma keeps_write_cursor: "keeps (write_cursor p)"
  unfolding write_cursor_def by (intro keeps_try keeps_calls)

lemma keeps_persist [pos_intros]: "keeps persist_cursor"
  unfolding persist_cursor_def [abs_def]
  by (rule keeps_state) (intro keeps_try keeps_write_cursor keeps_modify; simp)

lemma read_exact_pos:
  "read_exact p n s = (r, q, s') \<Longrightarrow> db_read_pos s' = db_read_pos s \<and> db_write_pos s' = db_write_pos s"
  by (auto simp: read_exact_def split: prod.splits fault.splits if_splits dest: next_fault_pos)

lemma keeps_reader_handle: "keeps reader_handle"
proof -
  have "keeps (try_io (open_reader p) (\<lambda>pos. try_io (modify (\<lambda>s. s\<lparr>db_reader := Some pos\<rparr>)) (\<lambda>_. ret pos)))" for p
    by (intro keeps_try keeps_calls keeps_open_reader keeps_modify) simp
  then show ?thesis
    by (simp add: keeps_def reader_handle_def ret_def split: option.split)
qed

lemma keeps_reader_read [pos_intros]: "keeps (reader_read n)"
  unfolding reader_read_def
  by (intro keeps_try keeps_reader_handle) (auto simp: keeps_def split: prod.splits dest: read_exact_pos)

lemma keeps_read_header [pos_intros]: "keeps read_header"
  using keeps_reader_read [of FRAME_HEADER_LEN]
  by (auto simp: keeps_def read_header_def ret_def err_def split: prod.splits sum.splits)
     (metis snd_conv)+

lemma safe_reset [pos_intros]: "safe reset_to_end"
  unfolding reset_to_end_def
  by (intro safe_try keeps_safe [OF keeps_persist] safe_modify) (simp add: pos_ok_def)

lemma keepsD: "keeps m \<Longrightarrow> m s = (r, s') \<Longrightarrow> db_read_pos s' = db_read_pos s \<and> db_write_pos s' = db_write_pos s"
  by (metis keeps_def snd_conv)

lemma safeD: "safe m \<Longrightarrow> pos_ok s \<Longrightarrow> pos_ok (snd (m s))"
  by (simp add: safe_def)

lemma safe_drain_next: "safe drain_next"
  unfolding safe_def
proof (intro allI impI)
  fix s assume ok: "pos_ok s"
  obtain r s1 where h: "read_header s = (r, s1)" by fastforce
  note pos1 = keepsD [OF keeps_read_header h]
  then have ok1: "pos_ok s1" using ok by (simp add: pos_ok_def)
  have reset: "safe (try_io reset_to_end (\<lambda>_. m))" if "safe m" for m :: "bytes option io"
    by (intro safe_try safe_reset that)
  note resets = reset [OF keeps_safe [OF keeps_calls(1)]] reset [OF keeps_safe [OF keeps_calls(2)]]
  have *: "pos_ok (snd (drain_next s))"
    if r: "r = Inr (Some k)" "k + FRAME_HEADER_LEN \<le> db_write_pos s - db_read_pos s" "k \<le> MAX_FRAME_LEN" for k
  proof -
    obtain q s2 where b: "reader_read k s1 = (q, s2)" by fastforce
    note pos2 = keepsD [OF keeps_reader_read b]
    have "pos_ok s2" using pos2 ok1 by (simp add: pos_ok_def)
    with r h b pos1 pos2 ok safeD [OF resets(1)] show ?thesis
      by (auto simp: drain_next_def Let_def try_io_def ret_def err_def pos_ok_def split: sum.splits)
  qed
  show "pos_ok (snd (drain_next s))"
  proof (cases r)
    case (Inl e)
    with h ok ok1 show ?thesis by (simp add: drain_next_def Let_def try_io_def ret_def)
  next
    case (Inr v)
    show ?thesis
    proof (cases v)
      case None
      with Inr h ok ok1 safeD [OF resets(1) ok1] show ?thesis
        by (simp add: drain_next_def Let_def try_io_simps(1) [where m = read_header and s = s] ret_def)
    next
      case (Some k)
      show ?thesis
      proof (cases "k + FRAME_HEADER_LEN \<le> db_write_pos s - db_read_pos s \<and> k \<le> MAX_FRAME_LEN")
        case True
        with * Inr Some show ?thesis by blast
      next
        case False
        with Inr Some h ok ok1 safeD [OF resets(1) ok1] safeD [OF resets(2) ok1] show ?thesis
          by (auto simp: drain_next_def Let_def try_io_simps(1) [where m = read_header and s = s] ret_def)
      qed
    qed
  qed
qed

lemma keeps_rewrite_tail: "keeps (rewrite_tail p n)"
proof -
  have "keeps (copy_tail q k)" for q k
    by (auto simp: keeps_def copy_tail_def on_disk_def Let_def split: prod.splits fault.splits dest: next_fault_pos)
  then show ?thesis
    unfolding rewrite_tail_def by (intro keeps_try keeps_open_reader keeps_calls) (auto intro: keeps_calls)
qed

lemma safe_truncate: "safe truncate_all"
  unfolding truncate_all_def
  by (intro safe_try keeps_safe [OF keeps_persist] keeps_safe [OF keeps_calls(4)] safe_modify) (simp_all add: pos_ok_def)

lemma safe_compact: "safe compact"
proof -
  have "safe (try_io (rewrite_tail p k) (\<lambda>_.
         try_io (modify (\<lambda>s. s\<lparr>db_wal_file := False, db_reader := None\<rparr>)) (\<lambda>_.
         try_io (sys (on_disk (\<lambda>d. d\<lparr>d_wal := d_tmp d, d_tmp := None\<rparr>))) (\<lambda>_.
         try_io open_append (\<lambda>_.
         try_io (modify (\<lambda>s. s\<lparr>db_wal_file := True, db_write_pos := k, db_read_pos := 0\<rparr>)) (\<lambda>_.
         persist_cursor))))))" for p k
    unfolding open_append_def
    by (intro safe_try keeps_safe [OF keeps_rewrite_tail] keeps_safe [OF keeps_persist]
        keeps_safe [OF keeps_calls(4)] safe_modify) (simp_all add: pos_ok_def)
  then show ?thesis
    using safe_truncate by (simp add: safe_def compact_def Let_def ret_def)
qed

lemma safe_maybe_compact: "safe maybe_compact"
  using safe_compact by (simp add: safe_def maybe_compact_def ret_def)

lemma safe_commit: "safe commit"
proof -
  have "safe (try_io persist_cursor (\<lambda>_. maybe_compact))"
    by (intro safe_try keeps_safe [OF keeps_persist] safe_maybe_compact)
  then show ?thesis using safe_maybe_compact by (simp add: safe_def commit_def)
qed

lemma keeps_evict_loop: "keeps (evict_loop p k n)"
proof -
  have "db_read_pos (snd (evict_loop p k n s)) = db_read_pos s \<and> db_write_pos (snd (evict_loop p k n s)) = db_write_pos s" for s
  proof (induction p k n s rule: evict_loop.induct)
    case (1 p k n s)
    show ?case
      by (subst (1 2) evict_loop.simps)
         (use 1 in \<open>auto simp: ret_def err_def split: sum.splits prod.splits
           dest!: read_exact_pos keepsD [OF keeps_calls(3)]\<close>)
  qed
  then show ?thesis by (simp add: keeps_def)
qed

lemma safe_evict: "safe (evict_if_needed n)"
proof -
  have m: "safe (modify (\<lambda>s. s\<lparr>db_read_pos := min (db_read_pos s + k) (db_write_pos s), db_reader := None\<rparr>))" for k
    by (rule safe_modify) (simp add: pos_ok_def)
  have "safe (try_io (open_reader p) (\<lambda>pos. try_io (evict_loop pos k 0) (\<lambda>freed.
       try_io (modify (\<lambda>s. s\<lparr>db_read_pos := min (db_read_pos s + freed) (db_write_pos s), db_reader := None\<rparr>)) (\<lambda>_.
       try_io persist_cursor (\<lambda>_. try_io maybe_compact (\<lambda>_. ret freed))))))" for p k
    by (intro safe_try m safe_maybe_compact keeps_safe [OF keeps_persist] keeps_safe [OF keeps_open_reader]
        keeps_safe [OF keeps_evict_loop] keeps_safe [OF keeps_calls(1)])
  then show ?thesis by (simp add: safe_def evict_if_needed_def Let_def ret_def)
qed

lemma safe_append: "safe (append b)"
proof -
  have "keeps (try_io open_append (\<lambda>_. modify (\<lambda>s. s\<lparr>db_wal_file := True\<rparr>)))"
    unfolding open_append_def by (intro keeps_try keeps_calls keeps_modify) simp
  then have "keeps file_handle"
    by (simp add: keeps_def file_handle_def ret_def)
  then show ?thesis
    unfolding append_def Let_def
    by (intro safe_try safe_evict keeps_safe [OF keeps_calls(1)] keeps_safe [OF keeps_calls(3)]
        keeps_safe [OF keeps_calls(5)] safe_modify) (auto intro: keeps_safe simp: pos_ok_def)
qed

text \<open>
  A run of the program on any disk: the operations in any order, with the faults of each
  operation chosen freely, starting from a successful open.
\<close>

definition with_faults :: "fault list \<Rightarrow> DiskBuffer \<Rightarrow> DiskBuffer" where
  "with_faults fs = on_disk (\<lambda>d. d\<lparr>d_faults := fs\<rparr>)"

inductive db_reach :: "DiskBuffer \<Rightarrow> bool" where
  opened: "open_buffer m d = (Inr (), s) \<Longrightarrow> db_reach s"
| appended: "db_reach s \<Longrightarrow> db_reach (snd (append b (with_faults fs s)))"
| drained: "db_reach s \<Longrightarrow> db_reach (snd (drain_next (with_faults fs s)))"
| committed: "db_reach s \<Longrightarrow> db_reach (snd (commit (with_faults fs s)))"
| reopened: "db_reach s \<Longrightarrow> open_buffer m (db_disk (with_faults fs s)) = (Inr (), s') \<Longrightarrow> db_reach s'"
| dropped: "db_reach s \<Longrightarrow> open_buffer m (drop_buffer (with_faults fs s)) = (Inr (), s') \<Longrightarrow> db_reach s'"

inductive_cases db_reachE: "db_reach s"

lemma try_io_Inr: "try_io m f s = (Inr y, s'') \<Longrightarrow> \<exists>x s'. m s = (Inr x, s') \<and> f x s' = (Inr y, s'')"
  by (auto simp: try_io_def split: prod.splits sum.splits)

lemma open_buffer_pos: "open_buffer m d = (Inr (), s) \<Longrightarrow> pos_ok s"
proof -
  assume "open_buffer m d = (Inr (), s)"
  then obtain s0 where "clamp_cursor s0 = (Inr (), s)"
    unfolding open_buffer_def Let_def by - ((drule try_io_Inr, elim exE conjE)+, blast)
  then show ?thesis
    using keepsD [OF keeps_persist, of "s0\<lparr>db_read_pos := db_write_pos s0\<rparr>"]
    by (auto simp: pos_ok_def clamp_cursor_def ret_def err_def split: if_splits prod.splits sum.splits)
qed

lemma pos_ok_with_faults: "pos_ok (with_faults fs s) = pos_ok s"
  by (simp add: pos_ok_def with_faults_def on_disk_def)

text \<open>
  Whatever fails, in whatever order operations run, the read cursor never passes the
  write position, so the unsigned differences \<open>write_pos - read_pos\<close> never wrap.
\<close>

theorem read_pos_le_write_pos:
  assumes "db_reach s"
  shows "db_read_pos s \<le> db_write_pos s"
proof -
  have "pos_ok s"
    using assms
  proof induction
    case (opened m d s)
    then show ?case by (rule open_buffer_pos)
  next
    case (reopened s m fs s')
    show ?case by (rule open_buffer_pos) (rule reopened(2))
  next
    case (dropped s m fs s')
    show ?case by (rule open_buffer_pos) (rule dropped(2))
  qed (auto intro: safeD safe_append safe_drain_next safe_commit simp: pos_ok_with_faults)
  then show ?thesis by (simp add: pos_ok_def)
qed

lemma sample_reach: "\<exists>s. open_buffer 100 fresh_disk = (Inr (), s) \<and>
    db_reach (snd (append [1, 2] (with_faults [Fine, Fail 1] s)))"
  using open_fresh [of 100] by (blast intro: db_reach.intros)

theorem read_pos_le_write_pos_witness:
  "\<exists>s. let s' = snd (append [1, 2] (with_faults [Fine, Fail 1] s)) in db_read_pos s' \<le> db_write_pos s'"
  using sample_reach read_pos_le_write_pos unfolding Let_def by blast

subsection \<open>A torn append\<close>

lemma faulty_calls [io_simps]:
  "d_faults (db_disk s) = f # fs \<Longrightarrow> sys g s =
     (case f of Fine \<Rightarrow> (Inr (), g (with_faults fs s)) | Fail _ \<Rightarrow> (Inl OtherIo, with_faults fs s))"
  "d_faults (db_disk s) = f # fs \<Longrightarrow> write_all b s =
     (case f of Fine \<Rightarrow> (Inr (), append_wal b (with_faults fs s))
      | Fail k \<Rightarrow> (Inl OtherIo, append_wal (take k b) (with_faults fs s)))"
  by (simp_all add: sys_def write_all_def next_fault_def with_faults_def on_disk_def split: fault.split)

lemma with_faults_simps [simp]:
  "d_faults (db_disk (with_faults fs s)) = fs" "wal_bytes (with_faults fs s) = wal_bytes s"
  "db_read_pos (with_faults fs s) = db_read_pos s" "db_write_pos (with_faults fs s) = db_write_pos s"
  "db_max_bytes (with_faults fs s) = db_max_bytes s" "db_persisted_pos (with_faults fs s) = db_persisted_pos s"
  "db_reader (with_faults fs s) = db_reader s" "db_wal_file (with_faults fs s) = db_wal_file s"
  "with_faults fs (with_faults gs s) = with_faults fs s" "healthy (with_faults [] s)"
  "d_wal (db_disk (with_faults fs s)) = d_wal (db_disk s)" "d_tmp (db_disk (with_faults fs s)) = d_tmp (db_disk s)"
  "d_cursor (db_disk (with_faults fs s)) = d_cursor (db_disk s)"
  "d_symlink (db_disk (with_faults fs s)) = d_symlink (db_disk s)"
  by (simp_all add: with_faults_def on_disk_def wal_bytes_def healthy_def)

text \<open>
  When the body of a frame cannot be written, its header stays in the file and
  \<open>write_pos\<close> does not move. The next append then succeeds, and its frame is lost: the
  stale header is read in its place, and a shorter frame is taken for a truncated tail.
\<close>

theorem torn_append_loses_next:
  assumes "db_rep s a b []" "db_wal_file s" "frame_ok x" "frame_ok y" "length y < length x"
    and "frame_size x \<le> db_max_bytes s"
  shows "\<exists>s1 s2 s3. append x (with_faults [Fine, Fail 0] s) = (Inl OtherIo, s1) \<and>
    append y s1 = (Inr 0, s2) \<and> \<not> is_empty s2 \<and> drain_next s2 = (Inr None, s3) \<and> is_empty s3"
proof -
  let ?h = "u32_le (as_u32 (length x))" and ?k = "u32_le (as_u32 (length y))"
  define s1 where "s1 = append_wal ?h (with_faults [] s)"
  define s2 where "s2 = (append_wal y (append_wal ?k s1))\<lparr>db_write_pos := db_write_pos s + frame_size y\<rparr>"
  have rep: "db_read_pos s = db_write_pos s" "wal_bytes s = a @ wal_of b"
    "db_read_pos s = length (a @ wal_of b)" "db_reader s = None \<or> db_reader s = Some (db_read_pos s)"
    "d_wal (db_disk s) \<noteq> None"
    using assms(1) by (auto simp: db_rep_def wal_bytes_def)
  have h1: "healthy s1" by (simp add: s1_def)
  have s1: "db_read_pos s1 = db_read_pos s" "db_write_pos s1 = db_write_pos s" "db_max_bytes s1 = db_max_bytes s"
    "db_reader s1 = db_reader s" "db_wal_file s1" "wal_bytes s1 = wal_bytes s @ ?h" "d_wal (db_disk s1) \<noteq> None"
    using assms(2) by (simp_all add: s1_def append_wal_def on_disk_def wal_bytes_def)
  have "append x (with_faults [Fine, Fail 0] s) = (Inl OtherIo, s1)"
    using assms(2,6) rep(1)
    by (simp add: append_def Let_def evict_if_needed_def frame_size_def file_handle_def io_simps
        append_wal_def on_disk_def s1_def with_faults_def wal_bytes_def)
  moreover have "append y s1 = (Inr 0, s2)"
    using assms(5,6) rep(1) s1 h1
    by (simp add: append_def Let_def evict_if_needed_def frame_size_def file_handle_def io_simps s2_def
        append_wal_def on_disk_def wal_bytes_def)
  moreover have s2: "healthy s2" "d_wal (db_disk s2) \<noteq> None" "db_read_pos s2 = db_read_pos s"
    "db_write_pos s2 = db_read_pos s + frame_size y" "db_reader s2 = db_reader s"
    "wal_bytes s2 = (a @ wal_of b) @ ?h @ frame y"
    using h1 s1 rep by (simp_all add: s2_def append_wal_def on_disk_def wal_bytes_def frame_def healthy_def split: option.splits)
  moreover have "reader_read 4 s2 = (Inr ?h, s2\<lparr>db_reader := Some (db_read_pos s2 + 4)\<rparr>)"
    using s2(3,5) rep(3,4) by (intro reader_read_healthy [OF s2(1,2) _ s2(6)]) auto
  then have "read_header s2 = (Inr (Some (length x)), s2\<lparr>db_reader := Some (db_read_pos s2 + 4)\<rparr>)"
    using assms(3) by (simp add: read_header_def FRAME_HEADER_LEN_def io_simps)
  then have "\<exists>s3. drain_next s2 = (Inr None, s3) \<and> is_empty s3"
    using assms(3,5) s2
    by (simp add: drain_next_def Let_def io_simps frame_size_eq FRAME_HEADER_LEN_def frame_ok_def
        reset_to_end_def is_empty_def)
  ultimately show ?thesis by (auto simp: is_empty_def frame_size_eq)
qed

theorem torn_append_loses_next_witness:
  "\<exists>s1 s2 s3. append [1, 2, 3] (with_faults [Fine, Fail 0] (sample_db 100 [])) = (Inl OtherIo, s1) \<and>
    append [7] s1 = (Inr 0, s2) \<and> \<not> is_empty s2 \<and> drain_next s2 = (Inr None, s3) \<and> is_empty s3"
  using torn_append_loses_next [OF sample_db_rep [where m = 100], where x = "[1, 2, 3]" and y = "[7]"]
  by (simp add: sample_db_def frame_ok_def MAX_FRAME_LEN_def frame_size_eq)

subsection \<open>A crash inside a compaction\<close>

text \<open>
  C38: a compaction renames the rewritten file over the WAL before it writes the cursor. If
  the process stops between the two, the old cursor is applied to the new file; compaction
  runs when more than half of the file is consumed, so the old cursor lies past the end of
  the new file, and every frame that was still to be sent is skipped.
\<close>

theorem compaction_crash_loses_all:
  assumes "db_rep s a [] c" "c \<noteq> []" "length (wal_of c) < length a"
  shows "\<exists>s1 s2. commit (with_faults (replicate 6 Fine @ [Fail 0]) s) = (Inl OtherIo, s1) \<and>
    wal_bytes s1 = wal_of c \<and> reopen s1 = (Inr (), s2) \<and> is_empty s2 \<and> drain_next s2 = (Inr None, s2)"
proof -
  have rep: "db_read_pos s = length a" "db_persisted_pos s = length a"
    "db_write_pos s = length a + length (wal_of c)" "d_wal (db_disk s) = Some (a @ wal_of c)"
    "\<not> d_symlink (db_disk s)" "d_cursor (db_disk s) = CursorAt (length a)"
    using assms(1,3) by (auto simp: db_rep_def)
  have pos: "0 < length (wal_of c)" "0 < length a" using assms(2,3) wal_of_Nil_iff [of c] by auto
  have six: "replicate 6 Fine @ [Fail 0] = [Fine, Fine, Fine, Fine, Fine, Fine, Fail 0]"
    by (simp add: numeral_eq_Suc)
  let ?s = "with_faults [Fine, Fine, Fine, Fine, Fine, Fine, Fail 0] s"
  have "rewrite_tail (length a) (length (wal_of c)) ?s =
      (Inr (), on_disk (\<lambda>d. d\<lparr>d_tmp := Some (wal_of c)\<rparr>) (with_faults [Fine, Fine, Fail 0] s))"
    using rep
    by (simp add: rewrite_tail_def open_reader_def copy_tail_def Let_def next_fault_def io_simps with_faults_def
        on_disk_def wal_bytes_def)
  then have "compact ?s = (Inl OtherIo, s\<lparr>db_wal_file := True, db_reader := None,
      db_write_pos := length (wal_of c), db_read_pos := 0,
      db_disk := (db_disk s)\<lparr>d_wal := Some (wal_of c), d_tmp := None, d_faults := []\<rparr>\<rparr>)"
    using rep pos
    by (simp add: compact_def Let_def io_simps open_append_def persist_cursor_def write_cursor_def on_disk_def with_faults_def)
  then have "commit ?s = (Inl OtherIo, s\<lparr>db_wal_file := True, db_reader := None,
      db_write_pos := length (wal_of c), db_read_pos := 0,
      db_disk := (db_disk s)\<lparr>d_wal := Some (wal_of c), d_tmp := None, d_faults := []\<rparr>\<rparr>)" (is "_ = (_, ?s1)")
    using rep pos assms(3) by (simp add: commit_def maybe_compact_def)
  moreover have "\<exists>s2. reopen ?s1 = (Inr (), s2) \<and> is_empty s2"
    using rep assms(3)
    by (simp add: reopen_def open_buffer_def clamp_cursor_def Let_def io_simps open_append_def read_cursor_def on_disk_def
        wal_bytes_def is_empty_def healthy_def)
  moreover have "wal_bytes ?s1 = wal_of c" by (simp add: wal_bytes_def)
  moreover have "is_empty s2 \<Longrightarrow> drain_next s2 = (Inr None, s2)" for s2
    by (simp add: is_empty_def drain_next_def io_simps)
  ultimately show ?thesis unfolding six by blast
qed

theorem compaction_crash_loses_all_witness:
  "\<exists>s s1 s2. db_rep s (frame [1, 2, 3]) [] [[4]] \<and>
    commit (with_faults (replicate 6 Fine @ [Fail 0]) s) = (Inl OtherIo, s1) \<and>
    wal_bytes s1 = wal_of [[4]] \<and> reopen s1 = (Inr (), s2) \<and> is_empty s2"
proof -
  let ?s = "(sample_db 100 [[1, 2, 3], [4]])\<lparr>db_read_pos := 7, db_persisted_pos := 7,
    db_disk := fresh_disk\<lparr>d_wal := Some (wal_of [[1, 2, 3], [4]]), d_cursor := CursorAt 7\<rparr>\<rparr>"
  have "db_rep ?s (frame [1, 2, 3]) [] [[4]]"
    by (simp add: db_rep_def sample_db_def healthy_def fresh_disk_def frame_ok_def MAX_FRAME_LEN_def)
  from this compaction_crash_loses_all [OF this] show ?thesis by auto
qed

subsection \<open>A read error\<close>

text \<open>
  When the body of a frame cannot be read, \<open>drain_next\<close> returns the error but keeps
  the reader, which has moved while \<open>read_pos\<close> has not. The next call goes on from where
  the reader stands: after an error at the end of a body it returns the following frame, and
  counts it at the position of the frame it skipped.
\<close>

theorem read_error_skips_frame:
  assumes "db_rep s a b (x # y # c)" "db_reader s = None"
  shows "\<exists>s1 s2. drain_next (with_faults [Fine, Fine, Fail (length x)] s) = (Inl OtherIo, s1) \<and>
    db_read_pos s1 = db_read_pos s \<and> drain_next s1 = (Inr (Some y), s2) \<and>
    db_read_pos s2 = db_read_pos s + frame_size y"
proof -
  note n = wal_bytes_next [OF assms(1)]
  let ?pre = "a @ wal_of b" and ?h = "u32_le (as_u32 (length x))"
  define s1 where "s1 = (with_faults [] s)\<lparr>db_reader := Some (db_read_pos s + 4 + length x)\<rparr>"
  have y: "frame_ok y" "wal_of c \<noteq> [] \<or> c = []" using assms(1) wal_of_Nil_iff [of c] by (auto simp: db_rep_def)
  have "drain_next (with_faults [Fine, Fine, Fail (length x)] s) = (Inl OtherIo, s1)"
    using n assms(2)
    by (simp add: drain_next_def Let_def read_header_def reader_read_def reader_handle_def open_reader_def
        read_exact_def next_fault_def io_simps FRAME_HEADER_LEN_def frame_ok_def s1_def with_faults_def on_disk_def
        wal_bytes_def split: option.splits)
  moreover have s1: "healthy s1" "db_reader s1 = Some (length (?pre @ ?h @ x))" "db_read_pos s1 = db_read_pos s"
    "wal_bytes s1 = (?pre @ ?h @ x) @ u32_le (as_u32 (length y)) @ y @ wal_of c"
    "db_write_pos s1 = db_read_pos s + (4 + length x + (4 + length y + length (wal_of c)))"
    using n by (simp_all add: s1_def frame_def)
  let ?s2 = "s1\<lparr>db_reader := Some (length (?pre @ ?h @ x) + 4)\<rparr>"
  have "reader_read 4 s1 = (Inr (u32_le (as_u32 (length y))), ?s2)"
    by (rule reader_read_open [OF s1(1,2,4)]) simp
  then have "read_header s1 = (Inr (Some (length y)), ?s2)"
    using y(1) by (simp add: read_header_def FRAME_HEADER_LEN_def io_simps)
  moreover have "reader_read (length y) ?s2 = (Inr y, ?s2\<lparr>db_reader := Some (length ((?pre @ ?h @ x) @ u32_le (as_u32 (length y))) + length y)\<rparr>)"
    by (rule reader_read_open [where post = "wal_of c"]) (use s1 in simp_all)
  ultimately have "\<exists>s2. drain_next s1 = (Inr (Some y), s2) \<and> db_read_pos s2 = db_read_pos s + frame_size y"
    using y(1) s1
    by (simp add: drain_next_def Let_def io_simps FRAME_HEADER_LEN_def frame_ok_def frame_size_eq)
  with \<open>drain_next (with_faults [Fine, Fine, Fail (length x)] s) = (Inl OtherIo, s1)\<close> s1(3)
  show ?thesis by blast
qed

theorem read_error_skips_frame_witness:
  "\<exists>s1 s2. drain_next (with_faults [Fine, Fine, Fail 2] (sample_db 100 [zeros 2, [3]])) = (Inl OtherIo, s1) \<and>
    drain_next s1 = (Inr (Some [3]), s2) \<and> db_read_pos s2 = 5"
  using read_error_skips_frame [OF sample_db_rep [where m = 100], where x = "zeros 2" and y = "[3]" and c = "[]"]
  by (auto simp: sample_db_def frame_ok_def MAX_FRAME_LEN_def frame_size_eq)

subsection \<open>A dangling symbolic link\<close>

text \<open>
  \<open>open\<close> refuses a WAL path that is a symbolic link only when the path exists, which
  is false for a link whose target is missing; the file is then created through the link.
  A link to an existing file is refused.
\<close>

theorem open_follows_dangling_symlink:
  "(\<exists>s. open_buffer m (fresh_disk\<lparr>d_symlink := True\<rparr>) = (Inr (), s) \<and> wal_bytes s = [] \<and> db_wal_file s) \<and>
   fst (open_buffer m (fresh_disk\<lparr>d_symlink := True, d_wal := Some w\<rparr>)) = Inl InvalidInput"
  by (simp add: open_buffer_def clamp_cursor_def Let_def io_simps open_append_def read_cursor_def on_disk_def
      healthy_def wal_bytes_def fresh_disk_def)

subsection \<open>A frame too long to read back\<close>

text \<open>An append that fits only writes; nothing bounds the frame's length.\<close>

lemma append_room:
  assumes "healthy s" "d_wal (db_disk s) = Some w" "db_write_pos s - db_read_pos s + frame_size x \<le> db_max_bytes s"
  shows "append x s = (Inr 0, s\<lparr>db_wal_file := True, db_disk := (db_disk s)\<lparr>d_wal := Some (w @ frame x)\<rparr>,
    db_write_pos := db_write_pos s + frame_size x\<rparr>)"
proof -
  have "evict_if_needed (frame_size x) s = (Inr 0, s)"
    using assms(3) by (simp add: evict_if_needed_def Let_def io_simps)
  moreover have "file_handle s = (Inr (), s\<lparr>db_wal_file := True\<rparr>)"
    using assms(1,2) by (cases "db_wal_file s") (simp_all add: file_handle_def open_append_def io_simps on_disk_def)
  ultimately show ?thesis
    using assms(1,2) unfolding append_def Let_def frame_size_def [symmetric]
    by (simp add: io_simps append_wal_def on_disk_def frame_def healthy_def wal_bytes_def)
qed

text \<open>
  C36: a frame over \<open>MAX_FRAME_LEN\<close> is accepted but never read back, and takes with it
  everything appended after it. On a disk that works, with room, both appends succeed and evict
  nothing; yet the next read fails and empties the log.
\<close>

theorem oversized_frame_loses_log:
  assumes "db_rep s a b []" "MAX_FRAME_LEN < length x" "length x < 2 ^ 32"
    and "frame_size x + frame_size y \<le> db_max_bytes s"
  shows "\<exists>s1 s2 s3. append x s = (Inr 0, s1) \<and> append y s1 = (Inr 0, s2) \<and> buffered_bytes s2 = frame_size x + frame_size y \<and>
    drain_next s2 = (Inl InvalidData, s3) \<and> is_empty s3 \<and> drain_next s3 = (Inr None, s3)"
proof -
  have s: "healthy s" "d_wal (db_disk s) = Some (a @ wal_of b)" "db_read_pos s = length (a @ wal_of b)"
    "db_write_pos s = length (a @ wal_of b)" "db_reader s = None \<or> db_reader s = Some (db_read_pos s)"
    using assms(1) by (auto simp: db_rep_def)
  let ?w = "a @ wal_of b" and ?h = "u32_le (as_u32 (length x))"
  let ?s1 = "s\<lparr>db_wal_file := True, db_disk := (db_disk s)\<lparr>d_wal := Some (?w @ frame x)\<rparr>, db_write_pos := db_write_pos s + frame_size x\<rparr>"
  have 1: "append x s = (Inr 0, ?s1)" using append_room [OF s(1,2)] s(3,4) assms(4) by simp
  let ?s2 = "?s1\<lparr>db_disk := (db_disk s)\<lparr>d_wal := Some ((?w @ frame x) @ frame y)\<rparr>, db_write_pos := db_write_pos s + frame_size x + frame_size y\<rparr>"
  have 2: "append y ?s1 = (Inr 0, ?s2)"
    using append_room [of ?s1 "?w @ frame x" y] s assms(4) by (simp add: healthy_def)
  have "reader_read 4 ?s2 = (Inr ?h, ?s2\<lparr>db_reader := Some (db_read_pos ?s2 + 4)\<rparr>)"
    by (rule reader_read_healthy [where pre = ?w and post = "x @ frame y"]) (use s in \<open>simp_all add: healthy_def frame_def\<close>)
  moreover have "read_frame_header ?h = length x"
    using assms(3) by (simp add: read_frame_header_def)
  ultimately have "read_header ?s2 = (Inr (Some (length x)), ?s2\<lparr>db_reader := Some (db_read_pos ?s2 + 4)\<rparr>)"
    by (simp add: read_header_def FRAME_HEADER_LEN_def io_simps)
  then have "\<exists>s3. drain_next ?s2 = (Inl InvalidData, s3) \<and> is_empty s3"
    using s assms(2)
    by (simp add: drain_next_def io_simps Let_def reset_to_end_def is_empty_def frame_size_eq healthy_def [symmetric])
  moreover have "drain_next s3 = (Inr None, s3)" if "is_empty s3" for s3
    using that by (simp add: drain_next_def is_empty_def io_simps)
  moreover have "buffered_bytes ?s2 = frame_size x + frame_size y" using s by (simp add: buffered_bytes_def)
  ultimately show ?thesis using 1 2 by blast
qed

theorem oversized_frame_loses_log_witness:
  "\<exists>x s s1 s2 s3. open_buffer 1000000000 fresh_disk = (Inr (), s) \<and> length x = 268435457 \<and>
    append x s = (Inr 0, s1) \<and> append [1] s1 = (Inr 0, s2) \<and> drain_next s2 = (Inl InvalidData, s3) \<and> is_empty s3"
proof -
  obtain s where s: "open_buffer 1000000000 fresh_disk = (Inr (), s)" "db_rep s [] [] []" "db_max_bytes s = 1000000000"
    using open_fresh by blast
  obtain x :: bytes where x: "length x = 268435457" using Ex_list_of_length by blast
  obtain s1 s2 s3 where "append x s = (Inr 0, s1)" "append [1] s1 = (Inr 0, s2)" "drain_next s2 = (Inl InvalidData, s3)" "is_empty s3"
    using oversized_frame_loses_log [OF s(2), of x "[1]"] x s(3) by (auto simp: MAX_FRAME_LEN_def frame_size_eq)
  with s(1) x show ?thesis by blast
qed

end
