(* ===== verification/Disk_Crash.thy ===== *)
theory Disk_Crash
  imports Disk_Faults
begin

section \<open>The process dies inside an operation of the log\<close>

text \<open>
  An operation is stopped at any of its system calls, or inside one, and the log is opened again
  from what the disk holds. A \<open>torn\<close> tail is the beginning of a frame that was being appended;
  the representation of a log is extended by it.
\<close>

subsection \<open>A log with a torn tail\<close>

definition torn :: "bytes \<Rightarrow> bool" where
  "torn t \<longleftrightarrow> (\<exists>x k. frame_ok x \<and> k < frame_size x \<and> t = take k (frame x))"

definition torn_rep :: "DiskBuffer \<Rightarrow> bytes \<Rightarrow> bytes list \<Rightarrow> bytes list \<Rightarrow> bytes \<Rightarrow> bool" where
  "torn_rep s a b c t \<longleftrightarrow>
     healthy s \<and> \<not> d_symlink (db_disk s) \<and> d_wal (db_disk s) = Some (a @ wal_of (b @ c) @ t) \<and>
     list_all frame_ok (b @ c) \<and> torn t \<and>
     db_persisted_pos s = length a \<and> db_read_pos s = length (a @ wal_of b) \<and>
     db_write_pos s = length (a @ wal_of (b @ c) @ t) \<and>
     (db_reader s = None \<or> db_reader s = Some (db_read_pos s)) \<and>
     (d_cursor (db_disk s) = CursorAt (db_persisted_pos s) \<or>
      d_cursor (db_disk s) = NoCursor \<and> db_persisted_pos s = 0)"

lemma torn_rep_whole: "torn_rep s a b c [] \<Longrightarrow> db_rep s a b c"
  by (auto simp: torn_rep_def db_rep_def)

lemma torn_Nil: "torn []"
  by (auto simp: torn_def frame_ok_def frame_size_eq intro!: exI [of _ "[]"] exI [of _ 0])

lemma drain_torn_Cons:
  assumes "torn_rep s a b (x # c) t"
  shows "\<exists>s'. drain_next s = (Inr (Some x), s') \<and> torn_rep s' a (b @ [x]) c t \<and> db_max_bytes s' = db_max_bytes s"
proof -
  have "drain_next s = (Inr (Some x), s\<lparr>db_read_pos := db_read_pos s + frame_size x,
      db_reader := Some (db_read_pos s + frame_size x)\<rparr>)"
    by (rule drain_next_frame [where pre = "a @ wal_of b" and post = "wal_of c @ t"])
      (use assms in \<open>auto simp: torn_rep_def wal_bytes_def frame_size_eq\<close>)
  moreover have "torn_rep (s\<lparr>db_read_pos := db_read_pos s + frame_size x,
      db_reader := Some (db_read_pos s + frame_size x)\<rparr>) a (b @ [x]) c t"
    using assms by (auto simp: torn_rep_def frame_size_eq)
  ultimately show ?thesis by simp
qed

text \<open>The torn tail itself is not delivered: the cursor moves to the end of the file.\<close>

lemma reset_rep:
  assumes "healthy s" "\<not> d_symlink (db_disk s)" "d_wal (db_disk s) = Some w" "db_write_pos s = length w"
  shows "\<exists>s'. reset_to_end s = (Inr (), s') \<and> db_rep s' w [] [] \<and> db_max_bytes s' = db_max_bytes s"
proof -
  define s' where "s' = s\<lparr>db_read_pos := db_write_pos s, db_reader := None, db_persisted_pos := db_write_pos s,
    db_disk := (db_disk s)\<lparr>d_cursor := CursorAt (db_write_pos s)\<rparr>\<rparr>"
  have "reset_to_end s = (Inr (), s')"
    using assms(1) by (simp add: reset_to_end_def try_io_simps ret_simps persist_cursor_healthy s'_def)
  moreover have "db_rep s' w [] []"
    unfolding db_rep_def s'_def using assms(2-4) healthy_faults [OF assms(1)] by simp
  moreover have "db_max_bytes s' = db_max_bytes s" by (simp add: s'_def)
  ultimately show ?thesis by blast
qed

text \<open>A header whose frame is not all there ends the log, whatever follows the header.\<close>

definition raw_rep :: "DiskBuffer \<Rightarrow> bytes \<Rightarrow> bytes \<Rightarrow> bool" where
  "raw_rep s p r \<longleftrightarrow> healthy s \<and> \<not> d_symlink (db_disk s) \<and> d_wal (db_disk s) = Some (p @ r) \<and>
     db_read_pos s = length p \<and> db_write_pos s = length (p @ r) \<and> (db_reader s = None \<or> db_reader s = Some (db_read_pos s))"

lemma torn_rep_raw: "torn_rep s a b c t \<Longrightarrow> raw_rep s (a @ wal_of b) (wal_of c @ t)"
  by (auto simp: torn_rep_def raw_rep_def)

lemma raw_header:
  assumes "raw_rep s p (u32_le (as_u32 (length x)) @ g)" "frame_ok x"
  shows "read_header s = (Inr (Some (length x)), s\<lparr>db_reader := Some (db_read_pos s + 4)\<rparr>)"
proof -
  have "reader_read 4 s = (Inr (u32_le (as_u32 (length x))), s\<lparr>db_reader := Some (db_read_pos s + 4)\<rparr>)"
    by (rule reader_read_healthy [where pre = p and post = g]) (use assms(1) in \<open>auto simp: raw_rep_def wal_bytes_def\<close>)
  then show ?thesis using assms(2) by (simp add: read_header_def FRAME_HEADER_LEN_def io_simps)
qed

lemma drain_short:
  assumes "raw_rep s p (u32_le (as_u32 (length x)) @ g)" "frame_ok x" "length g < length x"
  shows "\<exists>s' w. drain_next s = (Inr None, s') \<and> db_rep s' w [] [] \<and> db_max_bytes s' = db_max_bytes s"
proof -
  let ?w = "p @ u32_le (as_u32 (length x)) @ g"
  define s1 where "s1 = s\<lparr>db_reader := Some (db_read_pos s + 4)\<rparr>"
  have s: "healthy s" "\<not> d_symlink (db_disk s)" "d_wal (db_disk s) = Some ?w" "db_write_pos s = length ?w"
    "db_write_pos s = db_read_pos s + (4 + length g)"
    using assms(1) by (auto simp: raw_rep_def)
  obtain s' where "reset_to_end s1 = (Inr (), s')" "db_rep s' ?w [] []" "db_max_bytes s' = db_max_bytes s"
    using reset_rep [of s1 ?w] s by (auto simp: s1_def)
  with raw_header [OF assms(1,2)] s(5) assms(2,3) show ?thesis
    by (auto simp: drain_next_def Let_def io_simps frame_ok_def FRAME_HEADER_LEN_def s1_def)
qed

lemma drain_torn_Nil:
  assumes "torn_rep s a b [] t"
  shows "\<exists>s' a' b'. drain_next s = (Inr None, s') \<and> db_rep s' a' b' [] \<and> db_max_bytes s' = db_max_bytes s \<and>
    b' = (if t = [] then b else [])"
proof (cases "t = []")
  case True
  then have "db_rep s a b []" using assms torn_rep_whole by simp
  with True drain_next_Nil [OF this] show ?thesis by auto
next
  case False
  have raw: "raw_rep s (a @ wal_of b) t" "torn t" using torn_rep_raw [OF assms] assms by (simp_all add: torn_rep_def)
  then obtain x k where x: "frame_ok x" "k < frame_size x" "t = take k (frame x)" by (auto simp: torn_def)
  have "\<exists>s' w. drain_next s = (Inr None, s') \<and> db_rep s' w [] [] \<and> db_max_bytes s' = db_max_bytes s"
  proof (cases "k < 4")
    case True
    let ?w = "(a @ wal_of b) @ t"
    have s: "healthy s" "\<not> d_symlink (db_disk s)" "d_wal (db_disk s) = Some ?w" "db_read_pos s = length (a @ wal_of b)"
      "db_write_pos s = db_read_pos s + length t" "db_reader s = None \<or> db_reader s = Some (db_read_pos s)"
      using raw(1) by (auto simp: raw_rep_def)
    define s1 where "s1 = s\<lparr>db_reader := Some (max (db_read_pos s) (length ?w))\<rparr>"
    have "length t < 4" using x True by simp
    then have "reader_read 4 s = (Inl UnexpectedEof, s1)"
      using s by (auto simp: reader_read_def reader_handle_def open_reader_def io_simps wal_bytes_def s1_def)
    then have "read_header s = (Inr None, s1)" by (simp add: read_header_def FRAME_HEADER_LEN_def io_simps)
    moreover obtain s' where "reset_to_end s1 = (Inr (), s')" "db_rep s' ?w [] []" "db_max_bytes s' = db_max_bytes s1"
      using reset_rep [of s1 ?w] s by (auto simp: s1_def)
    ultimately show ?thesis
      using s(5) False by (auto simp: drain_next_def Let_def io_simps s1_def)
  next
    case whole: False
    then have "t = u32_le (as_u32 (length x)) @ take (k - 4) x" "length (take (k - 4) x) < length x"
      using x by (auto simp: frame_def frame_size_eq)
    with drain_short raw(1) x(1) show ?thesis by blast
  qed
  with False show ?thesis by auto
qed

text \<open>A commit keeps what is still to be read, whatever it is.\<close>

lemma compact_raw:
  assumes "raw_rep s p r"
  shows "\<exists>s' p'. compact s = (Inr (), s') \<and> raw_rep s' p' r \<and> db_max_bytes s' = db_max_bytes s"
proof -
  have s: "healthy s" "d_wal (db_disk s) = Some (p @ r)" "db_read_pos s = length p" "db_write_pos s = length p + length r"
    "\<not> d_symlink (db_disk s)"
    using assms by (simp_all add: raw_rep_def)
  consider "p = []" | "p \<noteq> []" "r = []" | "p \<noteq> []" "r \<noteq> []" by blast
  then show ?thesis
  proof cases
    case 1
    with assms s show ?thesis by (auto simp: compact_def io_simps)
  next
    case 2
    with s show ?thesis by (auto simp: compact_def truncate_all_def io_simps on_disk_def raw_rep_def)
  next
    case 3
    with s show ?thesis by (auto simp: compact_def open_append_def io_simps on_disk_def raw_rep_def wal_bytes_def)
  qed
qed

lemma commit_raw:
  assumes "raw_rep s p r"
  shows "\<exists>s' p'. commit s = (Inr (), s') \<and> raw_rep s' p' r \<and> db_max_bytes s' = db_max_bytes s"
proof -
  have maybe: "\<exists>s' p'. maybe_compact s1 = (Inr (), s') \<and> raw_rep s' p' r \<and> db_max_bytes s' = db_max_bytes s1"
    if "raw_rep s1 p r" for s1
    using compact_raw [OF that] that by (auto simp: maybe_compact_def io_simps)
  show ?thesis
  proof (cases "db_read_pos s = db_persisted_pos s")
    case True
    with maybe [OF assms] show ?thesis by (simp add: commit_def)
  next
    case False
    let ?s1 = "s\<lparr>db_persisted_pos := db_read_pos s, db_disk := (db_disk s)\<lparr>d_cursor := CursorAt (db_read_pos s)\<rparr>\<rparr>"
    have "persist_cursor s = (Inr (), ?s1)" using assms by (intro persist_cursor_healthy) (simp add: raw_rep_def)
    moreover have "raw_rep ?s1 p r" using assms by (auto simp: raw_rep_def healthy_faults)
    ultimately show ?thesis using False maybe [of ?s1] by (simp add: commit_def try_io_simps(1))
  qed
qed

text \<open>One pass over the log: every frame in order, then nothing more; the tail is gone.\<close>

definition drain_pass :: "nat \<Rightarrow> bytes log_op list" where
  "drain_pass n = replicate (n + 1) Pop"

definition drain_outs :: "bytes list \<Rightarrow> bytes log_out list" where
  "drain_outs l = map (\<lambda>x. Popped (Some x)) l @ [Popped None]"

lemma pass_torn:
  "torn_rep s a b c t \<Longrightarrow> \<exists>s' a' b'. wal_run (drain_pass (length c)) s = Some (drain_outs c, s') \<and> db_rep s' a' b' [] \<and>
     db_max_bytes s' = db_max_bytes s \<and> b' = (if t = [] then b @ c else [])"
proof (induction c arbitrary: s b)
  case Nil
  then show ?case using drain_torn_Nil [OF Nil] by (auto simp: drain_pass_def drain_outs_def wal_run_def)
next
  case (Cons x c)
  obtain s1 where 1: "drain_next s = (Inr (Some x), s1)" "torn_rep s1 a (b @ [x]) c t" "db_max_bytes s1 = db_max_bytes s"
    using drain_torn_Cons [OF Cons.prems] by blast
  obtain s' a' b' where "wal_run (drain_pass (length c)) s1 = Some (drain_outs c, s')" "db_rep s' a' b' []"
    "db_max_bytes s' = db_max_bytes s1" "b' = (if t = [] then (b @ [x]) @ c else [])"
    using Cons.IH [OF 1(2)] by blast
  with 1 show ?case by (auto simp: drain_pass_def drain_outs_def wal_run_def)
qed

subsection \<open>What an interrupted operation leaves on the disk\<close>

text \<open>What opening the log depends on: the file, the cursor, and that the path is no link.\<close>

definition wal_left :: "bytes \<Rightarrow> cursor_file \<Rightarrow> DiskBuffer \<Rightarrow> bool" where
  "wal_left w cur s \<longleftrightarrow> d_wal (db_disk s) = Some w \<and> d_cursor (db_disk s) = cur \<and> \<not> d_symlink (db_disk s)"

lemma left_simps [simp]:
  "wal_left w cur (s\<lparr>db_write_pos := p\<rparr>) = wal_left w cur s" "wal_left w cur (s\<lparr>db_read_pos := p\<rparr>) = wal_left w cur s"
  "wal_left w cur (s\<lparr>db_persisted_pos := p\<rparr>) = wal_left w cur s" "wal_left w cur (s\<lparr>db_wal_file := h\<rparr>) = wal_left w cur s"
  "wal_left w cur (s\<lparr>db_reader := r\<rparr>) = wal_left w cur s" "wal_left w cur (with_faults fs s) = wal_left w cur s"
  by (simp_all add: wal_left_def)

lemma left_rep: "db_rep s a b c \<Longrightarrow> wal_left (a @ wal_of (b @ c)) (d_cursor (db_disk s)) s"
  by (simp add: wal_left_def db_rep_def)

lemma next_fault_with: "next_fault s = (f, s') \<Longrightarrow> \<exists>gs. s' = with_faults gs s"
  by (intro exI [of _ "d_faults (db_disk s')"]) (auto simp: next_fault_def with_faults_def on_disk_def split: list.splits)

lemma sys_cases:
  assumes "sys g s = (r, s')"
  obtains (fine) gs where "r = Inr ()" "s' = g (with_faults gs s)" | (failed) gs where "r = Inl OtherIo" "s' = with_faults gs s"
  using assms by (auto simp: sys_def split: prod.splits fault.splits dest!: next_fault_with)

lemma try_io_cases:
  assumes "try_io m f s = (r, s')"
  obtains (stop) e where "m s = (Inl e, s')" "r = Inl e" | (on) x s1 where "m s = (Inr x, s1)" "f x s1 = (r, s')"
  using assms by (auto simp: try_io_def split: prod.splits sum.splits)

text \<open>An append: some beginning of the frame is in the file, all of it when the call succeeds.\<close>

lemma write_all_left:
  assumes "write_all x s = (r, s')" "wal_left w cur s"
  obtains k where "wal_left (w @ take k x) cur s'" "isl r \<or> take k x = x"
proof (cases r)
  case (Inr u)
  with assms that [of "length x"] show ?thesis
    by (auto simp: write_all_def append_wal_def on_disk_def wal_left_def wal_bytes_def with_faults_def split: prod.splits fault.splits
        dest!: next_fault_with)
next
  case (Inl e)
  with assms obtain k where "wal_left (w @ take k x) cur s'"
    by (auto simp: write_all_def append_wal_def on_disk_def wal_left_def wal_bytes_def with_faults_def split: prod.splits fault.splits
        dest!: next_fault_with)
  with that Inl show ?thesis by simp
qed

lemma append_left:
  assumes "append x s = (r, s')" "wal_left w cur s" "db_write_pos s - db_read_pos s + frame_size x \<le> db_max_bytes s"
  shows "\<exists>k. wal_left (w @ take k (frame x)) cur s' \<and> (isl r \<or> take k (frame x) = frame x)"
proof -
  let ?h = "u32_le (as_u32 (length x))"
  have tail: "\<exists>k. wal_left (w @ take k (frame x)) cur s'" if "wal_left (w @ take j ?h) cur s'" for j
    using that by (intro exI [of _ "min j 4"]) (cases "j \<le> 4"; simp add: frame_def min_def)
  have body: "\<exists>k. wal_left (w @ take k (frame x)) cur s'" if "wal_left ((w @ ?h) @ take j x) cur s'" for j
    using that by (intro exI [of _ "4 + j"]) (simp add: frame_def)
  obtain s1 where 1: "file_handle s = (Inr (), s1) \<or> isl (fst (file_handle s)) \<and> snd (file_handle s) = s1"
      "wal_left w cur s1"
  proof (cases "db_wal_file s")
    case False
    obtain q s1 where "try_io open_append (\<lambda>_. modify (\<lambda>s. s\<lparr>db_wal_file := True\<rparr>)) s = (q, s1)" by fastforce
    then have "wal_left w cur s1 \<and> (q = Inr () \<or> isl q)"
      using assms(2) by (auto elim!: try_io_cases sys_cases simp: open_append_def modify_def on_disk_def wal_left_def)
    with that False \<open>try_io _ _ s = _\<close> show ?thesis by (auto simp: file_handle_def)
  qed (use assms(2) that in \<open>auto simp: file_handle_def ret_def\<close>)
  have "evict_if_needed (frame_size x) s = (Inr 0, s)"
    using assms(3) by (simp add: evict_if_needed_def Let_def ret_def)
  with assms(1) have "try_io file_handle (\<lambda>_. try_io (write_all ?h) (\<lambda>_. try_io (write_all x) (\<lambda>_. try_io (sys id) (\<lambda>_.
      try_io (modify (\<lambda>s. s\<lparr>db_write_pos := db_write_pos s + frame_size x\<rparr>)) (\<lambda>_. ret 0))))) s = (r, s')"
    unfolding append_def Let_def frame_size_def [symmetric] by (simp add: try_io_simps(1) [where m = "evict_if_needed (frame_size x)"])
  then have "isl r \<and> s' = s1 \<or> try_io (write_all ?h) (\<lambda>_. try_io (write_all x) (\<lambda>_. try_io (sys id) (\<lambda>_.
      try_io (modify (\<lambda>s. s\<lparr>db_write_pos := db_write_pos s + frame_size x\<rparr>)) (\<lambda>_. ret 0)))) s1 = (r, s')"
    by (cases rule: try_io_cases) (use 1(1) in auto)
  then show ?thesis
  proof
    assume "isl r \<and> s' = s1"
    with 1(2) show ?thesis by (intro exI [of _ 0]) simp
  next
    assume "try_io (write_all ?h) (\<lambda>_. try_io (write_all x) (\<lambda>_. try_io (sys id) (\<lambda>_.
      try_io (modify (\<lambda>s. s\<lparr>db_write_pos := db_write_pos s + frame_size x\<rparr>)) (\<lambda>_. ret 0)))) s1 = (r, s')"
    then show ?thesis
    proof (cases rule: try_io_cases)
      case (stop e)
      from stop(1) 1(2) obtain j where "wal_left (w @ take j ?h) cur s'" by (rule write_all_left)
      with tail stop(2) show ?thesis by fastforce
    next
      case (on u s2)
      from on(1) 1(2) obtain j where "wal_left (w @ take j ?h) cur s2" "take j ?h = ?h" by (rule write_all_left) simp
      then have 2: "wal_left (w @ ?h) cur s2" by simp
      from on(2) show ?thesis
      proof (cases rule: try_io_cases)
        case (stop e)
        from stop(1) 2 obtain j where "wal_left ((w @ ?h) @ take j x) cur s'" by (rule write_all_left)
        with body stop(2) show ?thesis by fastforce
      next
        case (on u s3)
        from on(1) 2 obtain j where "wal_left ((w @ ?h) @ take j x) cur s3" "take j x = x" by (rule write_all_left) simp
        then have "wal_left (w @ frame x) cur s3" by (simp add: frame_def)
        with on(2) have "wal_left (w @ frame x) cur s'"
          by (auto elim!: try_io_cases sys_cases simp: modify_def ret_def)
        then show ?thesis by (intro exI [of _ "length (frame x)"]) simp
      qed
    qed
  qed
qed

text \<open>A drain only reads: as long as the frame is there, the file and the cursor stay.\<close>

lemma reader_read_left:
  assumes "reader_read n s = (r, s')" "wal_left w cur s" "w = pre @ x @ post" "n = length x"
    and "db_reader s = Some (length pre) \<or> db_reader s = None \<and> db_read_pos s = length pre"
  shows "wal_left w cur s' \<and> (r = Inl OtherIo \<or> r = Inr x \<and> db_reader s' = Some (length pre + n))"
proof -
  have read: "wal_left w cur s2 \<and> (q = Inl OtherIo \<or> q = Inr x \<and> p = length pre + n)"
    if "read_exact (length pre) n s1 = (q, p, s2)" "wal_left w cur s1" for q p s1 s2
    using that assms(3,4)
    by (auto simp: read_exact_def wal_left_def wal_bytes_def split: prod.splits fault.splits if_splits dest!: next_fault_with)
  from assms(1) show ?thesis unfolding reader_read_def
  proof (cases rule: try_io_cases)
    case (stop e)
    then show ?thesis using assms(2,5)
      by (auto simp: reader_handle_def open_reader_def modify_def ret_def err_def wal_left_def elim!: try_io_cases sys_cases
          split: option.splits if_splits)
  next
    case (on p s1)
    then have "p = length pre \<and> wal_left w cur s1" using assms(2,5)
      by (auto simp: reader_handle_def open_reader_def modify_def ret_def err_def wal_left_def elim!: try_io_cases sys_cases
          split: option.splits if_splits)
    with on(2) read show ?thesis by (fastforce split: prod.splits)
  qed
qed

lemma drain_left:
  assumes "db_rep s0 a b c" "drain_next (with_faults fs s0) = (r, s')"
  shows "wal_left (a @ wal_of (b @ c)) (d_cursor (db_disk s0)) s'"
proof (cases c)
  case Nil
  with assms left_rep [OF assms(1)] show ?thesis by (auto simp: drain_next_def db_rep_def ret_def)
next
  case (Cons x c')
  let ?s = "with_faults fs s0" and ?w = "a @ wal_of (b @ c)" and ?cur = "d_cursor (db_disk s0)"
  let ?pre = "a @ wal_of b" and ?h = "u32_le (as_u32 (length x))"
  have s: "wal_left ?w ?cur ?s" "db_read_pos ?s = length ?pre" "db_read_pos ?s + frame_size x \<le> db_write_pos ?s" "frame_ok x"
    "db_reader ?s = Some (length ?pre) \<or> db_reader ?s = None \<and> db_read_pos ?s = length ?pre"
    using assms(1) left_rep [OF assms(1)] Cons by (auto simp: db_rep_def frame_size_eq)
  obtain q s1 where 1: "reader_read 4 ?s = (q, s1)" by fastforce
  have header: "wal_left ?w ?cur s1 \<and> (q = Inl OtherIo \<or> q = Inr ?h \<and> db_reader s1 = Some (length ?pre + 4))"
    by (rule reader_read_left [OF 1 s(1) _ _ s(5), where post = "x @ wal_of c'"]) (simp_all add: Cons frame_def)
  obtain q2 s2 where 2: "reader_read (length x) s1 = (q2, s2)" by fastforce
  have body: "wal_left ?w ?cur s2 \<and> (q2 = Inl OtherIo \<or> q2 = Inr x)" if "q = Inr ?h"
    using reader_read_left [OF 2, of ?w ?cur "?pre @ ?h" x "wal_of c'"] header that Cons by (auto simp: frame_def)
  have "\<not> db_write_pos s0 - (length a + length (wal_of b)) < length x + 4"
    using s(2,3) by (simp add: frame_size_eq)
  then show ?thesis
    using assms(2) 1 header 2 body s(2-4)
    by (auto simp: drain_next_def Let_def try_io_def read_header_def FRAME_HEADER_LEN_def ret_def err_def header_of_frame
        frame_ok_def frame_size_eq split: sum.splits)
qed

text \<open>A commit that rewrites nothing moves the cursor, or leaves it, or empties a log that is drained.\<close>

lemma persist_left:
  assumes "persist_cursor s = (r, s')" "wal_left w cur s"
  obtains "isl r" "wal_left w cur s'" | "wal_left w (CursorAt (db_read_pos s)) s'"
  using assms by (auto simp: persist_cursor_def write_cursor_def modify_def on_disk_def wal_left_def elim!: try_io_cases sys_cases)

lemma truncate_left:
  assumes "truncate_all s = (r, s')" "wal_left w cur s"
  obtains "isl r" "wal_left w cur s'" | "wal_left [] cur s'" | "wal_left [] (CursorAt 0) s'"
proof -
  let ?s = "s\<lparr>db_wal_file := False, db_reader := None\<rparr>"
  from assms(1) have "try_io (sys (on_disk (\<lambda>d. d\<lparr>d_wal := Some []\<rparr>))) (\<lambda>_.
     try_io (modify (\<lambda>s. s\<lparr>db_wal_file := True, db_write_pos := 0, db_read_pos := 0\<rparr>)) (\<lambda>_. persist_cursor)) ?s = (r, s')"
    by (simp add: truncate_all_def try_io_simps(1) ret_simps)
  then show thesis
  proof (cases rule: try_io_cases)
    case (stop e)
    with that(1) assms(2) show ?thesis by (auto elim!: sys_cases)
  next
    case (on u s1)
    let ?s1 = "s1\<lparr>db_wal_file := True, db_write_pos := 0, db_read_pos := 0\<rparr>"
    have "wal_left [] cur s1" using on(1) assms(2) by (auto elim!: sys_cases simp: wal_left_def on_disk_def)
    moreover have "persist_cursor ?s1 = (r, s')" using on(2) by (simp add: try_io_simps(1) ret_simps)
    ultimately show ?thesis using that(2,3) by (elim persist_left [where s = ?s1 and w = "[]" and cur = cur]) simp_all
  qed
qed

lemma commit_left:
  assumes "db_rep s0 a b c" "commit (with_faults fs s0) = (r, s')" "2 * db_read_pos s0 \<le> db_write_pos s0 \<or> c = []"
  shows "(isl r \<or> b = []) \<and> wal_left (a @ wal_of (b @ c)) (d_cursor (db_disk s0)) s' \<or>
    wal_left (a @ wal_of (b @ c)) (CursorAt (length (a @ wal_of b))) s' \<or>
    c = [] \<and> (\<exists>cur. cur \<noteq> CursorGarbage \<and> wal_left [] cur s')"
proof -
  let ?w = "a @ wal_of (b @ c)" and ?cur = "d_cursor (db_disk s0)" and ?p = "length (a @ wal_of b)"
  have keep: "wal_left ?w cur s2 \<and> \<not> isl q \<or> c = [] \<and> (isl q \<and> wal_left ?w cur s2 \<or> (\<exists>cur. cur \<noteq> CursorGarbage \<and> wal_left [] cur s2))"
    if "maybe_compact s1 = (q, s2)" "wal_left ?w cur s1" "cur \<noteq> CursorGarbage" "db_read_pos s1 = db_read_pos s0" "db_write_pos s1 = db_write_pos s0"
    for q cur s1 s2
  proof (cases "db_write_pos s1 \<noteq> 0 \<and> db_write_pos s1 < 2 * db_read_pos s1")
    case True
    with that(4,5) assms(1,3) have "c = []" "db_write_pos s1 = db_read_pos s1" "db_read_pos s1 \<noteq> 0"
      by (auto simp: db_rep_def)
    then have "truncate_all s1 = (q, s2)" using that(1) True by (simp add: maybe_compact_def compact_def)
    then show ?thesis using that(2,3) \<open>c = []\<close> by (elim truncate_left [where w = ?w and cur = cur]) blast+
  qed (use that in \<open>auto simp: maybe_compact_def ret_def split: if_splits\<close>)
  have s: "wal_left ?w ?cur (with_faults fs s0)" "db_read_pos s0 = ?p"
    using left_rep [OF assms(1)] assms(1) by (simp_all add: db_rep_def)
  have cur: "?cur \<noteq> CursorGarbage" using assms(1) by (auto simp: db_rep_def)
  show ?thesis
  proof (cases "db_read_pos s0 = db_persisted_pos s0")
    case True
    then have "length (wal_of b) = 0" using assms(1) by (auto simp: db_rep_def)
    then have "b = []" by (simp only: wal_of_Nil_iff)
    with True assms(2) keep [of "with_faults fs s0" r s' ?cur] s(1) cur show ?thesis by (auto simp: commit_def)
  next
    case False
    then have "try_io persist_cursor (\<lambda>_. maybe_compact) (with_faults fs s0) = (r, s')"
      using assms(2) by (simp add: commit_def)
    then show ?thesis
    proof (cases rule: try_io_cases)
      case (stop e)
      from stop(1) s(1) show ?thesis by (rule persist_left) (use stop(2) s(2) in simp_all)
    next
      case (on u s1)
      note pos = keepsD [OF keeps_persist on(1)]
      from on(1) s(1) have "wal_left ?w (CursorAt ?p) s1" by (rule persist_left) (use s(2) in simp_all)
      from keep [OF on(2) this] pos show ?thesis by auto
    qed
  qed
qed

text \<open>
  Opening the log on what it holds changes nothing: the cursor is within the file. The steps of
  \<open>open\<close> are followed with a pre- and a postcondition, and a condition where it stops.
\<close>

definition io_triple :: "(DiskBuffer \<Rightarrow> bool) \<Rightarrow> 'a io \<Rightarrow> ('a \<Rightarrow> DiskBuffer \<Rightarrow> bool) \<Rightarrow> (DiskBuffer \<Rightarrow> bool) \<Rightarrow> bool" where
  "io_triple P m Q E \<longleftrightarrow> (\<forall>s. P s \<longrightarrow> (case m s of (Inl e, s') \<Rightarrow> E s' | (Inr x, s') \<Rightarrow> Q x s'))"

lemma triple_try: "io_triple P m Q E \<Longrightarrow> (\<And>x. io_triple (Q x) (f x) R E) \<Longrightarrow> io_triple P (try_io m f) R E"
  by (fastforce simp: io_triple_def try_io_def split: prod.splits sum.splits)

lemma triple_sys:
  "(\<And>s fs. P s \<Longrightarrow> Q () (g (with_faults fs s)) \<and> E (with_faults fs s)) \<Longrightarrow> io_triple P (sys g) Q E"
  by (auto simp: io_triple_def elim!: sys_cases split: prod.split sum.split)

lemma triple_modify: "(\<And>s. P s \<Longrightarrow> Q () (f s)) \<Longrightarrow> io_triple P (modify f) Q E"
  by (simp add: io_triple_def modify_def)

lemma triple_post: "io_triple P m Q E \<Longrightarrow> P s \<Longrightarrow> m s = (r, s') \<Longrightarrow> (\<And>x s. Q x s \<Longrightarrow> E s) \<Longrightarrow> E s'"
  by (cases r) (auto simp: io_triple_def)

lemma reopen_left:
  assumes "db_rep s0 a b c" "reopen (with_faults fs s0) = (r, s')"
  shows "wal_left (a @ wal_of (b @ c)) (d_cursor (db_disk s0)) s'"
proof -
  let ?w = "a @ wal_of (b @ c)"
  let ?L = "wal_left ?w (d_cursor (db_disk s0))" and ?W = "\<lambda>s. db_write_pos s = length ?w"
  have cur: "d_cursor (db_disk s0) = CursorAt (length a) \<or> d_cursor (db_disk s0) = NoCursor"
    using assms(1) by (auto simp: db_rep_def)
  have sys: "io_triple ?L (sys id) (\<lambda>_. ?L) ?L" by (rule triple_sys) simp
  have "io_triple ?L (try_io (sys id) (\<lambda>_ s. if d_symlink (db_disk s) then err InvalidInput s else ret () s)) (\<lambda>_. ?L) ?L"
    by (rule triple_try [OF sys]) (simp add: io_triple_def ret_def wal_left_def)
  then have link: "io_triple ?L (\<lambda>s. if d_wal (db_disk s) = None then ret () s
      else try_io (sys id) (\<lambda>_ s. if d_symlink (db_disk s) then err InvalidInput s else ret () s) s) (\<lambda>_. ?L) ?L"
    by (simp add: io_triple_def ret_def)
  have wal_file: "io_triple ?L open_append (\<lambda>_. ?L) ?L"
    unfolding open_append_def by (rule triple_sys) (simp add: wal_left_def on_disk_def with_faults_def)
  have size: "io_triple ?L (modify (\<lambda>s. s\<lparr>db_write_pos := length (wal_bytes s), db_wal_file := True\<rparr>)) (\<lambda>_ s. ?L s \<and> ?W s) ?L"
    by (rule triple_modify) (simp add: wal_left_def wal_bytes_def)
  have cursor: "io_triple (\<lambda>s. ?L s \<and> ?W s) read_cursor (\<lambda>p s. ?L s \<and> ?W s \<and> p \<le> length a) ?L"
    unfolding read_cursor_def
    by (rule triple_try [where Q = "\<lambda>_ s. ?L s \<and> ?W s"], rule triple_sys, simp)
      (use cur in \<open>auto simp: io_triple_def ret_def err_def wal_left_def split: cursor_file.split\<close>)
  have rest: "io_triple (\<lambda>s. ?L s \<and> ?W s \<and> p \<le> length a) (try_io (modify (\<lambda>s. s\<lparr>db_read_pos := p, db_persisted_pos := p\<rparr>)) (\<lambda>_. clamp_cursor)) (\<lambda>_. ?L) ?L" for p
    by (rule triple_try [where Q = "\<lambda>_ s. ?L s \<and> db_read_pos s \<le> db_write_pos s"], rule triple_modify)
      (simp_all add: io_triple_def clamp_cursor_def ret_def)
  note open_ = triple_try [OF sys triple_try [OF sys triple_try [OF link triple_try [OF wal_file triple_try [OF sys
    triple_try [OF sys triple_try [OF size triple_try [OF cursor rest]]]]]]]]
  show ?thesis
    using assms(2) left_rep [OF assms(1)] unfolding reopen_def open_buffer_def Let_def
    by (rule_tac triple_post [OF open_]) (auto simp: wal_left_def)
qed

subsection \<open>Recovery\<close>

text \<open>An operation of the log, and whether it returned without an error.\<close>

fun log_call :: "bytes log_op \<Rightarrow> DiskBuffer \<Rightarrow> bool \<times> DiskBuffer" where
  "log_call (Push x) s = apfst (\<lambda>r. \<not> isl r) (append x s)"
| "log_call Pop s = apfst (\<lambda>r. \<not> isl r) (drain_next s)"
| "log_call Settle s = apfst (\<lambda>r. \<not> isl r) (commit s)"
| "log_call Crash s = apfst (\<lambda>r. \<not> isl r) (reopen s)"

text \<open>What a process that is killed leaves: the disk, which works again.\<close>

definition after_kill :: "DiskBuffer \<Rightarrow> disk" where
  "after_kill s = (db_disk s)\<lparr>d_faults := []\<rparr>"

text \<open>The operations that write no frame anew: an append with room, a commit that does not compact a tail.\<close>

fun rewrites_nothing :: "bytes log_op \<Rightarrow> DiskBuffer \<Rightarrow> bool" where
  "rewrites_nothing (Push x) s \<longleftrightarrow> buffered_bytes s + frame_size x \<le> db_max_bytes s"
| "rewrites_nothing Settle s \<longleftrightarrow> 2 * db_read_pos s \<le> db_write_pos s \<or> is_empty s"
| "rewrites_nothing _ s \<longleftrightarrow> True"

text \<open>The frames a log may hold after an operation that did or did not return.\<close>

fun survivors :: "bytes log_op \<Rightarrow> bool \<Rightarrow> bytes list \<Rightarrow> bytes list \<Rightarrow> bytes list list" where
  "survivors (Push x) ok b c = (if ok then [b @ c @ [x]] else [b @ c, b @ c @ [x]])"
| "survivors Settle ok b c = (if ok then [c] else [b @ c, c])"
| "survivors _ ok b c = [b @ c]"

lemma open_torn:
  assumes "wal_left (a @ wal_of l @ t) cur s" "cur = CursorAt (length a) \<or> cur = NoCursor \<and> a = []" "torn t" "list_all frame_ok l"
  shows "\<exists>s1. open_buffer m (after_kill s) = (Inr (), s1) \<and> torn_rep s1 a [] l t \<and> db_max_bytes s1 = m"
  using assms
  by (auto simp: after_kill_def wal_left_def open_buffer_def clamp_cursor_def Let_def io_simps open_append_def read_cursor_def on_disk_def
      torn_rep_def healthy_def wal_bytes_def)

lemma open_truncated:
  assumes "wal_left [] cur s" "cur \<noteq> CursorGarbage"
  shows "\<exists>s1. open_buffer m (after_kill s) = (Inr (), s1) \<and> torn_rep s1 [] [] [] [] \<and> db_max_bytes s1 = m"
  using assms torn_Nil
  by (cases cur; auto simp: after_kill_def wal_left_def open_buffer_def clamp_cursor_def Let_def io_simps open_append_def read_cursor_def on_disk_def
      torn_rep_def healthy_def wal_bytes_def)

lemma killed_log:
  assumes "db_rep s a b c" "list_all frame_ok (pushed [op])" "rewrites_nothing op s" "log_call op (with_faults fs s) = (ok, s')"
  shows "\<exists>l s1 a1 t. l \<in> set (survivors op ok b c) \<and> open_buffer m (after_kill s') = (Inr (), s1) \<and>
    torn_rep s1 a1 [] l t \<and> db_max_bytes s1 = m"
proof -
  let ?w = "a @ wal_of (b @ c)" and ?cur = "d_cursor (db_disk s)"
  have cur: "?cur = CursorAt (length a) \<or> ?cur = NoCursor \<and> a = []" and fine: "list_all frame_ok (b @ c)"
    using assms(1) by (auto simp: db_rep_def)
  have whole: ?thesis if "wal_left ?w ?cur s'" "b @ c \<in> set (survivors op ok b c)"
    using open_torn [of a "b @ c" "[]", OF _ cur torn_Nil fine] that by fastforce
  show ?thesis
  proof (cases op)
    case (Push x)
    then obtain r where r: "append x (with_faults fs s) = (r, s')" "ok = (\<not> isl r)" using assms(4) by (auto simp: apfst_def map_prod_def split: prod.splits)
    have "db_write_pos (with_faults fs s) - db_read_pos (with_faults fs s) + frame_size x \<le> db_max_bytes (with_faults fs s)"
      using assms(3) Push by (simp add: buffered_bytes_def)
    moreover have "wal_left ?w ?cur (with_faults fs s)" using left_rep [OF assms(1)] by simp
    ultimately obtain k where k: "wal_left (?w @ take k (frame x)) ?cur s'" "isl r \<or> take k (frame x) = frame x"
      using append_left [OF r(1)] by blast
    show ?thesis
    proof (cases "take k (frame x) = frame x")
      case True
      have "wal_left (a @ wal_of (b @ c @ [x]) @ []) ?cur s'" "list_all frame_ok (b @ c @ [x])"
        using k(1) True fine assms(2) Push by simp_all
      from open_torn [OF this(1) cur torn_Nil this(2)] show ?thesis using Push by fastforce
    next
      case False
      then have "k < frame_size x" by (simp add: frame_size_eq)
      then have "torn (take k (frame x))" using assms(2) Push unfolding torn_def by auto
      moreover have "wal_left (a @ wal_of (b @ c) @ take k (frame x)) ?cur s'" using k(1) by simp
      ultimately show ?thesis
        using open_torn [OF _ cur _ fine] k(2) False r(2) Push by fastforce
    qed
  next
    case Settle
    then obtain r where r: "commit (with_faults fs s) = (r, s')" "ok = (\<not> isl r)" using assms(4) by (auto simp: apfst_def map_prod_def split: prod.splits)
    have "2 * db_read_pos s \<le> db_write_pos s \<or> c = []" using assms(3) Settle db_rep_buffered [OF assms(1)] by simp
    from commit_left [OF assms(1) r(1) this] show ?thesis
    proof (elim disjE conjE exE)
      assume "wal_left ?w (CursorAt (length (a @ wal_of b))) s'"
      then have "wal_left ((a @ wal_of b) @ wal_of c @ []) (CursorAt (length (a @ wal_of b))) s'" by simp
      from open_torn [OF this _ torn_Nil] fine Settle show ?thesis by fastforce
    next
      fix cur' assume "c = []" "cur' \<noteq> CursorGarbage" "wal_left [] cur' s'"
      with open_truncated show ?thesis using Settle by fastforce
    qed (use whole r(2) Settle in auto)
  next
    case Pop
    then have "wal_left ?w ?cur s'" using assms(4) drain_left [OF assms(1)] by (auto simp: apfst_def map_prod_def split: prod.splits)
    with whole Pop show ?thesis by simp
  next
    case Crash
    then have "wal_left ?w ?cur s'" using assms(4) reopen_left [OF assms(1)] by (auto simp: apfst_def map_prod_def split: prod.splits)
    with whole Crash show ?thesis by simp
  qed
qed

text \<open>
  C10: a process killed inside an operation of the log that writes no frame anew
  (\<open>rewrites_nothing\<close>: an append that evicts nothing, a commit that compacts no tail, a drain, a
  reopening) loses none of its frames. Whatever calls of the operation failed before, opening the
  log on a disk that works again succeeds and the first pass gives every frame not yet committed,
  in order and then nothing more; a frame whose append returned is among them, one whose append
  did not is there whole or not at all, and a commit that returned is kept. From then on the log
  gives the results of its specification. A kill inside a compaction, which such an append or
  commit would start, can lose every frame: \<open>compaction_crash_loses_all\<close>.
\<close>

theorem killed_log_recovers:
  assumes "db_rep s a b c" "list_all frame_ok (pushed (op # ops))" "rewrites_nothing op s"
    and "log_call op (with_faults fs s) = (ok, s')"
  shows "\<exists>l s1 outs s2 b1 b2 c2. l \<in> set (survivors op ok b c) \<and> open_buffer m (after_kill s') = (Inr (), s1) \<and>
    wal_run (drain_pass (length l) @ ops) s1 = Some (drain_outs l @ outs, s2) \<and> b1 \<in> {[], l} \<and>
    spec_run frame_size m ops (b1, []) = (outs, b2, c2) \<and> buffered_bytes s2 = total frame_size c2"
proof -
  have split: "pushed (op # ops) = pushed [op] @ pushed ops" by (cases op) auto
  obtain l s1 a1 t where 1: "l \<in> set (survivors op ok b c)" "open_buffer m (after_kill s') = (Inr (), s1)"
    "torn_rep s1 a1 [] l t" "db_max_bytes s1 = m"
    using killed_log [OF assms(1) _ assms(3,4), of m] assms(2) split by (auto simp del: pushed.simps)
  from pass_torn [OF 1(3)] 1(4) obtain s' a' b1 where 2: "wal_run (drain_pass (length l)) s1 = Some (drain_outs l, s')"
    "db_rep s' a' b1 []" "db_max_bytes s' = m" "b1 = (if t = [] then [] @ l else [])" by blast
  have "\<exists>a. db_rep s' a b1 []" "list_all frame_ok (pushed ops)" using 2(2) assms(2) split by auto
  from wal.run_refines [OF this] obtain s2 outs b2 c2 a2 where 3: "wal_run ops s' = Some (outs, s2)"
    "spec_run frame_size m ops (b1, []) = (outs, b2, c2)" "db_rep s2 a2 b2 c2"
    using 2(3) by (auto simp: wal_run_def)
  have "wal_run (drain_pass (length l) @ ops) s1 = Some (drain_outs l @ outs, s2)"
    using log_run_append [OF 2(1) [unfolded wal_run_def] 3(1) [unfolded wal_run_def]] by (simp add: wal_run_def)
  moreover have "b1 \<in> {[], l}" using 2(4) by simp
  ultimately show ?thesis
    using 1(1,2) 3(2) db_rep_buffered [OF 3(3)]
    by (intro exI [of _ l] exI [of _ s1] exI [of _ outs] exI [of _ s2] exI [of _ b1] exI [of _ b2] exI [of _ c2]) simp
qed

theorem killed_log_recovers_witness:
  "\<exists>ok s' l s1 s2. log_call (Push [3, 4, 5]) (with_faults [Fine, Fail 2] (sample_db 100 [[1, 2]])) = (ok, s') \<and>
    open_buffer 100 (after_kill s') = (Inr (), s1) \<and> l \<in> {[[1, 2]], [[1, 2], [3, 4, 5]]} \<and>
    wal_run (drain_pass (length l) @ [Push [9], Pop]) s1 = Some (drain_outs l @ [Evicted 0, Popped (Some [9])], s2)"
proof -
  obtain ok s' where call: "log_call (Push [3, 4, 5]) (with_faults [Fine, Fail 2] (sample_db 100 [[1, 2]])) = (ok, s')"
    by fastforce
  have "db_rep (sample_db 100 [[1, 2]]) [] [] [[1, 2]]"
    by (rule sample_db_rep) (simp add: frame_ok_def MAX_FRAME_LEN_def)
  from killed_log_recovers [OF this _ _ call, of "[Push [9], Pop]" 100]
  obtain l s1 outs s2 b1 b2 c2 where 1: "l \<in> set (survivors (Push [3, 4, 5]) ok [] [[1, 2]])"
    "open_buffer 100 (after_kill s') = (Inr (), s1)" "wal_run (drain_pass (length l) @ [Push [9], Pop]) s1 = Some (drain_outs l @ outs, s2)"
    "spec_run frame_size 100 [Push [9], Pop] (b1, []) = (outs, b2, c2)"
    by (auto simp: frame_ok_def MAX_FRAME_LEN_def sample_db_def buffered_bytes_def frame_size_eq)
  have "outs = [Evicted 0, Popped (Some [9])]" using 1(4) by (simp add: Let_def)
  moreover have "l \<in> {[[1, 2]], [[1, 2], [3, 4, 5]]}" using 1(1) by (auto split: if_splits)
  ultimately show ?thesis using call 1(2,3) by blast
qed

subsection \<open>An append behind a torn tail\<close>

text \<open>
  Opening the log does not remove a torn tail, so the first pass has to come before the first
  append. A worker that finds the collector still down appends first: its frame goes behind the
  tail, and the stale header takes its bytes for the rest of the torn frame. A longer frame is
  delivered as the beginning of the one and the beginning of the other, header included, and
  a shorter one is dropped with the tail. Every call succeeds.
\<close>

theorem torn_tail_swallows_append:
  assumes "db_rep s a [] []" "db_wal_file s" "frame_ok x" "k < length x" "frame_size x \<le> db_max_bytes s"
    and "4 + k + frame_size y \<le> m"
  shows "\<exists>s' s1 s2 s3. append x (with_faults [Fine, Fail k] s) = (Inl OtherIo, s') \<and>
    open_buffer m (after_kill s') = (Inr (), s1) \<and> append y s1 = (Inr 0, s2) \<and>
    (if k + frame_size y < length x then drain_next s2 = (Inr None, s3) \<and> is_empty s3
     else drain_next s2 = (Inr (Some (take k x @ take (length x - k) (frame y))), s3))"
proof -
  let ?h = "u32_le (as_u32 (length x))" and ?t = "u32_le (as_u32 (length x)) @ take k x"
  have rep: "db_read_pos s = db_write_pos s" "d_wal (db_disk s) = Some a" "db_read_pos s = length a" "\<not> d_symlink (db_disk s)"
    "d_cursor (db_disk s) = CursorAt (length a) \<or> d_cursor (db_disk s) = NoCursor \<and> a = []"
    using assms(1) by (auto simp: db_rep_def)
  define s' where "s' = append_wal (take k x) (append_wal ?h (with_faults [] s))"
  have 1: "append x (with_faults [Fine, Fail k] s) = (Inl OtherIo, s')"
    using assms(2,5) rep(1)
    by (simp add: append_def Let_def evict_if_needed_def frame_size_def file_handle_def io_simps
        append_wal_def on_disk_def s'_def with_faults_def wal_bytes_def)
  have "wal_left (a @ wal_of [] @ ?t) (d_cursor (db_disk s)) s'"
    using rep(2,4) by (simp add: wal_left_def s'_def append_wal_def on_disk_def wal_bytes_def)
  moreover have "torn ?t"
    using assms(3,4) unfolding torn_def by (intro exI [of _ x] exI [of _ "4 + k"]) (simp add: frame_def frame_size_eq)
  ultimately obtain s1 where 2: "open_buffer m (after_kill s') = (Inr (), s1)" "torn_rep s1 a [] [] ?t" "db_max_bytes s1 = m"
    using open_torn [OF _ rep(5), of "[]" ?t s'] by auto
  have s1: "healthy s1" "d_wal (db_disk s1) = Some (a @ ?t)" "db_read_pos s1 = length a" "db_write_pos s1 = length a + (4 + k)"
    "db_reader s1 = None \<or> db_reader s1 = Some (db_read_pos s1)" "\<not> d_symlink (db_disk s1)"
    using 2(2) assms(4) by (auto simp: torn_rep_def)
  define s2 where "s2 = s1\<lparr>db_wal_file := True, db_disk := (db_disk s1)\<lparr>d_wal := Some ((a @ ?t) @ frame y)\<rparr>,
    db_write_pos := db_write_pos s1 + frame_size y\<rparr>"
  have 3: "append y s1 = (Inr 0, s2)"
    unfolding s2_def by (rule append_room [OF s1(1,2)]) (use s1 2(3) assms(6) in simp)
  have raw: "raw_rep s2 a (?h @ take k x @ frame y)"
    using s1 assms(4) by (auto simp: raw_rep_def s2_def frame_size_eq healthy_faults)
  have "\<exists>s4. if k + frame_size y < length x then drain_next s2 = (Inr None, s4) \<and> is_empty s4
     else drain_next s2 = (Inr (Some (take k x @ take (length x - k) (frame y))), s4)"
  proof (cases "k + frame_size y < length x")
    case True
    then have "length (take k x @ frame y) < length x" using assms(4) by (simp add: frame_size_eq)
    from drain_short [OF raw assms(3) this] True db_rep_buffered show ?thesis by fastforce
  next
    case False
    let ?g = "take k x @ take (length x - k) (frame y)" and ?s3 = "s2\<lparr>db_reader := Some (db_read_pos s2 + 4)\<rparr>"
    have s2: "healthy s2" "db_read_pos s2 = length a" "wal_bytes s2 = a @ ?h @ take k x @ frame y"
      "db_write_pos s2 = length a + (4 + k + frame_size y)"
      using raw assms(4) by (simp_all add: raw_rep_def wal_bytes_def frame_size_eq)
    have len: "length ?g = length x" using assms(4) False by (simp add: frame_size_eq)
    have "wal_bytes ?s3 = (a @ ?h) @ ?g @ drop (length x - k) (frame y)"
      using s2(3) append_take_drop_id [of "length x - k" "frame y"] by (simp del: append_take_drop_id)
    moreover have "db_reader ?s3 = Some (length (a @ ?h))" "healthy ?s3" using s2(1,2) by simp_all
    ultimately have "reader_read (length x) ?s3 = (Inr ?g, ?s3\<lparr>db_reader := Some (length (a @ ?h) + length x)\<rparr>)"
      using len by (intro reader_read_open [where post = "drop (length x - k) (frame y)"]) simp_all
    then show ?thesis
      using assms(3) s2(2,4) raw_header [OF raw assms(3)] False
      by (simp add: drain_next_def Let_def io_simps FRAME_HEADER_LEN_def frame_ok_def)
  qed
  with 1 2(1) 3 show ?thesis by blast
qed

theorem torn_tail_swallows_append_witness:
  "\<exists>s' s1 s2 s3. append [1, 2, 3] (with_faults [Fine, Fail 1] (sample_db 100 [])) = (Inl OtherIo, s') \<and>
    open_buffer 100 (after_kill s') = (Inr (), s1) \<and> append [7, 8] s1 = (Inr 0, s2) \<and>
    drain_next s2 = (Inr (Some [1, 2, 0]), s3)"
proof -
  have "u32_le (as_u32 (Suc (Suc 0))) = [2, 0, 0, 0]" by code_simp
  then show ?thesis
    using torn_tail_swallows_append [OF sample_db_rep [where m = 100], where x = "[1, 2, 3]" and k = 1 and y = "[7, 8]" and m = 100]
    by (simp add: sample_db_def frame_ok_def MAX_FRAME_LEN_def frame_size_eq frame_def)
qed

end
