(* ===== verification/Swar.thy ===== *)
theory Swar
  imports Tell_Prelude
begin

section \<open>Eight bytes at a time\<close>

text \<open>
  The word trick of \<open>key_is_plain_fast\<close>: subtracting the same small number from all eight
  bytes of a word borrows into the top bit of a byte exactly from the lowest byte that is
  too small on, so that some byte is below \<open>n\<close> just when a masked word is not zero.
\<close>

lemma bit_byte_int:
  fixes x :: int
  assumes "0 \<le> b" "b < 256"
  shows "bit (b + 256 * x) j = (if j < 8 then bit b j else bit x (j - 8))"
proof (cases "j < 8")
  case True
  then obtain k where j: "8 = Suc (j + k)" using less_iff_Suc_add by blast
  have "(256 :: int) = 2 ^ 8" by simp
  also have "\<dots> = 2 ^ j * (2 * 2 ^ k)" unfolding j by (simp add: power_add)
  finally have "b + 256 * x = b + 2 ^ j * (2 * 2 ^ k * x)" by (simp add: mult.assoc)
  then have "(b + 256 * x) div 2 ^ j = 2 * 2 ^ k * x + b div 2 ^ j"
    by (simp only: div_mult_self2 [of "2 ^ j :: int", OF power_not_zero [OF zero_neq_numeral [symmetric]]])
  then show ?thesis using True by (simp add: bit_iff_odd)
next
  case False
  then obtain k where j: "j = 8 + k" using le_Suc_ex not_less by blast
  have "(b + 256 * x) div 2 ^ j = x div 2 ^ k"
    using assms by (simp add: j power_add zdiv_zmult2_eq)
  then show ?thesis by (simp add: bit_iff_odd j)
qed

lemma int_nat_le_Cons: "int (nat_le (b # bs)) = uint b + 256 * int (nat_le bs)"
  by simp

lemma bit_nat_le:
  "i < length bs \<Longrightarrow> r < 8 \<Longrightarrow> bit (int (nat_le bs)) (8 * i + r) = bit (uint (bs ! i)) r"
proof (induction bs arbitrary: i)
  case (Cons b bs)
  have b: "0 \<le> uint b" "uint b < 256" using uint_lt2p [of b] by simp_all
  show ?case
    unfolding int_nat_le_Cons bit_byte_int [OF b]
    using Cons by (cases i) auto
qed simp

definition ones :: "nat \<Rightarrow> int" where "ones k = int (nat_le (replicate k 1))"

lemma ones_simps: "ones 0 = 0" "ones (Suc k) = 1 + 256 * ones k"
  by (simp_all add: ones_def)

lemma swar_int:
  assumes "0 < n" "n \<le> 128"
  shows "(\<exists>i < length bs. bit ((int (nat_le bs) - n * ones (length bs)) mod 256 ^ length bs) (8 * i + 7) \<and>
     \<not> bit (int (nat_le bs)) (8 * i + 7)) \<longleftrightarrow> (\<exists>b \<in> set bs. uint b < n)"
proof (induction bs)
  case (Cons b bs)
  let ?k = "length bs"
  define X where "X = int (nat_le bs) - n * ones ?k"
  have b: "0 \<le> uint b" "uint b < 256" using uint_lt2p [of b] by simp_all
  have bit7: "0 \<le> x \<Longrightarrow> x < 256 \<Longrightarrow> bit x 7 \<longleftrightarrow> 128 \<le> x" for x :: int
  proof -
    assume "0 \<le> x" "x < 256"
    then have "x div 128 = (if 128 \<le> x then 1 else 0)" by auto
    then show ?thesis by (simp add: bit_iff_odd)
  qed
  have shift: "bit (r + 256 * y) (8 * Suc i + 7) = bit y (8 * i + 7)" "bit (r + 256 * y) (8 * 0 + 7) = bit r 7"
    if "0 \<le> r" "r < 256" for r y :: int and i
    using that by (simp_all add: bit_byte_int add.commute)
  have D: "(int (nat_le (b # bs)) - n * ones (length (b # bs))) = (uint b - n) + 256 * X"
    by (simp add: X_def ones_simps algebra_simps)
  have modm: "(r + 256 * y) mod 256 ^ Suc ?k = r + 256 * (y mod 256 ^ ?k)"
    if "0 \<le> r" "r < 256" for r y :: int
  proof -
    have "(r + 256 * y) mod (256 * 256 ^ ?k) = 256 * ((r + 256 * y) div 256 mod 256 ^ ?k) + (r + 256 * y) mod 256"
      by (rule zmod_zmult2_eq) simp
    then show ?thesis using that by simp
  qed
  have step: "(int (nat_le (b # bs)) - n * ones (length (b # bs))) mod 256 ^ length (b # bs) =
      r + 256 * (y mod 256 ^ ?k)" if "0 \<le> r" "r < 256" "uint b - n + 256 * X = r + 256 * y" for r y :: int
    unfolding D that(3) unfolding length_Cons by (rule modm [OF that(1,2)])
  have goal: "?case \<longleftrightarrow> (bit r 7 \<and> \<not> bit (uint b) 7 \<or> (\<exists>i<?k. bit (y mod 256 ^ ?k) (8 * i + 7) \<and>
      \<not> bit (int (nat_le bs)) (8 * i + 7))) = (uint b < n \<or> (\<exists>b \<in> set bs. uint b < n))"
    if "0 \<le> r" "r < 256" "uint b - n + 256 * X = r + 256 * y" for r y :: int
    unfolding step [OF that] unfolding length_Cons Ex_less_Suc2 int_nat_le_Cons shift [OF that(1,2)] shift [OF b] by simp
  show ?case
  proof (cases "n \<le> uint b")
    case True
    then have r: "0 \<le> uint b - n" "uint b - n < 256" using b assms by simp_all
    have "\<not> (bit (uint b - n) 7 \<and> \<not> bit (uint b) 7)"
      using bit7 [OF r] bit7 [OF b] assms by simp
    with True Cons.IH show ?thesis unfolding goal [OF r refl] X_def by auto
  next
    case False
    then have r: "0 \<le> uint b - n + 256" "uint b - n + 256 < 256" "128 \<le> uint b - n + 256" using b assms by linarith+
    have "bit (uint b - n + 256) 7 \<and> \<not> bit (uint b) 7"
      using bit7 [OF r(1,2)] bit7 [OF b] r(3) False assms by simp
    with False show ?thesis by (subst goal [OF r(1,2), of "X - 1"]) simp_all
  qed
qed simp

definition LO :: u64 where "LO = 0x0101010101010101"
definition HI :: u64 where "HI = 0x8080808080808080"

lemma uint_le_u64: "length bs = 8 \<Longrightarrow> uint (le_u64 bs) = int (nat_le bs)"
proof -
  assume "length bs = 8"
  then have "nat_le bs < 256 ^ 8" using nat_le_bound [of bs] by simp
  then have "unat (le_u64 bs) = nat_le bs" by (simp add: le_u64_def unat_of_nat)
  then show ?thesis by (metis uint_nat)
qed

lemma replicate_8: "replicate 8 x = [x, x, x, x, x, x, x, x]"
  by (simp add: eval_nat_numeral)

lemma uint_LO: "uint LO = ones 8" "uint HI = int (nat_le (replicate 8 128))"
  unfolding LO_def HI_def ones_def replicate_8 by simp_all

lemma bit_HI: "j < 64 \<Longrightarrow> bit HI j \<longleftrightarrow> j mod 8 = 7"
proof -
  assume j: "j < 64"
  have "bit (128 :: int) r \<longleftrightarrow> r = 7" for r
    using bit_exp_iff [of 7 r, where 'a = int] by simp
  then have "bit (uint HI) (8 * (j div 8) + j mod 8) \<longleftrightarrow> j mod 8 = 7"
    unfolding uint_LO by (subst bit_nat_le) (use j in simp_all)
  then show ?thesis using j by (simp add: bit_uint_iff)
qed

lemma swar:
  assumes "length bs = 8" "uint N = n * ones 8" "0 < n" "n \<le> 128"
  shows "(le_u64 bs - N) AND NOT (le_u64 bs) AND HI = 0 \<longleftrightarrow> (\<forall>b \<in> set bs. n \<le> uint b)"
proof -
  let ?w = "le_u64 bs"
  have "uint (?w - N) = (int (nat_le bs) - n * ones (length bs)) mod 256 ^ length bs"
    using assms by (simp add: uint_word_ariths(2) uint_le_u64)
  moreover have "bit v j = bit (uint v) j" if "j < 64" for v :: u64 and j
    using that by (simp add: bit_uint_iff)
  ultimately have bits: "bit (?w - N) j = bit ((int (nat_le bs) - n * ones (length bs)) mod 256 ^ length bs) j"
    "bit ?w j = bit (int (nat_le bs)) j" if "j < 64" for j
    using that uint_le_u64 [OF assms(1)] by metis+
  have "(?w - N) AND NOT ?w AND HI \<noteq> 0 \<longleftrightarrow> (\<exists>j<64. bit (?w - N) j \<and> \<not> bit ?w j \<and> j mod 8 = 7)"
    by (auto simp: bit_eq_iff bit_and_iff bit_not_iff bit_HI)
  also have "\<dots> \<longleftrightarrow> (\<exists>i<8. bit (?w - N) (8 * i + 7) \<and> \<not> bit ?w (8 * i + 7))"
  proof (intro iffI; elim exE conjE)
    fix j :: nat assume j: "j < 64" "bit (?w - N) j" "\<not> bit ?w j" "j mod 8 = 7"
    then have "8 * (j div 8) + 7 = j" by presburger
    with j show "\<exists>i<8. bit (?w - N) (8 * i + 7) \<and> \<not> bit ?w (8 * i + 7)"
      by (intro exI [of _ "j div 8"]) auto
  next
    fix i :: nat assume "i < 8" "bit (?w - N) (8 * i + 7)" "\<not> bit ?w (8 * i + 7)"
    then show "\<exists>j<64. bit (?w - N) j \<and> \<not> bit ?w j \<and> j mod 8 = 7"
      by (intro exI [of _ "8 * i + 7"]) simp
  qed
  also have "\<dots> \<longleftrightarrow> (\<exists>i<length bs. bit ((int (nat_le bs) - n * ones (length bs)) mod 256 ^ length bs) (8 * i + 7) \<and>
      \<not> bit (int (nat_le bs)) (8 * i + 7))"
    using bits assms(1) by auto
  also have "\<dots> \<longleftrightarrow> (\<exists>b \<in> set bs. uint b < n)"
    by (rule swar_int [OF assms(3,4)])
  finally show ?thesis by (simp only: not_less [symmetric]) blast
qed

lemma int_nat_le_xor:
  "length xs = length ys \<Longrightarrow> int (nat_le (map2 (XOR) xs ys)) = int (nat_le xs) XOR int (nat_le ys)"
proof (induction xs ys rule: list_induct2)
  case (Cons x xs y ys)
  have b: "0 \<le> uint z" "uint z < 256" for z :: u8 using uint_lt2p [of z] by simp_all
  show ?case
    unfolding zip_Cons_Cons list.map case_prod_conv int_nat_le_Cons Cons.IH
    by (rule bit_eqI) (simp only: bit_byte_int [OF b] bit_xor_iff, simp add: uint_xor bit_xor_iff)
qed simp

lemma le_u64_xor:
  assumes "length bs = 8"
  shows "le_u64 (map (\<lambda>b. b XOR c) bs) = le_u64 bs XOR le_u64 (replicate 8 c)"
proof -
  have "map (\<lambda>b. b XOR c) bs = map2 (XOR) bs (replicate 8 c)"
    using assms by (simp add: map2_map_map [of "(XOR)", symmetric] zip_replicate2 comp_def)
  then have "uint (le_u64 (map (\<lambda>b. b XOR c) bs)) = uint (le_u64 bs XOR le_u64 (replicate 8 c))"
    using assms by (simp add: uint_le_u64 uint_xor int_nat_le_xor)
  then show ?thesis by (rule iffD2 [OF word_uint_eq_iff])
qed

end
