(* ===== verification/Props_Builder.thy ===== *)
theory Props_Builder
  imports Swar Wire_Types "HOL-Library.Monad_Syntax"
begin

section \<open>Property payloads (\<open>props.rs\<close>, \<open>payload.rs\<close>)\<close>

text \<open>
  The \<open>Props\<close> builder, the \<open>JsonObject\<close> writer and the key scans. A value is the bytes
  \<open>serde_json::to_writer\<close> writes for it; the JSON escape of a key that is not plain is the
  parameter \<open>esc\<close>, the same serializer applied to a string.
\<close>

subsection \<open>Key scans\<close>

definition plain_byte :: "u8 \<Rightarrow> bool" where
  "plain_byte c \<longleftrightarrow> \<not> (c < 0x20 \<or> c = 0x22 \<or> c = 0x5C)"

fun key_is_plain :: "bytes \<Rightarrow> bool" where
  "key_is_plain [] = True"
| "key_is_plain (c # bytes) =
     (if c < 0x20 \<or> c = 0x22 \<or> c = 0x5C then False else key_is_plain bytes)"

definition QUOTE :: u64 where "QUOTE = LO * 0x22"
definition BACKSLASH :: u64 where "BACKSLASH = LO * 0x5C"
definition SPACE :: u64 where "SPACE = LO * 0x20"

definition chunk_bad :: "bytes \<Rightarrow> u64" where
  "chunk_bad chunk =
    (let w = le_u64 chunk;
         below_space = (w - SPACE) AND NOT w AND HI;
         q = w XOR QUOTE;
         has_quote = (q - LO) AND NOT q AND HI;
         b = w XOR BACKSLASH;
         has_backslash = (b - LO) AND NOT b AND HI
     in below_space OR has_quote OR has_backslash)"

text \<open>The loop over \<open>chunks_exact(8)\<close>: the accumulated word and the remainder.\<close>

function scan_chunks :: "bytes \<Rightarrow> u64 \<Rightarrow> u64 \<times> bytes" where
  "scan_chunks bytes bad =
     (if length bytes < 8 then (bad, bytes)
      else scan_chunks (drop 8 bytes) (bad OR chunk_bad (take 8 bytes)))"
  by pat_completeness auto
termination by (relation "measure (length \<circ> fst)") auto

declare scan_chunks.simps [simp del]

definition key_is_plain_fast :: "bytes \<Rightarrow> bool" where
  "key_is_plain_fast key =
    (let (bad, remainder) = scan_chunks key 0;
         tail_ok = foldl (\<lambda>ok c. ok \<and> 0x20 \<le> c \<and> c \<noteq> 0x22 \<and> c \<noteq> 0x5C) True remainder
     in bad = 0 \<and> tail_ok)"

lemma key_is_plain_all: "key_is_plain key \<longleftrightarrow> list_all plain_byte key"
  by (induction key) (auto simp: plain_byte_def)

lemma tail_ok_all:
  "foldl (\<lambda>ok c. ok \<and> 0x20 \<le> c \<and> c \<noteq> 0x22 \<and> c \<noteq> 0x5C) b bs \<longleftrightarrow> b \<and> list_all plain_byte (bs :: bytes)"
  by (induction bs arbitrary: b) (auto simp: plain_byte_def not_less)

lemma word_or_eq_0: "(x :: u64) OR y = 0 \<longleftrightarrow> x = 0 \<and> y = 0"
  by (auto simp: bit_eq_iff bit_or_iff)

lemma uint_SPACE: "uint SPACE = 0x20 * ones 8"
  unfolding uint_LO(1) [symmetric] SPACE_def LO_def by simp

lemma QUOTE_bytes: "QUOTE = le_u64 (replicate 8 0x22)" "BACKSLASH = le_u64 (replicate 8 0x5C)"
  unfolding QUOTE_def BACKSLASH_def LO_def le_u64_def replicate_8 by simp_all

lemma has_byte:
  assumes "length bs = 8"
  shows "((le_u64 bs XOR le_u64 (replicate 8 c)) - LO) AND NOT (le_u64 bs XOR le_u64 (replicate 8 c)) AND HI = 0
    \<longleftrightarrow> c \<notin> set bs"
proof -
  have "((le_u64 bs XOR le_u64 (replicate 8 c)) - LO) AND NOT (le_u64 bs XOR le_u64 (replicate 8 c)) AND HI = 0
      \<longleftrightarrow> (\<forall>b \<in> set (map (\<lambda>b. b XOR c) bs). 1 \<le> uint b)"
    unfolding le_u64_xor [OF assms, symmetric] by (rule swar) (use assms in \<open>simp_all add: uint_LO\<close>)
  also have "\<dots> \<longleftrightarrow> (\<forall>b \<in> set bs. b XOR c \<noteq> 0)"
  proof -
    have "1 \<le> uint x \<longleftrightarrow> x \<noteq> 0" for x :: u8
      by (metis int_one_le_iff_zero_less less_le uint_ge_0 uint_0_iff)
    then show ?thesis by simp
  qed
  also have "\<dots> \<longleftrightarrow> c \<notin> set bs"
  proof -
    have "x XOR y = 0 \<longleftrightarrow> x = y" for x y :: u8
      by (auto simp: bit_eq_iff bit_xor_iff)
    then show ?thesis by auto
  qed
  finally show ?thesis .
qed

lemma chunk_bad_iff: "length bs = 8 \<Longrightarrow> chunk_bad bs = 0 \<longleftrightarrow> list_all plain_byte bs"
  unfolding chunk_bad_def Let_def word_or_eq_0 QUOTE_bytes
  using swar [of bs SPACE "0x20"]
  by (auto simp: has_byte uint_SPACE list_all_iff plain_byte_def word_less_def not_less)

lemma scan_chunks_plain:
  "scan_chunks key bad = (b, rest) \<Longrightarrow> b = 0 \<and> list_all plain_byte rest \<longleftrightarrow> bad = 0 \<and> list_all plain_byte key"
proof (induction key bad rule: scan_chunks.induct)
  case (1 key bad)
  show ?case
  proof (cases "length key < 8")
    case False
    have "list_all plain_byte key \<longleftrightarrow> list_all plain_byte (take 8 key) \<and> list_all plain_byte (drop 8 key)"
      by (metis append_take_drop_id list_all_append)
    with False 1 show ?thesis
      by (auto simp: scan_chunks.simps [of key] word_or_eq_0 chunk_bad_iff)
  qed (use 1 in \<open>auto simp: scan_chunks.simps [of key]\<close>)
qed

lemma key_fast: "key_is_plain_fast key = key_is_plain key"
  using scan_chunks_plain [of key 0]
  by (auto simp: key_is_plain_fast_def key_is_plain_all tail_ok_all split: prod.split)

text \<open>
  C30: the word-at-a-time scan accepts exactly the keys the byte-at-a-time scan accepts.
\<close>

theorem key_is_plain_fast_correct: "key_is_plain_fast key = key_is_plain key"
  by (rule key_fast)

subsection \<open>The builder\<close>

record Props =
  pr_buf :: bytes
  pr_count :: nat

definition props_new :: Props where
  "props_new = \<lparr>pr_buf = [], pr_count = 0\<rparr>"

definition props_default :: Props where "props_default = props_new"

definition props_separator :: "Props \<Rightarrow> Props" where
  "props_separator p = p\<lparr>pr_buf := pr_buf p @ (if pr_count p = 0 then [0x7B] else [0x2C])\<rparr>"

definition props_add :: "(str \<Rightarrow> bytes) \<Rightarrow> Props \<Rightarrow> str \<Rightarrow> bytes \<Rightarrow> Props" where
  "props_add esc p key value =
    (let p = props_separator p;
         p = (if key_is_plain_fast key
              then p\<lparr>pr_buf := pr_buf p @ [0x22] @ key @ [0x22, 0x3A]\<rparr>
              else p\<lparr>pr_buf := pr_buf p @ esc key @ [0x3A]\<rparr>)
     in p\<lparr>pr_buf := pr_buf p @ value, pr_count := pr_count p + 1\<rparr>)"

definition props_add_plain :: "Props \<Rightarrow> str \<Rightarrow> bytes \<Rightarrow> Props" where
  "props_add_plain p key value =
    (let p = props_separator p;
         p = p\<lparr>pr_buf := pr_buf p @ [0x22] @ key @ [0x22, 0x3A]\<rparr>
     in p\<lparr>pr_buf := pr_buf p @ value, pr_count := pr_count p + 1\<rparr>)"

definition props_finish :: "Props \<Rightarrow> bytes" where
  "props_finish p = (if pr_count p = 0 then pr_buf p @ [0x7B, 0x7D] else pr_buf p @ [0x7D])"

text \<open>
  The implementations of \<open>IntoPayload\<close>: the builder, an optional value and a
  \<open>serde_json::Value\<close> (given by what \<open>serde_json::to_vec\<close> returns), and the unit.
\<close>

datatype payload_arg = PProps Props | POption "(bytes option) option" | PValue "bytes option" | PUnit

fun into_payload :: "payload_arg \<Rightarrow> bytes option" where
  "into_payload (PProps p) = Some (props_finish p)"
| "into_payload (POption v) = Option.bind v (\<lambda>json. json)"
| "into_payload (PValue json) = json"
| "into_payload PUnit = None"

text \<open>
  The macro \<open>props!\<close>: pairs whose key is a literal go through \<open>add_plain\<close> after a check at
  compile time, whose failure is \<open>None\<close>; other keys go through \<open>add\<close>.
\<close>

datatype prop_key = LiteralKey str | ExprKey str

fun props_inner :: "(str \<Rightarrow> bytes) \<Rightarrow> Props \<Rightarrow> (prop_key \<times> bytes) list \<Rightarrow> Props option" where
  "props_inner esc b [] = Some b"
| "props_inner esc b ((LiteralKey key, value) # rest) =
     (if key_is_plain key then props_inner esc (props_add_plain b key value) rest else None)"
| "props_inner esc b ((ExprKey key, value) # rest) = props_inner esc (props_add esc b key value) rest"

definition props_macro :: "(str \<Rightarrow> bytes) \<Rightarrow> (prop_key \<times> bytes) list \<Rightarrow> Props option" where
  "props_macro esc kvs = props_inner esc props_new kvs"

subsection \<open>The object writer\<close>

definition object_inner :: "bytes option \<Rightarrow> bytes option" where
  "object_inner bytes = do {
     b \<leftarrow> bytes;
     if 2 < length b \<and> hd b = 0x7B \<and> last b = 0x7D then Some (take (length b - 2) (drop 1 b)) else None }"

type_synonym JsonObject = bytes

definition json_new :: JsonObject where "json_new = [0x7B]"

definition json_separator :: "JsonObject \<Rightarrow> JsonObject" where
  "json_separator buf = (if 1 < length buf then buf @ [0x2C] else buf)"

definition json_field :: "JsonObject \<Rightarrow> bytes \<Rightarrow> bytes \<Rightarrow> JsonObject" where
  "json_field buf key_colon value = json_separator buf @ key_colon @ value"

definition json_fragment :: "JsonObject \<Rightarrow> bytes \<Rightarrow> JsonObject" where
  "json_fragment buf frag = (if frag = [] then buf else json_separator buf @ frag)"

definition json_object :: "JsonObject \<Rightarrow> bytes option \<Rightarrow> JsonObject" where
  "json_object buf obj = (case object_inner obj of Some inner \<Rightarrow> json_separator buf @ inner | None \<Rightarrow> buf)"

definition json_finish :: "JsonObject \<Rightarrow> bytes" where
  "json_finish buf = buf @ [0x7D]"

subsection \<open>The text of an object with given members\<close>

text \<open>
  \<open>object_text ms\<close> is the JSON object whose members are the texts \<open>ms\<close>. Both builders
  hold, at every moment, an open object over the members given so far.
\<close>

fun join_members :: "bytes list \<Rightarrow> bytes" where
  "join_members [] = []"
| "join_members [m] = m"
| "join_members (m # ms) = m @ [0x2C] @ join_members ms"

definition object_text :: "bytes list \<Rightarrow> bytes" where
  "object_text ms = [0x7B] @ join_members ms @ [0x7D]"

definition key_text :: "(str \<Rightarrow> bytes) \<Rightarrow> str \<Rightarrow> bytes" where
  "key_text esc key = (if key_is_plain key then [0x22] @ key @ [0x22] else esc key)"

definition member_text :: "(str \<Rightarrow> bytes) \<Rightarrow> str \<times> bytes \<Rightarrow> bytes" where
  "member_text esc kv = key_text esc (fst kv) @ [0x3A] @ snd kv"

lemma join_members_snoc:
  "join_members (ms @ [m]) = (if ms = [] then m else join_members ms @ [0x2C] @ m)"
  by (induction ms rule: join_members.induct) auto

lemma join_members_append:
  "join_members (xs @ ys) =
     (if xs = [] then join_members ys else if ys = [] then join_members xs
      else join_members xs @ [0x2C] @ join_members ys)"
proof (induction ys rule: rev_induct)
  case (snoc y ys)
  then show ?case
    by (cases "ys = []") (simp_all add: join_members_snoc append_assoc [symmetric] del: append_assoc)
qed simp

lemma join_members_Nil: "[] \<notin> set ms \<Longrightarrow> join_members ms = [] \<longleftrightarrow> ms = []"
  by (cases ms rule: join_members.cases) auto

definition props_rep :: "Props \<Rightarrow> bytes list \<Rightarrow> bool" where
  "props_rep p ms \<longleftrightarrow> pr_count p = length ms \<and>
     pr_buf p = (if ms = [] then [] else [0x7B] @ join_members ms)"

lemma props_new_rep: "props_rep props_new []"
  by (simp add: props_rep_def props_new_def)

lemma props_add_rep:
  "props_rep p ms \<Longrightarrow> props_rep (props_add esc p k v) (ms @ [member_text esc (k, v)])"
  "props_rep p ms \<Longrightarrow> key_is_plain k \<Longrightarrow> props_rep (props_add_plain p k v) (ms @ [member_text esc (k, v)])"
  by (simp_all add: props_rep_def props_add_def props_add_plain_def props_separator_def Let_def
      join_members_snoc member_text_def key_text_def key_fast)

lemma props_finish_rep: "props_rep p ms \<Longrightarrow> props_finish p = object_text ms"
  by (cases ms) (simp_all add: props_rep_def props_finish_def object_text_def)

definition json_rep :: "JsonObject \<Rightarrow> bytes list \<Rightarrow> bool" where
  "json_rep b ms \<longleftrightarrow> [] \<notin> set ms \<and> b = [0x7B] @ join_members ms"

lemma json_new_rep: "json_rep json_new []"
  by (simp add: json_rep_def json_new_def)

lemma json_separator_rep:
  "json_rep b ms \<Longrightarrow> xs \<noteq> [] \<Longrightarrow> [] \<notin> set xs \<Longrightarrow>
     json_rep (json_separator b @ join_members xs) (ms @ xs)"
  by (auto simp: json_rep_def json_separator_def join_members_append join_members_Nil)

lemma json_field_rep: "json_rep b ms \<Longrightarrow> k \<noteq> [] \<Longrightarrow> json_rep (json_field b k v) (ms @ [k @ v])"
  using json_separator_rep [of b ms "[k @ v]"] by (simp add: json_field_def)

lemma json_fragment_rep:
  "json_rep b ms \<Longrightarrow> [] \<notin> set xs \<Longrightarrow> json_rep (json_fragment b (join_members xs)) (ms @ xs)"
  using json_separator_rep [of b ms xs] join_members_Nil [of xs]
  by (cases "xs = []") (simp_all add: json_fragment_def)

lemma object_inner_text:
  "[] \<notin> set ms \<Longrightarrow> object_inner (Some (object_text ms)) = (if ms = [] then None else Some (join_members ms))"
  using join_members_Nil [of ms] by (auto simp: object_inner_def object_text_def)

lemma json_object_rep:
  "json_rep b ms \<Longrightarrow> [] \<notin> set xs \<Longrightarrow> json_rep (json_object b (Some (object_text xs))) (ms @ xs)"
  using json_separator_rep [of b ms xs]
  by (cases "xs = []") (simp_all add: json_object_def object_inner_text)

lemma json_object_None: "json_object b None = b"
  by (simp add: json_object_def object_inner_def)

lemma json_finish_rep: "json_rep b ms \<Longrightarrow> json_finish b = object_text ms"
  by (simp add: json_rep_def json_finish_def object_text_def)

definition add_all :: "(str \<Rightarrow> bytes) \<Rightarrow> (str \<times> bytes) list \<Rightarrow> Props" where
  "add_all esc kvs = foldl (\<lambda>p (k, v). props_add esc p k v) props_new kvs"

lemma add_all_rep: "props_rep (add_all esc kvs) (map (member_text esc) kvs)"
  by (induction kvs rule: rev_induct) (auto simp: add_all_def props_new_rep props_add_rep)

lemma member_text_not_Nil: "[] \<notin> set (map (member_text esc) kvs)"
  by (auto simp: member_text_def)

text \<open>
  Whatever pairs are added, the builder returns one well-formed object: the members in the
  order of the calls, separated by commas, each a quoted key, a colon and its value; no pair
  gives the empty object.
\<close>

lemma props_build_text:
  "into_payload (PProps (foldl (\<lambda>p (k, v). props_add esc p k v) props_new kvs)) =
     Some (object_text (map (member_text esc) kvs))"
  using props_finish_rep [OF add_all_rep [of esc kvs]] by (simp add: add_all_def)

lemma add_plain_is_add: "key_is_plain key \<Longrightarrow> props_add_plain p key value = props_add esc p key value"
  by (simp add: props_add_plain_def props_add_def key_fast)

fun key_name :: "prop_key \<Rightarrow> str" where
  "key_name (LiteralKey k) = k"
| "key_name (ExprKey k) = k"

fun checked_key :: "prop_key \<Rightarrow> bool" where
  "checked_key (LiteralKey k) = key_is_plain k"
| "checked_key (ExprKey k) = True"

lemma props_inner_adds:
  "props_inner esc b kvs =
    (if list_all (checked_key \<circ> fst) kvs
     then Some (foldl (\<lambda>p (k, v). props_add esc p k v) b (map (apfst key_name) kvs)) else None)"
proof (induction esc b kvs rule: props_inner.induct)
  case (2 esc b key v rest)
  then show ?case using add_plain_is_add [of key b v esc] by simp
qed simp_all

text \<open>
  A \<open>props!\<close> with a literal key that would need escaping does not compile; any other
  gives one well-formed object, the members in the order written, the keys that are not literals
  escaped where they have to be. The scan a literal key skips would have changed nothing.
\<close>

theorem props_macro_text:
  "map_option (\<lambda>p. into_payload (PProps p)) (props_macro esc kvs) =
    (if list_all (checked_key \<circ> fst) kvs
     then Some (Some (object_text (map (member_text esc) (map (apfst key_name) kvs)))) else None)"
  by (simp add: props_macro_def props_inner_adds props_build_text del: into_payload.simps)

text \<open>A reader of the rest of a JSON string that has no escapes, after its opening quote.\<close>

fun read_string :: "bytes \<Rightarrow> (bytes \<times> bytes) option" where
  "read_string [] = None"
| "read_string (c # cs) =
     (if c = 0x22 then Some ([], cs)
      else if c = 0x5C \<or> c < 0x20 then None
      else map_option (apfst ((#) c)) (read_string cs))"

lemma read_string_plain: "read_string (key @ 0x22 # rest) = Some (key, rest) \<longleftrightarrow> key_is_plain key"
  by (induction key) auto

text \<open>
  The scan admits exactly the keys that may be copied verbatim: a JSON reader of the
  quoted key gives the key back, and stops at the closing quote, just when the scan accepts.
\<close>

theorem plain_key_reads_back:
  "key_is_plain_fast key \<longleftrightarrow> read_string (key @ [0x22] @ rest) = Some (key, rest)"
  by (simp add: key_fast read_string_plain)

end
