(* ===== verification/Config.thy ===== *)
theory Config
  imports Wire_Types Disk_Buffer
begin

section \<open>Errors, validation and configuration (\<open>error.rs\<close>, \<open>validation.rs\<close>, \<open>config.rs\<close>)\<close>

text \<open>
  \<open>TellError\<close> with its constructors, the validators that return it, and the configuration
  builder. Messages are HOL strings; a name that comes from the caller stays a byte list.
  Durations are nanoseconds.
\<close>

subsection \<open>Errors\<close>

datatype TellError =
    Configuration string
  | Validation string string
  | Network string
  | Closed
  | IoError io_error
  | Serialization string
  | BufferError string
  | QueueFull u64

text \<open>The constructors by function, as the rest of the crate calls them.\<close>

definition make_configuration :: "string \<Rightarrow> TellError" where "make_configuration msg = Configuration msg"
definition make_validation :: "string \<Rightarrow> string \<Rightarrow> TellError" where "make_validation fld reason = Validation fld reason"
definition make_network :: "string \<Rightarrow> TellError" where "make_network msg = Network msg"
definition make_buffer :: "string \<Rightarrow> TellError" where "make_buffer msg = BufferError msg"

text \<open>Decimal text of a number, as \<open>format!\<close> writes it.\<close>

fun show_nat :: "nat \<Rightarrow> string" where
  "show_nat n = (if n < 10 then [char_of (48 + n)] else show_nat (n div 10) @ [char_of (48 + n mod 10)])"

declare show_nat.simps [simp del]

subsection \<open>Validation\<close>

definition hex_val :: "u8 \<Rightarrow> u8 option" where
  "hex_val c =
    (if 0x30 \<le> c \<and> c \<le> 0x39 then Some (c - 0x30)
     else if 0x61 \<le> c \<and> c \<le> 0x66 then Some (c - 0x61 + 10)
     else if 0x41 \<le> c \<and> c \<le> 0x46 then Some (c - 0x41 + 10)
     else None)"

definition non_hex :: "u8 \<Rightarrow> TellError" where
  "non_hex c = Configuration (''apiKey contains non-hex character '' @ [CHR 0x27, char_of (unat c), CHR 0x27])"

text \<open>The loop over \<open>chunks(2)\<close>; the first digit that is not hexadecimal ends it.\<close>

fun decode_pairs :: "bytes \<Rightarrow> TellError + bytes" where
  "decode_pairs (a # b # cs) =
     (case hex_val a of None \<Rightarrow> Inl (non_hex a)
      | Some hi \<Rightarrow>
        (case hex_val b of None \<Rightarrow> Inl (non_hex b)
         | Some lo \<Rightarrow>
           (case decode_pairs cs of Inl e \<Rightarrow> Inl e
            | Inr bs \<Rightarrow> Inr ((push_bit 4 hi OR lo) # bs))))"
| "decode_pairs _ = Inr []"

definition validate_and_decode_api_key :: "str \<Rightarrow> TellError + bytes" where
  "validate_and_decode_api_key api_key =
    (if length api_key \<noteq> 32
     then Inl (Configuration (''apiKey must be 32 hex characters, got '' @ show_nat (length api_key)))
     else decode_pairs api_key)"

definition validate_user_id :: "str \<Rightarrow> TellError + unit" where
  "validate_user_id user_id =
    (if user_id = [] then Inl (Validation ''userId'' ''is required'') else Inr ())"

definition validate_event_name :: "str \<Rightarrow> TellError + unit" where
  "validate_event_name name =
    (if name = [] then Inl (Validation ''eventName'' ''is required'')
     else if 256 < length name
     then Inl (Validation ''eventName'' (''must be at most 256 characters, got '' @ show_nat (length name)))
     else Inr ())"

definition validate_log_message :: "str \<Rightarrow> TellError + unit" where
  "validate_log_message message =
    (if message = [] then Inl (Validation ''message'' ''is required'')
     else if 65536 < length message
     then Inl (Validation ''message'' (''must be at most 65536 characters, got '' @ show_nat (length message)))
     else Inr ())"

text \<open>The two hexadecimal digits of a byte, in lower or upper case.\<close>

definition hex_digit :: "bool \<Rightarrow> u8 \<Rightarrow> u8" where
  "hex_digit upper d = (if d < 10 then 0x30 + d else if upper then 0x41 + (d - 10) else 0x61 + (d - 10))"

definition hex_pair :: "bool \<Rightarrow> u8 \<Rightarrow> bytes" where
  "hex_pair upper b = [hex_digit upper (drop_bit 4 b), hex_digit upper (b AND 0xF)]"

lemma hex_val_digit:
  assumes "d < 16"
  shows "hex_val (hex_digit u d) = Some d"
proof -
  have d: "unat d < 16" using assms by (simp add: word_less_nat_alt)
  have digit: "unat (hex_digit u d) = (if unat d < 10 then 48 + unat d else if u then 55 + unat d else 87 + unat d)"
    using d by (auto simp: hex_digit_def word_less_nat_alt unat_word_ariths)
  have shift: "(c :: u8) - 97 + 10 = c - 87" "(c :: u8) - 65 + 10 = c - 55" for c
    by simp_all
  have sub: "of_nat (unat (c :: u8) - k) = c - of_nat k" if "k \<le> unat c" for c k
    using that by (simp add: of_nat_diff)
  have val: "hex_val c = (if 48 \<le> unat c \<and> unat c \<le> 57 then Some (of_nat (unat c - 48))
      else if 97 \<le> unat c \<and> unat c \<le> 102 then Some (of_nat (unat c - 87))
      else if 65 \<le> unat c \<and> unat c \<le> 70 then Some (of_nat (unat c - 55)) else None)" for c
    unfolding hex_val_def shift word_le_nat_alt using sub [of 48 c] sub [of 87 c] sub [of 55 c] by simp
  have "of_nat (unat d) = d" by simp
  then show ?thesis
    using d unfolding val digit by (cases u) (simp_all del: of_nat_unat)
qed

lemma nibbles: "drop_bit 4 b < 16" "b AND 0xF < 16" "push_bit 4 (drop_bit 4 b) OR (b AND 0xF) = b" for b :: u8
proof -
  have m: "(0xF :: u8) = mask 4" by (simp add: mask_eq_exp_minus_1)
  show "b AND 0xF < 16"
    using and_mask_less' [of 4 b] unfolding m by simp
  have "unat (drop_bit 4 b) < 16"
    using unat_bounds(1) [of b] unfolding unat_drop_bit_eq by (simp add: drop_bit_eq_div less_mult_imp_div_less)
  then show "drop_bit 4 b < 16" by (simp add: word_less_nat_alt)
  show "push_bit 4 (drop_bit 4 b) OR (b AND 0xF) = b"
    unfolding m by (rule bit_word_eqI) (auto simp: bit_or_iff bit_push_bit_iff bit_drop_bit_eq bit_and_iff bit_mask_iff)
qed

lemma decode_hex_pairs: "decode_pairs (concat (map (hex_pair u) k)) = Inr k"
  by (induction k) (simp_all add: hex_pair_def hex_val_digit nibbles)

lemma decode_pairs_hex:
  "even (length s) \<Longrightarrow> \<not> isl (decode_pairs s) \<longleftrightarrow> list_all (\<lambda>c. hex_val c \<noteq> None) s"
  by (induction s rule: induct_list012) (auto split: option.splits sum.splits)

lemma decode_pairs_ok: "even (length s) \<Longrightarrow> (\<exists>k. decode_pairs s = Inr k) \<longleftrightarrow> list_all (\<lambda>c. hex_val c \<noteq> None) s"
  using decode_pairs_hex [of s] by (cases "decode_pairs s") auto

lemma decode_pairs_length: "decode_pairs s = Inr k \<Longrightarrow> length k = length s div 2"
  by (induction s arbitrary: k rule: decode_pairs.induct) (auto split: option.splits sum.splits)

text \<open>
  A 16-byte key written as 32 hexadecimal digits, in either case, decodes to itself;
  and a string is accepted just when it has 32 bytes, all hexadecimal digits.
\<close>

theorem api_key_roundtrip:
  assumes "length k = 16"
  shows "validate_and_decode_api_key (concat (map (hex_pair upper) k)) = Inr k \<and>
    ((\<exists>k'. validate_and_decode_api_key s = Inr k') \<longleftrightarrow> length s = 32 \<and> list_all (\<lambda>c. hex_val c \<noteq> None) s)"
proof
  have "length (concat (map (hex_pair upper) k)) = 2 * length k"
    by (induction k) (simp_all add: hex_pair_def)
  then show "validate_and_decode_api_key (concat (map (hex_pair upper) k)) = Inr k"
    using assms by (simp add: validate_and_decode_api_key_def decode_hex_pairs)
  show "(\<exists>k'. validate_and_decode_api_key s = Inr k') \<longleftrightarrow> length s = 32 \<and> list_all (\<lambda>c. hex_val c \<noteq> None) s"
    using decode_pairs_ok [of s] by (auto simp: validate_and_decode_api_key_def)
qed

theorem api_key_roundtrip_witness:
  "validate_and_decode_api_key (concat (map (hex_pair True) (zeros 16))) = Inr (zeros 16)"
  using api_key_roundtrip [of "zeros 16"] by simp

subsection \<open>Configuration\<close>

type_synonym duration = nat

definition from_secs :: "nat \<Rightarrow> duration" where "from_secs s = s * 1000000000"

text \<open>The bytes of \<open>collect.tell.rs:50000\<close> and \<open>localhost:50000\<close>.\<close>

definition str_of :: "string \<Rightarrow> str" where "str_of s = map (\<lambda>c. of_nat (of_char c)) s"

definition DEFAULT_ENDPOINT :: str where "DEFAULT_ENDPOINT = str_of ''collect.tell.rs:50000''"
definition DEV_ENDPOINT :: str where "DEV_ENDPOINT = str_of ''localhost:50000''"
definition DEFAULT_QUEUE_CAPACITY :: nat where "DEFAULT_QUEUE_CAPACITY = 10000"
definition DEFAULT_METRICS_INTERVAL :: duration where "DEFAULT_METRICS_INTERVAL = from_secs 15"

text \<open>
  The error callback is not part of the record: the model returns the errors the code reports
  to it. The other fields are those of the struct.
\<close>

record TellConfig =
  tc_api_key_bytes :: bytes
  tc_service :: "str option"
  tc_source :: "str option"
  tc_endpoint :: str
  tc_batch_size :: nat
  tc_flush_interval :: duration
  tc_max_retries :: u32
  tc_close_timeout :: duration
  tc_network_timeout :: duration
  tc_buffer_path :: "str option"
  tc_buffer_max_bytes :: nat
  tc_enable_session :: bool
  tc_queue_capacity :: nat
  tc_metrics_interval :: duration

text \<open>The fields \<open>Debug\<close> prints, in order, before the derived formatting of their values.\<close>

datatype debug_value =
    DebugStr str
  | DebugNum nat
  | DebugDuration duration
  | DebugPath "str option"
  | DebugBool bool

definition config_debug :: "TellConfig \<Rightarrow> (string \<times> debug_value) list" where
  "config_debug c =
    [(''endpoint'', DebugStr (tc_endpoint c)), (''batch_size'', DebugNum (tc_batch_size c)),
     (''flush_interval'', DebugDuration (tc_flush_interval c)), (''max_retries'', DebugNum (unat (tc_max_retries c))),
     (''close_timeout'', DebugDuration (tc_close_timeout c)), (''network_timeout'', DebugDuration (tc_network_timeout c)),
     (''buffer_path'', DebugPath (tc_buffer_path c)), (''buffer_max_bytes'', DebugNum (tc_buffer_max_bytes c)),
     (''enable_session'', DebugBool (tc_enable_session c)), (''queue_capacity'', DebugNum (tc_queue_capacity c)),
     (''metrics_interval'', DebugDuration (tc_metrics_interval c))]"

lemma config_debug_hides_key:
  "config_debug (c\<lparr>tc_api_key_bytes := key, tc_service := service, tc_source := source\<rparr>) = config_debug c"
  by (simp add: config_debug_def)

record TellConfigBuilder =
  cb_api_key :: str
  cb_service :: "str option"
  cb_source :: "str option"
  cb_endpoint :: "str option"
  cb_batch_size :: "nat option"
  cb_flush_interval :: "duration option"
  cb_max_retries :: "u32 option"
  cb_close_timeout :: "duration option"
  cb_network_timeout :: "duration option"
  cb_buffer_path :: "str option"
  cb_buffer_max_bytes :: "nat option"
  cb_enable_session :: bool
  cb_queue_capacity :: "nat option"
  cb_metrics_interval :: "duration option"

definition builder_new :: "str \<Rightarrow> TellConfigBuilder" where
  "builder_new api_key = \<lparr>cb_api_key = api_key, cb_service = None, cb_source = None, cb_endpoint = None,
     cb_batch_size = None, cb_flush_interval = None, cb_max_retries = None, cb_close_timeout = None,
     cb_network_timeout = None, cb_buffer_path = None, cb_buffer_max_bytes = None,
     cb_enable_session = False, cb_queue_capacity = None, cb_metrics_interval = None\<rparr>"

definition config_builder :: "str \<Rightarrow> TellConfigBuilder" where
  "config_builder api_key = builder_new api_key"

definition set_service :: "str \<Rightarrow> TellConfigBuilder \<Rightarrow> TellConfigBuilder" where
  "set_service name b = b\<lparr>cb_service := Some name\<rparr>"
definition set_source :: "str \<Rightarrow> TellConfigBuilder \<Rightarrow> TellConfigBuilder" where
  "set_source src b = b\<lparr>cb_source := Some src\<rparr>"
definition set_endpoint :: "str \<Rightarrow> TellConfigBuilder \<Rightarrow> TellConfigBuilder" where
  "set_endpoint endpoint b = b\<lparr>cb_endpoint := Some endpoint\<rparr>"
definition set_batch_size :: "nat \<Rightarrow> TellConfigBuilder \<Rightarrow> TellConfigBuilder" where
  "set_batch_size sz b = b\<lparr>cb_batch_size := Some sz\<rparr>"
definition set_flush_interval :: "duration \<Rightarrow> TellConfigBuilder \<Rightarrow> TellConfigBuilder" where
  "set_flush_interval i b = b\<lparr>cb_flush_interval := Some i\<rparr>"
definition set_max_retries :: "u32 \<Rightarrow> TellConfigBuilder \<Rightarrow> TellConfigBuilder" where
  "set_max_retries r b = b\<lparr>cb_max_retries := Some r\<rparr>"
definition set_close_timeout :: "duration \<Rightarrow> TellConfigBuilder \<Rightarrow> TellConfigBuilder" where
  "set_close_timeout t b = b\<lparr>cb_close_timeout := Some t\<rparr>"
definition set_network_timeout :: "duration \<Rightarrow> TellConfigBuilder \<Rightarrow> TellConfigBuilder" where
  "set_network_timeout t b = b\<lparr>cb_network_timeout := Some t\<rparr>"
definition set_buffer_path :: "str \<Rightarrow> TellConfigBuilder \<Rightarrow> TellConfigBuilder" where
  "set_buffer_path path b = b\<lparr>cb_buffer_path := Some path\<rparr>"
definition set_buffer_max_bytes :: "nat \<Rightarrow> TellConfigBuilder \<Rightarrow> TellConfigBuilder" where
  "set_buffer_max_bytes m b = b\<lparr>cb_buffer_max_bytes := Some m\<rparr>"
definition set_enable_session :: "TellConfigBuilder \<Rightarrow> TellConfigBuilder" where
  "set_enable_session b = b\<lparr>cb_enable_session := True\<rparr>"
definition set_queue_capacity :: "nat \<Rightarrow> TellConfigBuilder \<Rightarrow> TellConfigBuilder" where
  "set_queue_capacity c b = b\<lparr>cb_queue_capacity := Some c\<rparr>"
definition set_metrics_interval :: "duration \<Rightarrow> TellConfigBuilder \<Rightarrow> TellConfigBuilder" where
  "set_metrics_interval i b = b\<lparr>cb_metrics_interval := Some i\<rparr>"

definition unwrap_or :: "'a option \<Rightarrow> 'a \<Rightarrow> 'a" where
  "unwrap_or x d = (case x of Some v \<Rightarrow> v | None \<Rightarrow> d)"

definition build :: "TellConfigBuilder \<Rightarrow> TellError + TellConfig" where
  "build b =
    (case validate_and_decode_api_key (cb_api_key b) of
       Inl e \<Rightarrow> Inl e
     | Inr api_key_bytes \<Rightarrow>
         if cb_service b = Some [] then Inl (Validation ''service'' ''must not be empty'')
         else if cb_batch_size b = Some 0 then Inl (Configuration ''batch_size must be at least 1'')
         else if cb_queue_capacity b = Some 0 then Inl (Configuration ''queue_capacity must be at least 1'')
         else if cb_metrics_interval b = Some 0 then Inl (Configuration ''metrics_interval must be non-zero'')
         else Inr \<lparr>tc_api_key_bytes = api_key_bytes, tc_service = cb_service b, tc_source = cb_source b,
           tc_endpoint = unwrap_or (cb_endpoint b) DEFAULT_ENDPOINT,
           tc_batch_size = unwrap_or (cb_batch_size b) 100,
           tc_flush_interval = unwrap_or (cb_flush_interval b) (from_secs 10),
           tc_max_retries = unwrap_or (cb_max_retries b) 3,
           tc_close_timeout = unwrap_or (cb_close_timeout b) (from_secs 5),
           tc_network_timeout = unwrap_or (cb_network_timeout b) (from_secs 5),
           tc_buffer_path = cb_buffer_path b,
           tc_buffer_max_bytes = unwrap_or (cb_buffer_max_bytes b) DEFAULT_BUFFER_MAX_BYTES,
           tc_enable_session = cb_enable_session b,
           tc_queue_capacity = unwrap_or (cb_queue_capacity b) DEFAULT_QUEUE_CAPACITY,
           tc_metrics_interval = unwrap_or (cb_metrics_interval b) DEFAULT_METRICS_INTERVAL\<rparr>)"

definition config_development :: "str \<Rightarrow> TellError + TellConfig" where
  "config_development api_key =
     build (set_flush_interval (from_secs 2) (set_batch_size 10 (set_endpoint DEV_ENDPOINT (builder_new api_key))))"

definition config_production :: "str \<Rightarrow> TellError + TellConfig" where
  "config_production api_key = build (builder_new api_key)"

text \<open>What the rest of the program relies on in a configuration.\<close>

definition config_ok :: "TellConfig \<Rightarrow> bool" where
  "config_ok c \<longleftrightarrow> length (tc_api_key_bytes c) = 16 \<and> tc_service c \<noteq> Some [] \<and> 0 < tc_batch_size c \<and>
     0 < tc_queue_capacity c \<and> 0 < tc_metrics_interval c"

definition sample_key :: str where
  "sample_key = concat (map (hex_pair False) (zeros 16))"

lemma sample_key_ok: "validate_and_decode_api_key sample_key = Inr (zeros 16)"
proof -
  have "length sample_key = 32"
    by (simp add: sample_key_def zeros_def hex_pair_def length_concat sum_list_replicate)
  then show ?thesis by (simp add: validate_and_decode_api_key_def sample_key_def decode_hex_pairs)
qed

text \<open>
  C34: \<open>build\<close> accepts a builder exactly when the key decodes, a given service is not empty,
  and a given batch size, queue capacity and metrics interval are not zero; what it returns
  then has a 16-byte key and non-zero sizes, by the defaults where nothing was given. The
  flush interval is not checked: zero is accepted and kept.
\<close>

theorem build_config_ok:
  "((\<exists>c. build b = Inr c) \<longleftrightarrow> \<not> isl (validate_and_decode_api_key (cb_api_key b)) \<and> cb_service b \<noteq> Some [] \<and>
      cb_batch_size b \<noteq> Some 0 \<and> cb_queue_capacity b \<noteq> Some 0 \<and> cb_metrics_interval b \<noteq> Some 0) \<and>
   (case build b of Inl _ \<Rightarrow> True | Inr c \<Rightarrow> config_ok c) \<and>
   (case build (set_flush_interval 0 b) of Inl e \<Rightarrow> build b = Inl e | Inr c \<Rightarrow> tc_flush_interval c = 0)"
proof -
  have "length k = 16" if "validate_and_decode_api_key (cb_api_key b) = Inr k" for k
    using that decode_pairs_length [of "cb_api_key b" k]
    by (auto simp: validate_and_decode_api_key_def split: if_splits)
  then show ?thesis
    by (auto simp: build_def config_ok_def unwrap_or_def set_flush_interval_def from_secs_def
        DEFAULT_QUEUE_CAPACITY_def DEFAULT_METRICS_INTERVAL_def split: sum.split option.split)
qed

definition sample_config :: TellConfig where
  "sample_config = \<lparr>tc_api_key_bytes = zeros 16, tc_service = Some [115], tc_source = Some [104],
     tc_endpoint = DEV_ENDPOINT, tc_batch_size = 2, tc_flush_interval = 10, tc_max_retries = 3,
     tc_close_timeout = 5, tc_network_timeout = 5, tc_buffer_path = None, tc_buffer_max_bytes = 100,
     tc_enable_session = False, tc_queue_capacity = 4, tc_metrics_interval = 15\<rparr>"

end
