(* ===== verification/Transport.thy ===== *)
theory Transport
  imports Config "HOL-Library.Sublist"
begin

section \<open>The TCP transport (\<open>transport.rs\<close>)\<close>

text \<open>
  The socket is what has been written to it: the bytes the kernel has accepted on each
  connection, the open one last. The network decides the outcome of every connect and every
  frame write from a schedule; a failing write names how many bytes of the frame the kernel had
  taken by then. An empty schedule lets every connect and write succeed. An \<open>Ok\<close> of \<open>write_all\<close>
  and \<open>flush\<close> says that the kernel has the bytes, not that the peer does: what arrives is a
  separate relation, \<open>arrives\<close> below.
\<close>

datatype outcome = Succeeds | Fails nat | TimesOut nat

record TcpTransport =
  tp_stream :: "bytes option"
  tp_past :: "bytes list"
  tp_net :: "outcome list"

definition transport_new :: "outcome list \<Rightarrow> TcpTransport" where
  "transport_new net = \<lparr>tp_stream = None, tp_past = [], tp_net = net\<rparr>"

definition next_outcome :: "TcpTransport \<Rightarrow> outcome \<times> TcpTransport" where
  "next_outcome t = (case tp_net t of [] \<Rightarrow> (Succeeds, t) | x # xs \<Rightarrow> (x, t\<lparr>tp_net := xs\<rparr>))"

definition connect :: "TcpTransport \<Rightarrow> (TellError + unit) \<times> TcpTransport" where
  "connect t =
    (case next_outcome t of
       (Succeeds, t) \<Rightarrow> (Inr (), t\<lparr>tp_stream := Some []\<rparr>)
     | (Fails _, t) \<Rightarrow> (Inl (IoError OtherIo), t)
     | (TimesOut _, t) \<Rightarrow> (Inl (Network ''connection timeout''), t))"

definition ensure_connected :: "TcpTransport \<Rightarrow> (TellError + unit) \<times> TcpTransport" where
  "ensure_connected t = (if tp_stream t \<noteq> None then (Inr (), t) else connect t)"

definition u32_be :: "u32 \<Rightarrow> bytes" where "u32_be v = rev (u32_le v)"

definition tcp_frame :: "bytes \<Rightarrow> bytes" where
  "tcp_frame data = u32_be (as_u32 (length data)) @ data"

text \<open>\<open>self.stream = None\<close>: the connection ends with what had been written to it.\<close>

definition drop_stream :: "TcpTransport \<Rightarrow> TcpTransport" where
  "drop_stream t =
    (case tp_stream t of None \<Rightarrow> t | Some s \<Rightarrow> t\<lparr>tp_stream := None, tp_past := tp_past t @ [s]\<rparr>)"

definition push_bytes :: "bytes \<Rightarrow> TcpTransport \<Rightarrow> TcpTransport" where
  "push_bytes b t = t\<lparr>tp_stream := map_option (\<lambda>s. s @ b) (tp_stream t)\<rparr>"

definition send_frame :: "bytes \<Rightarrow> TcpTransport \<Rightarrow> (TellError + unit) \<times> TcpTransport" where
  "send_frame data t =
    (case ensure_connected t of
       (Inl e, t) \<Rightarrow> (Inl e, t)
     | (Inr _, t) \<Rightarrow>
         if tp_stream t = None then (Inl (Network ''connection not established''), t)
         else (case next_outcome t of
             (Succeeds, t) \<Rightarrow> (Inr (), push_bytes (tcp_frame data) t)
           | (Fails k, t) \<Rightarrow> (Inl (IoError OtherIo), drop_stream (push_bytes (take k (tcp_frame data)) t))
           | (TimesOut k, t) \<Rightarrow>
               (Inl (Network ''write timeout''), drop_stream (push_bytes (take k (tcp_frame data)) t))))"

definition transport_close :: "TcpTransport \<Rightarrow> TcpTransport" where
  "transport_close t = drop_stream t"

subsection \<open>What the peer receives\<close>

text \<open>
  Of a connection the peer gets a prefix of what was written, all of it or less: it may have
  hung up, or the connection may break, with bytes still on their way. It reads length-prefixed
  frames off what it gets; an incomplete one is dropped. \<open>written\<close> lists the frames that were
  written whole, which is what a peer reads that gets everything.
\<close>

function peer_frames :: "bytes \<Rightarrow> bytes list" where
  "peer_frames b =
    (if length b < 4 then []
     else let n = unat (le_u32 (rev (take 4 b))) in
       if length b < 4 + n then [] else take n (drop 4 b) # peer_frames (drop (4 + n) b))"
  by pat_completeness auto
termination by (relation "measure length") auto

declare peer_frames.simps [simp del]

definition connections :: "TcpTransport \<Rightarrow> bytes list" where
  "connections t = tp_past t @ (case tp_stream t of None \<Rightarrow> [] | Some s \<Rightarrow> [s])"

definition peer_reads :: "bytes list \<Rightarrow> bytes list" where
  "peer_reads cs = concat (map peer_frames cs)"

definition arrives :: "TcpTransport \<Rightarrow> bytes list \<Rightarrow> bool" where
  "arrives t cs \<longleftrightarrow> list_all2 prefix cs (connections t)"

definition written :: "TcpTransport \<Rightarrow> bytes list" where
  "written t = concat (map peer_frames (connections t))"

fun send_all :: "bytes list \<Rightarrow> TcpTransport \<Rightarrow> bytes list \<times> TcpTransport" where
  "send_all [] t = ([], t)"
| "send_all (d # ds) t =
     (case send_frame d t of
        (Inl _, t) \<Rightarrow> send_all ds t
      | (Inr _, t) \<Rightarrow> (case send_all ds t of (oks, t) \<Rightarrow> (d # oks, t)))"

lemma written_reads: "written t = peer_reads (connections t)"
  by (simp add: written_def peer_reads_def)

lemma length_tcp_frame [simp]: "length (tcp_frame d) = 4 + length d"
  by (simp add: tcp_frame_def u32_be_def)

lemma peer_frames_Nil [simp]: "peer_frames [] = []"
  by (simp add: peer_frames.simps)

lemma peer_frames_step:
  "length d < 2 ^ 32 \<Longrightarrow> peer_frames (tcp_frame d @ b) = d # peer_frames b"
  by (subst peer_frames.simps) (simp add: tcp_frame_def u32_be_def Let_def)

lemma peer_frames_partial:
  assumes "length d < 2 ^ 32" "k < 4 + length d"
  shows "peer_frames (take k (tcp_frame d)) = []"
  using assms
  by (subst peer_frames.simps)
     (auto simp: tcp_frame_def u32_be_def Let_def min_def split: if_splits)

text \<open>Fewer bytes of a connection give fewer frames, and the same ones.\<close>

lemma peer_frames_prefix: "prefix c b \<Longrightarrow> prefix (peer_frames c) (peer_frames b)"
proof (induction c arbitrary: b rule: peer_frames.induct)
  case (1 c)
  let ?n = "unat (le_u32 (rev (take 4 c)))"
  obtain d where b: "b = c @ d" using 1(2) by (auto simp: prefix_def)
  show ?case
  proof (cases "length c < 4 \<or> length c < 4 + ?n")
    case True
    then have "peer_frames c = []" by (subst peer_frames.simps) (auto simp: Let_def)
    then show ?thesis by simp
  next
    case False
    then have "prefix (peer_frames (drop (4 + ?n) c)) (peer_frames (drop (4 + ?n) c @ d))" by (intro 1(1)) auto
    with False show ?thesis
      unfolding b by (subst (1 2) peer_frames.simps) (simp add: Let_def take_drop)
  qed
qed

lemma reads_less: "list_all2 prefix cs bs \<Longrightarrow> subseq (peer_reads cs) (peer_reads bs)"
  by (induction rule: list_all2_induct)
    (auto simp: peer_reads_def intro!: list_emb_append_mono dest: peer_frames_prefix prefix_imp_subseq)

lemma arrives_all: "arrives t (connections t)"
  by (simp add: arrives_def list_all2_same)

text \<open>A stream in step: whole frames only, so that what is sent next is read as sent.\<close>

definition in_step :: "bytes \<Rightarrow> bool" where
  "in_step s \<longleftrightarrow> (\<forall>b. peer_frames (s @ b) = peer_frames s @ peer_frames b)"

lemma in_step_frame:
  assumes "in_step s" "length d < 2 ^ 32"
  shows "in_step (s @ tcp_frame d)" "peer_frames (s @ tcp_frame d) = peer_frames s @ [d]"
  using assms peer_frames_step [of d "[]"]
  by (simp_all add: in_step_def peer_frames_step)

lemma peer_frames_cut:
  assumes "in_step s" "length d < 2 ^ 32"
  shows "peer_frames (s @ take k (tcp_frame d)) = peer_frames s @ (if k < 4 + length d then [] else [d])"
  using assms peer_frames_partial [of d k] in_step_frame(2) [OF assms]
  by (auto simp: in_step_def)

definition stream_ok :: "TcpTransport \<Rightarrow> bool" where
  "stream_ok t \<longleftrightarrow> (\<forall>s. tp_stream t = Some s \<longrightarrow> in_step s)"

lemma next_outcome_same:
  "next_outcome t = (x, t') \<Longrightarrow> tp_stream t' = tp_stream t \<and> tp_past t' = tp_past t"
  by (auto simp: next_outcome_def split: list.splits)

lemma ensure_connected_step:
  assumes "stream_ok t" "ensure_connected t = (r, t')"
  shows "stream_ok t'" "written t' = written t" "r = Inr () \<Longrightarrow> tp_stream t' \<noteq> None"
proof -
  have *: "stream_ok t' \<and> written t' = written t \<and> (r = Inr () \<longrightarrow> tp_stream t' \<noteq> None)"
    using assms
    by (auto simp: ensure_connected_def connect_def stream_ok_def in_step_def written_def connections_def
        split: if_splits prod.splits outcome.splits dest!: next_outcome_same)
  then show "stream_ok t'" "written t' = written t" "r = Inr () \<Longrightarrow> tp_stream t' \<noteq> None" by auto
qed

lemma send_frame_step:
  assumes "stream_ok t" "length d < 2 ^ 32" "send_frame d t = (r, t')"
  shows "stream_ok t' \<and>
    (written t' = written t @ [d] \<or> written t' = written t \<and> r \<noteq> Inr ())"
proof -
  obtain r1 t1 where e: "ensure_connected t = (r1, t1)" by fastforce
  note c = ensure_connected_step [OF assms(1) e]
  show ?thesis
  proof (cases r1)
    case (Inl x)
    with assms e c show ?thesis by (auto simp: send_frame_def)
  next
    case (Inr u)
    then obtain s where s: "tp_stream t1 = Some s" using c by auto
    with c(1) have step: "in_step s" by (simp add: stream_ok_def)
    obtain x t2 where x: "next_outcome t1 = (x, t2)" by fastforce
    note t2 = next_outcome_same [OF x]
    have rec: "written t1 = concat (map peer_frames (tp_past t1)) @ peer_frames s"
      by (simp add: written_def connections_def s)
    show ?thesis
      using assms(2,3) Inr e s x t2 c(2) rec in_step_frame [OF step assms(2)] peer_frames_cut [OF step assms(2)]
      by (cases x) (auto simp: send_frame_def stream_ok_def push_bytes_def drop_stream_def written_def connections_def)
  qed
qed

lemma send_all_step:
  assumes "stream_ok t" "list_all (\<lambda>d. length d < 2 ^ 32) ds" "send_all ds t = (oks, t')"
  shows "\<exists>new. written t' = written t @ new \<and> subseq oks new \<and> subseq new ds"
  using assms
proof (induction ds arbitrary: t oks)
  case (Cons d ds)
  obtain r t1 where s: "send_frame d t = (r, t1)" by fastforce
  obtain oks1 where rest: "send_all ds t1 = (oks1, t')" "oks = (case r of Inl _ \<Rightarrow> oks1 | Inr _ \<Rightarrow> d # oks1)"
    using Cons.prems(3) s by (auto split: sum.splits prod.splits)
  have step: "stream_ok t1" "written t1 = written t @ [d] \<or> written t1 = written t \<and> r \<noteq> Inr ()"
    using send_frame_step [OF Cons.prems(1) _ s] Cons.prems(2) by auto
  obtain new where new: "written t' = written t1 @ new" "subseq oks1 new" "subseq new ds"
    using Cons.IH [OF step(1) _ rest(1)] Cons.prems(2) by auto
  from step(2) show ?case
  proof
    assume "written t1 = written t @ [d]"
    with new rest show ?thesis
      by (intro exI [of _ "d # new"]) (auto split: sum.splits)
  next
    assume "written t1 = written t \<and> r \<noteq> Inr ()"
    with new rest show ?thesis
      by (intro exI [of _ new]) (auto split: sum.splits)
  qed
qed simp

text \<open>
  C24: whatever the network does, the peer stays in step. The frames written whole are among
  those sent, in order, and every frame whose send returned \<open>Ok\<close> is one of them. Whatever part of
  the bytes arrives, the peer reads on each connection the first so many of the frames written to
  it, so that all it reads are frames that were sent, in order and whole. When all the bytes
  arrive, each frame whose send returned \<open>Ok\<close> does. Nothing in the transport makes sure of that:
  for any run it is possible that nothing arrives.
\<close>

theorem transport_framing:
  assumes "list_all (\<lambda>d. length d < 2 ^ 32) ds" "send_all ds (transport_new net) = (oks, t)" "arrives t cs"
  shows "subseq oks (written t) \<and> subseq (written t) ds \<and>
    list_all2 (\<lambda>c b. prefix (peer_frames c) (peer_frames b)) cs (connections t) \<and> subseq (peer_reads cs) ds \<and>
    (cs = connections t \<longrightarrow> subseq oks (peer_reads cs)) \<and>
    (\<exists>cs'. arrives t cs' \<and> peer_reads cs' = [])"
proof -
  have "stream_ok (transport_new net)" "written (transport_new net) = []"
    by (simp_all add: stream_ok_def transport_new_def written_def connections_def)
  with send_all_step [OF _ assms(1,2)] have w: "subseq oks (written t)" "subseq (written t) ds" by auto
  have "subseq (peer_reads cs) (written t)"
    using assms(3) reads_less by (simp add: arrives_def written_reads)
  then have "subseq (peer_reads cs) ds" using w(2) subseq_order.trans by blast
  moreover have "list_all2 (\<lambda>c b. prefix (peer_frames c) (peer_frames b)) cs (connections t)"
    using assms(3) unfolding arrives_def by (rule list_all2_mono) (rule peer_frames_prefix)
  moreover have "arrives t (map (\<lambda>_. []) (connections t)) \<and> peer_reads (map (\<lambda>_. []) (connections t)) = []"
    by (simp add: arrives_def list_all2_map1 list_all2_same peer_reads_def)
  ultimately show ?thesis using w by (auto simp: written_reads)
qed

theorem transport_framing_witness:
  "\<exists>oks t. send_all [zeros 5, zeros 6, zeros 7] (transport_new [Succeeds, Fails 3, Succeeds, TimesOut 100]) = (oks, t) \<and>
    subseq oks (peer_reads (connections t)) \<and> subseq (peer_reads (connections t)) [zeros 5, zeros 6, zeros 7]"
proof -
  obtain oks t where "send_all [zeros 5, zeros 6, zeros 7] (transport_new [Succeeds, Fails 3, Succeeds, TimesOut 100]) = (oks, t)"
    by (rule prod.exhaust)
  with transport_framing [OF _ this arrives_all] show ?thesis by simp
qed

end
