(* ===== verification/Clock.thy ===== *)
theory Clock
  imports Wire_Types
begin

section \<open>The clock (\<open>clock.rs\<close>)\<close>

text \<open>
  \<open>quanta\<close> is third-party code, so a reading of its counter is an argument: \<open>delta_nanos\<close> is
  \<open>CLOCK.delta_as_nanos(anchor_raw, CLOCK.raw())\<close> at the moment of the call, and \<open>sys\<close> what
  \<open>system_ms\<close> returns. The statics are a record; the arithmetic is that of \<open>i64\<close> and \<open>u64\<close>.
\<close>

record clock =
  ck_anchor_system :: u64
  ck_correction_ms :: "64 word"

definition system_ms :: "u64 option \<Rightarrow> u64" where
  "system_ms since_epoch_ms = (case since_epoch_ms of Some ms \<Rightarrow> ms | None \<Rightarrow> 0)"

definition monotonic_ms :: "clock \<Rightarrow> u64 \<Rightarrow> u64" where
  "monotonic_ms c delta_nanos = ck_anchor_system c + delta_nanos div 1000000"

definition now_ms :: "clock \<Rightarrow> u64 \<Rightarrow> u64" where
  "now_ms c delta_nanos =
    (let estimate = monotonic_ms c delta_nanos + ck_correction_ms c in
     if sint estimate < 0 then 0 else estimate)"

definition resync :: "clock \<Rightarrow> u64 option \<Rightarrow> u64 \<Rightarrow> 64 word \<times> clock" where
  "resync c since_epoch_ms delta_nanos =
    (let drift = system_ms since_epoch_ms - monotonic_ms c delta_nanos in
     (drift, c\<lparr>ck_correction_ms := drift\<rparr>))"

text \<open>
  Right after a resynchronisation the clock shows the system time, whatever the previous
  correction and the drift were, and from then on it advances by the elapsed counter time.
\<close>

theorem resync_exact:
  assumes "resync c (Some sys) d = (drift, c')" "uint sys + 2 * (uint d' div 1000000) < 2 ^ 63" "d \<le> d'"
  shows "now_ms c' d' = sys + (d' div 1000000 - d div 1000000)"
proof -
  let ?x = "sys + (d' div 1000000 - d div 1000000)"
  have le: "d div 1000000 \<le> d' div 1000000" 
    using assms(3) by (simp add: word_le_def uint_div zdiv_mono1)
  have bounds: "0 \<le> uint (d' div 1000000) - uint (d div 1000000)" "0 \<le> uint (d div 1000000)"
    "0 \<le> uint sys" "uint sys + 2 * uint (d' div 1000000) < 2 ^ 63"
    using le assms(2) by (simp_all add: word_le_def uint_div pos_imp_zdiv_nonneg_iff)
  have mod: "x mod 2 ^ LENGTH(64) = x" if "0 \<le> x" "x < 2 ^ 63" for x :: int
    by (rule mod_pos_pos_trivial) (use that in simp_all)
  have "uint (d' div 1000000 - d div 1000000) = uint (d' div 1000000) - uint (d div 1000000)"
    unfolding uint_word_ariths(2) by (rule mod) (use bounds in linarith)+
  then have "uint ?x = uint sys + (uint (d' div 1000000) - uint (d div 1000000))"
    unfolding uint_word_ariths(1) by (simp only:) (rule mod; use bounds in linarith)
  then have "uint ?x < 2 ^ 63"
    using bounds by linarith
  then have "0 \<le> sint ?x"
    by (simp add: sint_uint signed_take_bit_eq_if_positive bit_iff_odd)
  moreover have "monotonic_ms c' d' + ck_correction_ms c' = ?x"
    using assms(1) by (auto simp: resync_def Let_def system_ms_def monotonic_ms_def)
  ultimately show ?thesis by (simp add: now_ms_def Let_def)
qed

theorem resync_exact_witness:
  "now_ms (snd (resync \<lparr>ck_anchor_system = 5, ck_correction_ms = 0\<rparr> (Some 1000) 2000000)) 7000000 = 1005"
  using resync_exact [of "\<lparr>ck_anchor_system = 5, ck_correction_ms = 0\<rparr>" 1000 2000000 _ _ 7000000]
  by (cases "resync \<lparr>ck_anchor_system = 5, ck_correction_ms = 0\<rparr> (Some 1000) 2000000") simp

end
