(* ===== verification/Worker_Encode.thy ===== *)
theory Worker_Encode
  imports Transport Enc_Event Enc_Log Enc_Metric Enc_Batch
begin

section \<open>Queued entries and their encoding (\<open>types.rs\<close>, \<open>worker/encode.rs\<close>)\<close>

text \<open>
  The entries the client queues, the worker's \<open>Sender\<close>, and the three functions that encode
  a chunk of a queue into \<open>batch_buf\<close>. The static \<open>BATCH_COUNTER\<close> is the field \<open>sn_batch_counter\<close>;
  \<open>on_error\<close> says whether a callback is set, and \<open>sn_reports\<close> lists the errors given to it.
\<close>

record QueuedEvent =
  qe_event_type :: EventType
  qe_timestamp :: u64
  qe_device_id :: bytes
  qe_session_id :: "bytes option"
  qe_event_name :: "str option"
  qe_payload :: "bytes option"

record QueuedLog =
  ql_level :: LogLevel
  ql_timestamp :: u64
  ql_session_id :: "bytes option"
  ql_component :: "str option"
  ql_service :: "str option"
  ql_payload :: "bytes option"

record QueuedMetric =
  qm_metric_type :: MetricType
  qm_timestamp :: u64
  qm_name :: str
  qm_value :: f64
  qm_labels :: "(str \<times> str) list"
  qm_temporality :: Temporality
  qm_histogram :: "HistogramParams option"

text \<open>
  The counter of batch ids belongs to the process, and every client in it takes ids from it:
  \<open>bc_others\<close> says how many ids others take before each one that this worker takes, none where
  the list has ended.
\<close>

record BatchCounter =
  bc_next :: u64
  bc_others :: "nat list"

definition BATCH_COUNTER :: "nat list \<Rightarrow> BatchCounter" where
  "BATCH_COUNTER others = \<lparr>bc_next = 1, bc_others = others\<rparr>"

text \<open>
  \<open>sn_deadline\<close> is the deadline of \<open>shutdown\<close>: how many awaits still complete before it, and
  how many bytes of the frame being written the kernel had taken. \<open>None\<close> outside a shutdown.
\<close>

record Sender =
  sn_transport :: TcpTransport
  sn_disk_buffer :: "DiskBuffer option"
  sn_data_buf :: bytes
  sn_batch_buf :: bytes
  sn_api_key :: bytes
  sn_service :: "str option"
  sn_source :: "str option"
  sn_batch_size :: nat
  sn_max_retries :: u32
  sn_close_timeout :: duration
  sn_on_error :: bool
  sn_reports :: "TellError list"
  sn_batch_counter :: BatchCounter
  sn_slept :: "duration list"
  sn_deadline :: "(nat \<times> nat) option"

definition or_else :: "'a option \<Rightarrow> 'a option \<Rightarrow> 'a option" where
  "or_else x y = (case x of Some v \<Rightarrow> Some v | None \<Rightarrow> y)"

fun foreign_ids :: "nat list \<Rightarrow> nat" where
  "foreign_ids [] = 0"
| "foreign_ids (n # _) = n"

definition next_batch_id :: "Sender \<Rightarrow> u64 \<times> Sender" where
  "next_batch_id s =
    (let c = sn_batch_counter s; batch_id = bc_next c + of_nat (foreign_ids (bc_others c)) in
     (batch_id, s\<lparr>sn_batch_counter := \<lparr>bc_next = batch_id + 1, bc_others = tl (bc_others c)\<rparr>\<rparr>))"

definition finish_batch :: "Sender \<Rightarrow> SchemaType \<Rightarrow> nat \<times> nat \<Rightarrow> Sender option" where
  "finish_batch s schema_type rng =
    (let (batch_id, s) = next_batch_id s in do {
       b \<leftarrow> encode_batch_into []
         \<lparr>bp_api_key = sn_api_key s, bp_schema_type = schema_type, bp_version = DEFAULT_VERSION,
          bp_batch_id = batch_id, bp_data = take (snd rng - fst rng) (drop (fst rng) (sn_data_buf s))\<rparr>;
       Some (s\<lparr>sn_batch_buf := b\<rparr>) })"

definition event_params :: "Sender \<Rightarrow> QueuedEvent \<Rightarrow> EventParams" where
  "event_params s e = \<lparr>ev_event_type = qe_event_type e, ev_timestamp = qe_timestamp e, ev_service = sn_service s,
     ev_device_id = Some (qe_device_id e), ev_session_id = qe_session_id e, ev_event_name = qe_event_name e,
     ev_payload = qe_payload e\<rparr>"

definition encode_events :: "Sender \<Rightarrow> QueuedEvent list \<Rightarrow> Sender option" where
  "encode_events s chunk = do {
     (data_buf, start, stop) \<leftarrow> encode_event_data_into [] (map (event_params s) chunk);
     finish_batch (s\<lparr>sn_data_buf := data_buf\<rparr>) SchemaEvent (start, stop) }"

definition log_params :: "Sender \<Rightarrow> QueuedLog \<Rightarrow> LogEntryParams" where
  "log_params s l = \<lparr>lg_event_type = LogEventLog, lg_session_id = ql_session_id l, lg_level = ql_level l,
     lg_timestamp = ql_timestamp l, lg_source = or_else (ql_component l) (sn_source s),
     lg_service = or_else (ql_service l) (sn_service s), lg_payload = ql_payload l\<rparr>"

definition encode_logs :: "Sender \<Rightarrow> QueuedLog list \<Rightarrow> Sender option" where
  "encode_logs s chunk = do {
     (data_buf, start, stop) \<leftarrow> encode_log_data_into [] (map (log_params s) chunk);
     finish_batch (s\<lparr>sn_data_buf := data_buf\<rparr>) SchemaLog (start, stop) }"

definition metric_params :: "Sender \<Rightarrow> QueuedMetric \<Rightarrow> MetricEntryParams" where
  "metric_params s m = \<lparr>mt_metric_type = qm_metric_type m, mt_timestamp = qm_timestamp m, mt_name = qm_name m,
     mt_value = qm_value m, mt_source = sn_source s, mt_service = sn_service s,
     mt_labels = map (\<lambda>(k, v). \<lparr>lb_key = k, lb_value = v\<rparr>) (qm_labels m),
     mt_temporality = qm_temporality m, mt_histogram = qm_histogram m, mt_session_id = None\<rparr>"

definition encode_metrics :: "Sender \<Rightarrow> QueuedMetric list \<Rightarrow> Sender option" where
  "encode_metrics s chunk = do {
     (data_buf, start, stop) \<leftarrow> encode_metric_data_into [] (map (metric_params s) chunk);
     finish_batch (s\<lparr>sn_data_buf := data_buf\<rparr>) SchemaMetric (start, stop) }"

subsection \<open>What a chunk encodes to\<close>

text \<open>The batch a collector decodes from a frame: the envelope, then its data by schema.\<close>

definition batch_of :: "Sender \<Rightarrow> SchemaType \<Rightarrow> bytes \<Rightarrow> BatchParams" where
  "batch_of s ty d = \<lparr>bp_api_key = sn_api_key s, bp_schema_type = ty, bp_version = DEFAULT_VERSION,
     bp_batch_id = fst (next_batch_id s), bp_data = d\<rparr>"

definition encoded :: "Sender \<Rightarrow> SchemaType \<Rightarrow> bytes \<Rightarrow> Sender" where
  "encoded s ty d = s\<lparr>sn_data_buf := d, sn_batch_buf := batch_layout 0 (batch_of s ty d),
     sn_batch_counter := sn_batch_counter (snd (next_batch_id s))\<rparr>"

lemma finish_batch_eq:
  "finish_batch (s\<lparr>sn_data_buf := d\<rparr>) ty (0, length d) = Some (encoded s ty d)"
  by (simp add: finish_batch_def next_batch_id_def Let_def encode_batch_into_layout encoded_def batch_of_def)

definition event_data :: "Sender \<Rightarrow> QueuedEvent list \<Rightarrow> bytes" where
  "event_data s q = event_enc.data_layout 0 (map (event_params s) q)"

definition log_data :: "Sender \<Rightarrow> QueuedLog list \<Rightarrow> bytes" where
  "log_data s q = log_enc.data_layout 0 (map (log_params s) q)"

definition metric_data :: "Sender \<Rightarrow> QueuedMetric list \<Rightarrow> bytes" where
  "metric_data s q = metric_enc.data_layout 0 (map (metric_params s) q)"

lemma encode_eq:
  "encode_events s es = Some (encoded s SchemaEvent (event_data s es))"
  "encode_logs s ls = Some (encoded s SchemaLog (log_data s ls))"
  "encode_metrics s ms = Some (encoded s SchemaMetric (metric_data s ms))"
  by (simp_all add: encode_events_def encode_logs_def encode_metrics_def event_data_def log_data_def metric_data_def
      encode_event_data_into_def encode_log_data_into_def encode_metric_data_into_def
      event_enc.encode_data_into_eq log_enc.encode_data_into_eq metric_enc.encode_data_into_eq finish_batch_eq)

lemma data_reads:
  "length (event_data s es) < 2 ^ 32 \<Longrightarrow> decode_event_data (event_data s es) 0 = Some (map (event_params s) es)"
  "length (log_data s ls) < 2 ^ 32 \<Longrightarrow> decode_log_data (log_data s ls) 0 = Some (map (log_params s) ls)"
  "length (metric_data s ms) < 2 ^ 32 \<Longrightarrow> decode_metric_data (metric_data s ms) 0 = Some (map (metric_params s) ms)"
  using event_enc.data_layout_read [of 0 "map (event_params s) es" "[]" "[]"]
    log_enc.data_layout_read [of 0 "map (log_params s) ls" "[]" "[]"]
    metric_enc.data_layout_read [of 0 "map (metric_params s) ms" "[]" "[]"]
  by (simp_all add: decode_event_data_def decode_log_data_def decode_metric_data_def
      event_data_def log_data_def metric_data_def)

lemma batch_data_length: "length (bp_data p) \<le> length (batch_layout n p)"
proof -
  have "sect_starts (n + 48) (batch_sections p) ! 1 + length (batch_sections p ! 1) \<le>
      n + 48 + length (sect_bytes (n + 48) (batch_sections p))"
    by (rule sect_starts_end) (simp add: batch_sections_def)
  moreover have "n + 48 \<le> sect_starts (n + 48) (batch_sections p) ! 1"
    by (rule sect_starts_ge [OF nth_mem]) (simp add: batch_sections_def)
  ultimately show ?thesis by (simp add: batch_layout_def batch_sections_def)
qed

lemma batch_reads:
  assumes "length (batch_layout 0 (batch_of s ty d)) < 2 ^ 32"
  shows "decode_batch (batch_layout 0 (batch_of s ty d)) 0 = Some (batch_of s ty d)" "length d < 2 ^ 32"
proof -
  have "read_batch (batch_layout 0 (batch_of s ty d)) 20 = Some (batch_of s ty d)"
    using read_batch_layout [of "[]" 0 "batch_of s ty d" "[]"] assms
    by (simp add: batch_version_def batch_of_def DEFAULT_VERSION_def)
  moreover have "fb_root (batch_layout 0 (batch_of s ty d)) 0 = Some 20"
    by (simp add: batch_layout_def fb_root_def read_simps)
  ultimately show "decode_batch (batch_layout 0 (batch_of s ty d)) 0 = Some (batch_of s ty d)"
    by (simp add: decode_batch_def)
  show "length d < 2 ^ 32"
    using batch_data_length [of "batch_of s ty d" 0] assms by (simp add: batch_of_def)
qed

text \<open>
  A chunk of the event queue becomes one frame that decodes to the envelope, with the
  client's key, the event schema and a fresh batch id, and to the chunk's events in order,
  each stamped with the configured service.
\<close>

theorem encode_events_end_to_end:
  assumes "encode_events s chunk = Some s'" "length (sn_batch_buf s') < 2 ^ 32"
  shows "\<exists>d. decode_batch (sn_batch_buf s') 0 = Some (batch_of s SchemaEvent d) \<and>
    decode_event_data d 0 = Some (map (event_params s) chunk) \<and>
    bc_next (sn_batch_counter s') = fst (next_batch_id s) + 1"
  using assms batch_reads [of s SchemaEvent "event_data s chunk"] data_reads(1) [of s chunk]
  by (auto simp: encode_eq encoded_def next_batch_id_def Let_def)

definition sample_sender :: Sender where
  "sample_sender = \<lparr>sn_transport = transport_new [], sn_disk_buffer = None, sn_data_buf = [], sn_batch_buf = [],
     sn_api_key = zeros 16, sn_service = Some [115], sn_source = Some [104], sn_batch_size = 2, sn_max_retries = 3,
     sn_close_timeout = 5, sn_on_error = True, sn_reports = [], sn_batch_counter = BATCH_COUNTER [], sn_slept = [],
     sn_deadline = None\<rparr>"

definition sample_queued :: QueuedEvent where
  "sample_queued = \<lparr>qe_event_type = Track, qe_timestamp = 17, qe_device_id = zeros 16, qe_session_id = None,
     qe_event_name = Some [80], qe_payload = Some [123, 125]\<rparr>"

definition sample_queued_log :: QueuedLog where
  "sample_queued_log = \<lparr>ql_level = Info, ql_timestamp = 17, ql_session_id = None, ql_component = None,
     ql_service = Some [120], ql_payload = Some [123, 125]\<rparr>"

lemma batch_layout_length: "length (batch_layout n p) \<le> 62 + length (bp_api_key p) + length (bp_data p)"
  using sect_bytes_bound [of "n + 48" "batch_sections p"] by (simp add: batch_layout_def batch_sections_def)

lemma sample_event_data: "length (event_data sample_sender [sample_queued]) < 300"
proof -
  have "length (event_enc.entry_lay n (event_params sample_sender sample_queued)) \<le> 203" for n
    using sect_bytes_bound [of "n + pad4 n + 60" "event_sections (event_params sample_sender sample_queued)"] pad4_lt [of n]
    by (simp add: event_enc.entry_lay_def event_layout_def event_sections_def event_params_def sample_sender_def sample_queued_def)
  then show ?thesis
    using event_enc.data_layout_bound [of "map (event_params sample_sender) [sample_queued]" "\<lambda>_. 203" 0]
    by (simp add: event_data_def)
qed

lemma sample_log_data: "length (log_data sample_sender [sample_queued_log]) < 300"
proof -
  have "length (log_enc.entry_lay n (log_params sample_sender sample_queued_log)) \<le> 203" for n
    using sect_bytes_bound [of "n + pad4 n + 56" "log_sections (log_params sample_sender sample_queued_log)"] pad4_lt [of n]
    by (simp add: log_enc.entry_lay_def log_layout_def log_sections_def log_params_def sample_sender_def
        sample_queued_log_def or_else_def)
  then show ?thesis
    using log_enc.data_layout_bound [of "map (log_params sample_sender) [sample_queued_log]" "\<lambda>_. 203" 0]
    by (simp add: log_data_def)
qed

theorem encode_events_end_to_end_witness:
  "\<exists>s' d. encode_events sample_sender [sample_queued] = Some s' \<and>
    decode_batch (sn_batch_buf s') 0 = Some (batch_of sample_sender SchemaEvent d) \<and>
    decode_event_data d 0 = Some [event_params sample_sender sample_queued] \<and>
    bc_next (sn_batch_counter s') = 2"
proof -
  let ?s = "encoded sample_sender SchemaEvent (event_data sample_sender [sample_queued])"
  have "length (sn_batch_buf ?s) < 2 ^ 32"
    using batch_layout_length [of 0 "batch_of sample_sender SchemaEvent (event_data sample_sender [sample_queued])"]
      sample_event_data by (simp add: encoded_def batch_of_def sample_sender_def)
  from encode_events_end_to_end [OF encode_eq(1) this] show ?thesis
    by (auto simp: encode_eq sample_sender_def next_batch_id_def BATCH_COUNTER_def)
qed

text \<open>
  A chunk of the log queue becomes one frame that decodes to the chunk's entries in
  order, where a \<open>component\<close> replaces the configured source and an entry's own service the
  configured one, for that entry only.
\<close>

theorem encode_logs_end_to_end:
  assumes "encode_logs s chunk = Some s'" "length (sn_batch_buf s') < 2 ^ 32"
  shows "\<exists>d. decode_batch (sn_batch_buf s') 0 = Some (batch_of s SchemaLog d) \<and>
    decode_log_data d 0 = Some (map (\<lambda>l. \<lparr>lg_event_type = LogEventLog, lg_session_id = ql_session_id l,
      lg_level = ql_level l, lg_timestamp = ql_timestamp l,
      lg_source = (if ql_component l = None then sn_source s else ql_component l),
      lg_service = (if ql_service l = None then sn_service s else ql_service l), lg_payload = ql_payload l\<rparr>) chunk)"
proof -
  have "log_params s l = \<lparr>lg_event_type = LogEventLog, lg_session_id = ql_session_id l,
      lg_level = ql_level l, lg_timestamp = ql_timestamp l,
      lg_source = (if ql_component l = None then sn_source s else ql_component l),
      lg_service = (if ql_service l = None then sn_service s else ql_service l), lg_payload = ql_payload l\<rparr>" for l
    by (auto simp: log_params_def or_else_def split: option.split)
  then show ?thesis
    using assms batch_reads [of s SchemaLog "log_data s chunk"] data_reads(2) [of s chunk]
    by (auto simp: encode_eq encoded_def)
qed

theorem encode_logs_end_to_end_witness:
  "\<exists>s' d. encode_logs sample_sender [sample_queued_log] = Some s' \<and>
    decode_batch (sn_batch_buf s') 0 = Some (batch_of sample_sender SchemaLog d) \<and>
    map_option (map lg_source) (decode_log_data d 0) = Some [Some [104]] \<and>
    map_option (map lg_service) (decode_log_data d 0) = Some [Some [120]]"
proof -
  let ?s = "encoded sample_sender SchemaLog (log_data sample_sender [sample_queued_log])"
  have "length (sn_batch_buf ?s) < 2 ^ 32"
    using batch_layout_length [of 0 "batch_of sample_sender SchemaLog (log_data sample_sender [sample_queued_log])"]
      sample_log_data by (simp add: encoded_def batch_of_def sample_sender_def)
  from encode_logs_end_to_end [OF encode_eq(2) this] show ?thesis
    by (auto simp: encode_eq sample_sender_def sample_queued_log_def)
qed

end
