(* ===== verification/Worker.thy ===== *)
theory Worker
  imports Worker_Encode
begin

section \<open>The background worker (\<open>worker/mod.rs\<close>)\<close>

text \<open>
  Queues, sending with retries or the disk buffer, flushing, draining, shutdown under a
  deadline, and the worker loop as a step relation. A future is awaited by a function that
  returns \<open>Ready\<close> with its result, or \<open>Expired\<close> when the deadline of a shutdown cut it off; its
  state is then what it had reached. An outer \<open>None\<close> is a panic in an encoder or a loop that
  does not end; the theorems show that neither occurs.
\<close>

datatype 'a awaited = Ready 'a | Expired

datatype WorkerMessage =
    EventMsg QueuedEvent
  | LogMsg QueuedLog
  | MetricMsg QueuedMetric
  | FlushMsg nat
  | CloseMsg nat

record Queues =
  q_events :: "QueuedEvent list"
  q_logs :: "QueuedLog list"
  q_metrics :: "QueuedMetric list"

definition queues_len :: "Queues \<Rightarrow> nat" where
  "queues_len q = length (q_events q) + length (q_logs q) + length (q_metrics q)"

record Acks =
  ak_flush :: "nat list"
  ak_close :: "nat list"

definition no_acks :: Acks where "no_acks = \<lparr>ak_flush = [], ak_close = []\<rparr>"

definition acks_order :: "Acks \<Rightarrow> nat list" where
  "acks_order a = ak_flush a @ ak_close a"

fun absorb :: "Queues \<times> Acks \<Rightarrow> WorkerMessage \<Rightarrow> Queues \<times> Acks" where
  "absorb (q, a) (EventMsg e) = (q\<lparr>q_events := q_events q @ [e]\<rparr>, a)"
| "absorb (q, a) (LogMsg l) = (q\<lparr>q_logs := q_logs q @ [l]\<rparr>, a)"
| "absorb (q, a) (MetricMsg m) = (q\<lparr>q_metrics := q_metrics q @ [m]\<rparr>, a)"
| "absorb (q, a) (FlushMsg k) = (q, a\<lparr>ak_flush := ak_flush a @ [k]\<rparr>)"
| "absorb (q, a) (CloseMsg k) = (q, a\<lparr>ak_close := ak_close a @ [k]\<rparr>)"

definition report :: "TellError \<Rightarrow> Sender \<Rightarrow> Sender" where
  "report e s = (if sn_on_error s then s\<lparr>sn_reports := sn_reports s @ [e]\<rparr> else s)"

text \<open>The text of an I/O error, as \<open>Display\<close> gives it, is not modelled beyond its kind.\<close>

fun show_io :: "io_error \<Rightarrow> string" where
  "show_io UnexpectedEof = ''unexpected end of file''"
| "show_io InvalidData = ''invalid data''"
| "show_io InvalidInput = ''invalid input''"
| "show_io OtherIo = ''i/o error''"

definition sender_new :: "TellConfig \<Rightarrow> bool \<Rightarrow> outcome list \<Rightarrow> disk \<Rightarrow> BatchCounter \<Rightarrow> Sender" where
  "sender_new config on_error net d counter =
    (let s = \<lparr>sn_transport = transport_new net, sn_disk_buffer = None, sn_data_buf = [], sn_batch_buf = [],
              sn_api_key = tc_api_key_bytes config, sn_service = tc_service config, sn_source = tc_source config,
              sn_batch_size = max (tc_batch_size config) 1, sn_max_retries = tc_max_retries config,
              sn_close_timeout = tc_close_timeout config, sn_on_error = on_error, sn_reports = [],
              sn_batch_counter = counter, sn_slept = [], sn_deadline = None\<rparr> in
     case tc_buffer_path config of
       None \<Rightarrow> s
     | Some path \<Rightarrow>
         (case open_buffer (tc_buffer_max_bytes config) d of
            (Inr _, buf) \<Rightarrow> s\<lparr>sn_disk_buffer := Some buf\<rparr>
          | (Inl e, _) \<Rightarrow> report (BufferError (''failed to open disk buffer: '' @ show_io e)) s))"

subsection \<open>Awaiting\<close>

definition tick :: "Sender \<Rightarrow> Sender" where
  "tick s = s\<lparr>sn_deadline := map_option (\<lambda>(n, k). (n - 1, k)) (sn_deadline s)\<rparr>"

definition cut_off :: "Sender \<Rightarrow> bool" where
  "cut_off s \<longleftrightarrow> (case sn_deadline s of Some (0, _) \<Rightarrow> True | _ \<Rightarrow> False)"

text \<open>A write dropped in the middle: part of the frame is written, the connection stays open.\<close>

definition cut_send :: "bytes \<Rightarrow> Sender \<Rightarrow> Sender" where
  "cut_send data s =
    (case sn_deadline s of None \<Rightarrow> s
     | Some (_, k) \<Rightarrow>
         (case ensure_connected (sn_transport s) of
            (Inr _, t) \<Rightarrow> s\<lparr>sn_transport := push_bytes (take k (tcp_frame data)) t\<rparr>
          | (Inl _, t) \<Rightarrow> s\<lparr>sn_transport := t\<rparr>))"

definition await_send :: "bytes \<Rightarrow> Sender \<Rightarrow> (TellError + unit) awaited \<times> Sender" where
  "await_send data s =
    (if cut_off s then (Expired, cut_send data s)
     else (case send_frame data (sn_transport s) of (r, t) \<Rightarrow> (Ready r, tick (s\<lparr>sn_transport := t\<rparr>))))"

definition await_sleep :: "duration \<Rightarrow> Sender \<Rightarrow> unit awaited \<times> Sender" where
  "await_sleep d s =
    (if cut_off s then (Expired, s) else (Ready (), tick (s\<lparr>sn_slept := sn_slept s @ [d]\<rparr>)))"

subsection \<open>Sending a batch\<close>

definition backoff :: "nat \<Rightarrow> duration" where
  "backoff attempt = 100 * 2 ^ min attempt 10 * 1000000"

definition append_to_wal :: "Sender \<Rightarrow> Sender" where
  "append_to_wal s =
    (case sn_disk_buffer s of None \<Rightarrow> s
     | Some buf \<Rightarrow>
         (case append (sn_batch_buf s) buf of
            (Inr evicted, buf) \<Rightarrow>
              (if 0 < evicted
               then report (BufferError (''disk buffer full: evicted '' @ show_nat evicted @ '' bytes of oldest data''))
                 (s\<lparr>sn_disk_buffer := Some buf\<rparr>)
               else s\<lparr>sn_disk_buffer := Some buf\<rparr>)
          | (Inl e, buf) \<Rightarrow>
              report (BufferError (''failed to buffer batch: '' @ show_io e)) (s\<lparr>sn_disk_buffer := Some buf\<rparr>)))"

text \<open>
  The loop \<open>for attempt in 0..attempts\<close>, by the attempts that are left: \<open>Ready None\<close> when a
  send succeeded and the function returned, \<open>Ready (Some last_err)\<close> after the last attempt.
\<close>

fun attempt_loop :: "nat \<Rightarrow> nat \<Rightarrow> TellError option \<Rightarrow> Sender \<Rightarrow> TellError option option awaited \<times> Sender" where
  "attempt_loop 0 attempt last_err s = (Ready (Some last_err), s)"
| "attempt_loop (Suc left) attempt last_err s =
     (case await_send (sn_batch_buf s) s of
        (Expired, s) \<Rightarrow> (Expired, s)
      | (Ready (Inr _), s) \<Rightarrow> (Ready None, s)
      | (Ready (Inl e), s) \<Rightarrow>
          if 0 < left
          then (case await_sleep (backoff attempt) s of
                  (Expired, s) \<Rightarrow> (Expired, s)
                | (Ready _, s) \<Rightarrow> attempt_loop left (attempt + 1) (Some e) s)
          else attempt_loop left (attempt + 1) (Some e) s)"

text \<open>\<open>self.max_retries + 1\<close> is \<open>u32\<close> arithmetic, which wraps in a release build.\<close>

definition attempts :: "Sender \<Rightarrow> u32" where
  "attempts s = (if sn_disk_buffer s \<noteq> None then 1 else sn_max_retries s + 1)"

definition send_with_fallback :: "Sender \<Rightarrow> unit awaited \<times> Sender" where
  "send_with_fallback s =
    (case attempt_loop (unat (attempts s)) 0 None s of
       (Expired, s) \<Rightarrow> (Expired, s)
     | (Ready None, s) \<Rightarrow> (Ready (), s)
     | (Ready (Some last_err), s) \<Rightarrow>
         if sn_disk_buffer s \<noteq> None then (Ready (), append_to_wal s)
         else (case last_err of None \<Rightarrow> (Ready (), s) | Some e \<Rightarrow> (Ready (), report e s)))"

subsection \<open>Flushing\<close>

type_synonym 'a encoder = "Sender \<Rightarrow> 'a list \<Rightarrow> Sender option"

partial_function (option) flush_queue ::
  "'a encoder \<Rightarrow> Sender \<Rightarrow> 'a list \<Rightarrow> (unit awaited \<times> Sender \<times> 'a list) option" where
  "flush_queue enc s queue =
    (if queue = [] then Some (Ready (), s, [])
     else let n = min (length queue) (sn_batch_size s) in do {
       s \<leftarrow> enc s (take n queue);
       (case send_with_fallback s of
          (Expired, s) \<Rightarrow> Some (Expired, s, queue)
        | (Ready _, s) \<Rightarrow> flush_queue enc s (drop n queue)) })"

partial_function (option) save_queue ::
  "'a encoder \<Rightarrow> Sender \<Rightarrow> 'a list \<Rightarrow> (Sender \<times> 'a list) option" where
  "save_queue enc s queue =
    (if queue = [] then Some (s, [])
     else let n = min (length queue) (sn_batch_size s) in do {
       s \<leftarrow> enc s (take n queue);
       save_queue enc (append_to_wal s) (drop n queue) })"

definition save_queues_to_wal :: "Sender \<Rightarrow> Queues \<Rightarrow> (Sender \<times> Queues) option" where
  "save_queues_to_wal s q =
    (if sn_disk_buffer s = None
     then let total = queues_len q in
       Some (if 0 < total
             then report (BufferError (''no disk buffer configured: dropping '' @ show_nat total @
               '' unsent items on shutdown'')) s
             else s, q)
     else do {
       (s, es) \<leftarrow> save_queue encode_events s (q_events q);
       (s, ls) \<leftarrow> save_queue encode_logs s (q_logs q);
       (s, ms) \<leftarrow> save_queue encode_metrics s (q_metrics q);
       Some (s, \<lparr>q_events = es, q_logs = ls, q_metrics = ms\<rparr>) })"

text \<open>
  The loop of \<open>drain_disk_buffer\<close> on the buffer it borrows. When the send is cut off, the
  frame taken last is neither sent nor put back.
\<close>

partial_function (option) drain_loop ::
  "Sender \<Rightarrow> DiskBuffer \<Rightarrow> (unit awaited \<times> Sender \<times> DiskBuffer) option" where
  "drain_loop s buf =
    (case drain_next buf of
       (Inr None, buf) \<Rightarrow> Some (Ready (), s, buf)
     | (Inl e, buf) \<Rightarrow> Some (Ready (), report (BufferError (''disk buffer read error: '' @ show_io e)) s, buf)
     | (Inr (Some fr), buf) \<Rightarrow>
         (case await_send fr s of
            (Expired, s) \<Rightarrow> Some (Expired, s, buf)
          | (Ready (Inr _), s) \<Rightarrow> drain_loop s buf
          | (Ready (Inl send_err), s) \<Rightarrow>
              (case append fr buf of
                 (Inr _, buf) \<Rightarrow> Some (Ready (), report send_err s, buf)
               | (Inl e, buf) \<Rightarrow>
                   Some (Ready (), report send_err
                     (report (BufferError (''failed to re-buffer frame: '' @ show_io e)) s), buf))))"

definition drain_disk_buffer :: "Sender \<Rightarrow> (unit awaited \<times> Sender) option" where
  "drain_disk_buffer s =
    (case sn_disk_buffer s of
       None \<Rightarrow> Some (Ready (), s)
     | Some buf \<Rightarrow>
         if is_empty buf then Some (Ready (), s)
         else do {
           (r, s, buf) \<leftarrow> drain_loop s buf;
           (case r of
              Expired \<Rightarrow> Some (Expired, s\<lparr>sn_disk_buffer := Some buf\<rparr>)
            | Ready _ \<Rightarrow>
                (case commit buf of
                   (Inr _, buf) \<Rightarrow> Some (Ready (), s\<lparr>sn_disk_buffer := Some buf\<rparr>)
                 | (Inl e, buf) \<Rightarrow> Some (Ready (), report (BufferError (''disk buffer commit error: '' @ show_io e))
                     (s\<lparr>sn_disk_buffer := Some buf\<rparr>)))) })"

text \<open>Sequencing: the rest runs only when the future completed.\<close>

definition then_await ::
  "(unit awaited \<times> Sender \<times> Queues) option \<Rightarrow>
   (Sender \<Rightarrow> Queues \<Rightarrow> (unit awaited \<times> Sender \<times> Queues) option) \<Rightarrow>
   (unit awaited \<times> Sender \<times> Queues) option" where
  "then_await m f = do {
     (r, s, q) \<leftarrow> m;
     (case r of Expired \<Rightarrow> Some (Expired, s, q) | Ready _ \<Rightarrow> f s q) }"

definition flush_events :: "Sender \<Rightarrow> Queues \<Rightarrow> (unit awaited \<times> Sender \<times> Queues) option" where
  "flush_events s q = do {
     (r, s, es) \<leftarrow> flush_queue encode_events s (q_events q); Some (r, s, q\<lparr>q_events := es\<rparr>) }"

definition flush_logs :: "Sender \<Rightarrow> Queues \<Rightarrow> (unit awaited \<times> Sender \<times> Queues) option" where
  "flush_logs s q = do {
     (r, s, ls) \<leftarrow> flush_queue encode_logs s (q_logs q); Some (r, s, q\<lparr>q_logs := ls\<rparr>) }"

definition flush_metrics :: "Sender \<Rightarrow> Queues \<Rightarrow> (unit awaited \<times> Sender \<times> Queues) option" where
  "flush_metrics s q = do {
     (r, s, ms) \<leftarrow> flush_queue encode_metrics s (q_metrics q); Some (r, s, q\<lparr>q_metrics := ms\<rparr>) }"

definition flush_all :: "Sender \<Rightarrow> Queues \<Rightarrow> (unit awaited \<times> Sender \<times> Queues) option" where
  "flush_all s q =
     then_await (do { (r, s) \<leftarrow> drain_disk_buffer s; Some (r, s, q) }) (\<lambda>s q.
     then_await (flush_events s q) (\<lambda>s q.
     then_await (flush_logs s q) flush_metrics))"

definition flush_full_queues :: "Sender \<Rightarrow> Queues \<Rightarrow> (unit awaited \<times> Sender \<times> Queues) option" where
  "flush_full_queues s q =
    (let n = sn_batch_size s in
     then_await (if n \<le> length (q_events q) then flush_events s q else Some (Ready (), s, q)) (\<lambda>s q.
     then_await (if n \<le> length (q_logs q) then flush_logs s q else Some (Ready (), s, q)) (\<lambda>s q.
     if n \<le> length (q_metrics q) then flush_metrics s q else Some (Ready (), s, q))))"

text \<open>
  \<open>shutdown\<close> with the moment its deadline falls: after \<open>awaits\<close> completed awaits, \<open>None\<close> when
  everything is flushed in time. The acks are answered last; the result lists them.
\<close>

definition shutdown :: "(nat \<times> nat) option \<Rightarrow> Sender \<Rightarrow> Queues \<Rightarrow> Acks \<Rightarrow> (Sender \<times> Queues \<times> nat list) option" where
  "shutdown deadline s q acks = do {
     (r, s, q) \<leftarrow> flush_all (s\<lparr>sn_deadline := deadline\<rparr>) q;
     let s = s\<lparr>sn_deadline := None\<rparr>;
     (s, q) \<leftarrow> (case r of
        Ready _ \<Rightarrow> Some (s, q)
      | Expired \<Rightarrow> save_queues_to_wal
          (report (Network ''shutdown flush timed out: saving pending data to disk buffer'') s) q);
     let s = s\<lparr>sn_transport := transport_close (sn_transport s)\<rparr>;
     Some (s, q, acks_order acks) }"

text \<open>When the worker task ends, the sender is dropped, and with it the disk buffer.\<close>

definition drop_sender :: "Sender \<Rightarrow> disk option" where
  "drop_sender s = map_option drop_buffer (sn_disk_buffer s)"

end
