(* ===== verification/Worker_Props.thy ===== *)
theory Worker_Props
  imports Worker
begin

section \<open>What the worker sends\<close>

text \<open>
  The contract of a chunk encoder as a locale, interpreted on the three encoders; flushing and
  saving a queue proved once inside it; retries, draining and the shutdown cases.
\<close>

subsection \<open>A network that works\<close>

definition online :: "Sender \<Rightarrow> bool" where
  "online s \<longleftrightarrow> tp_net (sn_transport s) = [] \<and> sn_deadline s = None \<and> stream_ok (sn_transport s)"

definition sent :: "Sender \<Rightarrow> bytes list" where
  "sent s = written (sn_transport s)"

lemma tick_None [simp]: "sn_deadline s = None \<Longrightarrow> tick s = s"
  by (simp add: tick_def)

lemma send_frame_online:
  assumes "tp_net t = []" "stream_ok t" "length d < 2 ^ 32"
  shows "\<exists>t'. send_frame d t = (Inr (), t') \<and> tp_net t' = [] \<and> stream_ok t' \<and> written t' = written t @ [d]"
proof -
  obtain r t' where s: "send_frame d t = (r, t')" by fastforce
  have "r = Inr () \<and> tp_net t' = []"
    using s assms(1)
    by (auto simp: send_frame_def ensure_connected_def connect_def next_outcome_def push_bytes_def split: if_splits)
  with s send_frame_step [OF assms(2,3) s] show ?thesis by auto
qed

lemma await_send_online:
  assumes "online s" "length d < 2 ^ 32"
  shows "\<exists>t'. await_send d s = (Ready (Inr ()), s\<lparr>sn_transport := t'\<rparr>) \<and>
    online (s\<lparr>sn_transport := t'\<rparr>) \<and> sent (s\<lparr>sn_transport := t'\<rparr>) = sent s @ [d]"
  using send_frame_online [of "sn_transport s" d] assms
  by (auto simp: online_def await_send_def cut_off_def sent_def)

lemma attempts_pos: "sn_disk_buffer s = None \<Longrightarrow> sn_max_retries s \<noteq> - 1 \<Longrightarrow> unat (attempts s) \<noteq> 0"
  by (simp add: attempts_def unat_eq_0) (metis add_eq_0_iff2 add.commute)

lemma send_with_fallback_online:
  assumes "online s" "length (sn_batch_buf s) < 2 ^ 32" "sn_disk_buffer s \<noteq> None \<or> sn_max_retries s \<noteq> - 1"
  shows "\<exists>t'. send_with_fallback s = (Ready (), s\<lparr>sn_transport := t'\<rparr>) \<and>
    online (s\<lparr>sn_transport := t'\<rparr>) \<and> sent (s\<lparr>sn_transport := t'\<rparr>) = sent s @ [sn_batch_buf s]"
proof -
  obtain n where n: "unat (attempts s) = Suc n"
    using attempts_pos [of s] assms(3) by (cases "unat (attempts s)") (auto simp: attempts_def split: if_splits)
  from await_send_online [OF assms(1,2)] show ?thesis
    by (auto simp: send_with_fallback_def n)
qed

subsection \<open>Chunks\<close>

function chunks :: "nat \<Rightarrow> 'a list \<Rightarrow> 'a list list" where
  "chunks n q = (if q = [] \<or> n = 0 then [] else take n q # chunks n (drop n q))"
  by pat_completeness auto
termination by (relation "measure (length \<circ> snd)") auto

declare chunks.simps [simp del]

lemma chunks_Nil [simp]: "chunks n [] = []"
  by (simp add: chunks.simps)

lemma chunks_step: "q \<noteq> [] \<Longrightarrow> 0 < n \<Longrightarrow> chunks n q = take n q # chunks n (drop n q)"
  by (simp add: chunks.simps)

lemma concat_chunks: "0 < n \<Longrightarrow> concat (chunks n q) = q"
  by (induction n q rule: chunks.induct) (subst chunks.simps, auto)

lemma chunks_length: "list_all (\<lambda>c. length c \<le> n) (chunks n q)"
  by (induction n q rule: chunks.induct) (subst chunks.simps, auto)

lemma take_min: "take (min (length q) n) q = take n q" "drop (min (length q) n) q = drop n q"
  by (simp_all add: min_def)

subsection \<open>The contract of a chunk encoder\<close>

definition fits :: "Sender \<Rightarrow> bytes \<Rightarrow> bool" where
  "fits s d \<longleftrightarrow> 62 + length (sn_api_key s) + length d < 2 ^ 32"

definition collect :: "SchemaType \<Rightarrow> (bytes \<Rightarrow> nat \<Rightarrow> 'p list option) \<Rightarrow> bytes \<Rightarrow> 'p list option" where
  "collect ty dec f = do {
     b \<leftarrow> decode_batch f 0;
     if bp_schema_type b = ty then dec (bp_data b) 0 else None }"

definition same_config :: "Sender \<Rightarrow> Sender \<Rightarrow> bool" where
  "same_config s s' \<longleftrightarrow> sn_service s' = sn_service s \<and> sn_source s' = sn_source s \<and> sn_api_key s' = sn_api_key s \<and>
     sn_batch_size s' = sn_batch_size s \<and> sn_max_retries s' = sn_max_retries s"

locale chunk_encoder =
  fixes enc :: "'a encoder"
    and ty :: SchemaType
    and data :: "Sender \<Rightarrow> 'a list \<Rightarrow> bytes"
    and dec :: "bytes \<Rightarrow> nat \<Rightarrow> 'p list option"
    and params :: "Sender \<Rightarrow> 'a \<Rightarrow> 'p"
  assumes enc: "enc s q = Some (encoded s ty (data s q))"
    and reads: "length (data s q) < 2 ^ 32 \<Longrightarrow> dec (data s q) 0 = Some (map (params s) q)"
    and config: "same_config s s' \<Longrightarrow> data s' q = data s q \<and> params s' = params s"
begin

lemma collect_encoded:
  assumes "fits s (data s q)"
  shows "collect ty dec (sn_batch_buf (encoded s ty (data s q))) = Some (map (params s) q)"
    "length (sn_batch_buf (encoded s ty (data s q))) < 2 ^ 32"
proof -
  show len: "length (sn_batch_buf (encoded s ty (data s q))) < 2 ^ 32"
    using batch_layout_length [of 0 "batch_of s ty (data s q)"] assms
    by (simp add: encoded_def fits_def batch_of_def)
  then show "collect ty dec (sn_batch_buf (encoded s ty (data s q))) = Some (map (params s) q)"
    using batch_reads [of s ty "data s q"] reads [of s q]
    by (simp add: encoded_def collect_def batch_of_def)
qed

lemma flush_online:
  assumes "online s" "0 < sn_batch_size s" "sn_disk_buffer s \<noteq> None \<or> sn_max_retries s \<noteq> - 1"
    and "list_all (\<lambda>c. fits s (data s c)) (chunks (sn_batch_size s) q)"
  shows "\<exists>s' frames. flush_queue enc s q = Some (Ready (), s', []) \<and> online s' \<and> same_config s s' \<and>
    sn_disk_buffer s' = sn_disk_buffer s \<and> sent s' = sent s @ frames \<and>
    map (collect ty dec) frames = map (\<lambda>c. Some (map (params s) c)) (chunks (sn_batch_size s) q)"
  using assms
proof (induction "length q" arbitrary: q s rule: less_induct)
  case less
  show ?case
  proof (cases "q = []")
    case True
    then show ?thesis
      using less.prems by (subst flush_queue.simps) (auto simp: same_config_def)
  next
    case False
    let ?n = "sn_batch_size s" and ?c = "take (sn_batch_size s) q"
    have ch: "chunks ?n q = ?c # chunks ?n (drop ?n q)"
      using False less.prems(2) by (rule chunks_step)
    let ?s1 = "encoded s ty (data s ?c)"
    have fit: "fits s (data s ?c)" using less.prems(4) by (simp add: ch)
    have s1: "online ?s1" "same_config s ?s1" "sn_disk_buffer ?s1 = sn_disk_buffer s" "sent ?s1 = sent s"
      "sn_max_retries ?s1 = sn_max_retries s"
      using less.prems(1) by (simp_all add: encoded_def online_def same_config_def sent_def)
    obtain t where t: "send_with_fallback ?s1 = (Ready (), ?s1\<lparr>sn_transport := t\<rparr>)"
      "online (?s1\<lparr>sn_transport := t\<rparr>)" "sent (?s1\<lparr>sn_transport := t\<rparr>) = sent s @ [sn_batch_buf ?s1]"
      using send_with_fallback_online [OF s1(1) collect_encoded(2) [OF fit]] less.prems(3) s1(3-5) by auto
    let ?s2 = "?s1\<lparr>sn_transport := t\<rparr>"
    have cfg: "same_config s ?s2" "sn_disk_buffer ?s2 = sn_disk_buffer s"
      using s1 by (simp_all add: same_config_def)
    have small: "list_all (\<lambda>c. fits ?s2 (data ?s2 c)) (chunks (sn_batch_size ?s2) (drop ?n q))"
      using less.prems(4) cfg config [OF cfg(1)] by (simp add: ch same_config_def fits_def)
    have "length (drop ?n q) < length q"
      using False less.prems(2) by simp
    from less.hyps [OF this t(2) _ _ small] less.prems(2,3) cfg
    obtain s' frames where IH: "flush_queue enc ?s2 (drop ?n q) = Some (Ready (), s', [])" "online s'"
      "same_config ?s2 s'" "sn_disk_buffer s' = sn_disk_buffer ?s2" "sent s' = sent ?s2 @ frames"
      "map (collect ty dec) frames = map (\<lambda>c. Some (map (params ?s2) c)) (chunks (sn_batch_size ?s2) (drop ?n q))"
      by (auto simp: same_config_def)
    have "flush_queue enc s q = Some (Ready (), s', [])"
      using False by (subst flush_queue.simps) (simp add: Let_def take_min enc t(1) IH(1))
    moreover have "map (collect ty dec) (sn_batch_buf ?s1 # frames) =
        map (\<lambda>c. Some (map (params s) c)) (chunks ?n q)"
      using IH(6) config [OF cfg(1)] cfg(1) collect_encoded(1) [OF fit]
      by (simp add: ch same_config_def)
    ultimately show ?thesis
      using IH cfg t(3)
      by (intro exI [of _ s'] exI [of _ "sn_batch_buf ?s1 # frames"]) (simp add: same_config_def)
  qed
qed

text \<open>Saving a queue to a log with room for it: nothing is evicted, the frames follow what is there.\<close>

definition room :: "Sender \<Rightarrow> 'a list \<Rightarrow> nat" where
  "room s q = total (\<lambda>c. 66 + length (sn_api_key s) + length (data s c)) (chunks (sn_batch_size s) q)"

definition saveable :: "Sender \<Rightarrow> 'a list \<Rightarrow> bool" where
  "saveable s q \<longleftrightarrow> list_all (\<lambda>c. 62 + length (sn_api_key s) + length (data s c) \<le> MAX_FRAME_LEN)
     (chunks (sn_batch_size s) q)"

lemma room_config: "same_config s s' \<Longrightarrow> room s' q = room s q \<and> saveable s' q = saveable s q"
  using config [of s s'] by (simp add: room_def saveable_def same_config_def)

lemma save_all:
  assumes "sn_disk_buffer s = Some buf" "db_rep buf a b c" "0 < sn_batch_size s"
    and "saveable s q" "total frame_size c + room s q \<le> db_max_bytes buf"
  shows "\<exists>s' buf' a' b' frames. save_queue enc s q = Some (s', []) \<and> same_config s s' \<and>
    sn_disk_buffer s' = Some buf' \<and> db_rep buf' a' b' (c @ frames) \<and> db_max_bytes buf' = db_max_bytes buf \<and>
    total frame_size frames \<le> room s q \<and> sn_transport s' = sn_transport s \<and> sn_reports s' = sn_reports s \<and>
    map (collect ty dec) frames = map (\<lambda>c. Some (map (params s) c)) (chunks (sn_batch_size s) q)"
  using assms
proof (induction "length q" arbitrary: q s buf a b c rule: less_induct)
  case less
  show ?case
  proof (cases "q = []")
    case True
    then show ?thesis
      using less.prems(1,2) by (subst save_queue.simps) (auto simp: same_config_def)
  next
    case False
    let ?n = "sn_batch_size s" and ?c = "take (sn_batch_size s) q"
    have ch: "chunks ?n q = ?c # chunks ?n (drop ?n q)"
      using False less.prems(3) by (rule chunks_step)
    let ?s1 = "encoded s ty (data s ?c)"
    let ?f = "sn_batch_buf ?s1"
    have max: "62 + length (sn_api_key s) + length (data s ?c) \<le> MAX_FRAME_LEN"
      using less.prems(4) by (simp add: saveable_def ch)
    then have fit: "fits s (data s ?c)" by (simp add: fits_def MAX_FRAME_LEN_def)
    have len: "length ?f \<le> 62 + length (sn_api_key s) + length (data s ?c)"
      using batch_layout_length [of 0 "batch_of s ty (data s ?c)"] by (simp add: encoded_def batch_of_def)
    have ok: "frame_ok ?f" using len max by (simp add: frame_ok_def)
    have size: "frame_size ?f \<le> 66 + length (sn_api_key s) + length (data s ?c)"
      using len by (simp add: frame_size_eq)
    have r: "room s q = 66 + length (sn_api_key s) + length (data s ?c) +
        total (\<lambda>c. 66 + length (sn_api_key s) + length (data s c)) (chunks ?n (drop ?n q))"
      by (simp add: room_def ch)
    have "total frame_size c + frame_size ?f \<le> db_max_bytes buf"
      using size less.prems(5) r by simp
    then obtain buf1 a1 b1 where b1: "append ?f buf = (Inr 0, buf1)" "db_rep buf1 a1 b1 (c @ [?f])"
      "db_max_bytes buf1 = db_max_bytes buf"
      using wal.push [of buf b c ?f 0] less.prems(2) ok by (auto simp: evict_count_fits)
    let ?s2 = "?s1\<lparr>sn_disk_buffer := Some buf1\<rparr>"
    have s2: "append_to_wal ?s1 = ?s2"
      using less.prems(1) b1(1) by (simp add: append_to_wal_def encoded_def)
    have cfg: "same_config s ?s2" by (simp add: same_config_def encoded_def)
    have sv: "saveable ?s2 (drop ?n q)" "room ?s2 (drop ?n q) + frame_size ?f \<le> room s q"
      using room_config [OF cfg, of "drop ?n q"] less.prems(4) size r
      by (simp_all add: saveable_def ch) (simp add: room_def)
    have "length (drop ?n q) < length q" using False less.prems(3) by simp
    from less.hyps [OF this _ b1(2) _ sv(1)] sv(2) less.prems(3,5) b1(3) cfg
    obtain s' buf' a' b' frames where IH: "save_queue enc ?s2 (drop ?n q) = Some (s', [])" "same_config ?s2 s'"
      "sn_disk_buffer s' = Some buf'" "db_rep buf' a' b' ((c @ [?f]) @ frames)" "db_max_bytes buf' = db_max_bytes buf"
      "total frame_size frames \<le> room ?s2 (drop ?n q)" "sn_transport s' = sn_transport s" "sn_reports s' = sn_reports s"
      "map (collect ty dec) frames = map (\<lambda>c. Some (map (params ?s2) c)) (chunks (sn_batch_size ?s2) (drop ?n q))"
      by (auto simp: same_config_def encoded_def)
    have "save_queue enc s q = Some (s', [])"
      using False IH(1) by (subst save_queue.simps) (simp add: Let_def take_min enc s2)
    moreover have "map (collect ty dec) (?f # frames) = map (\<lambda>c. Some (map (params s) c)) (chunks ?n q)"
      using IH(9) config [OF cfg] cfg collect_encoded(1) [OF fit] by (simp add: ch same_config_def)
    ultimately show ?thesis
      using IH cfg sv(2)
      by (intro exI [of _ s'] exI [of _ buf'] exI [of _ a'] exI [of _ b'] exI [of _ "?f # frames"])
        (simp add: same_config_def)
  qed
qed

end

lemma data_config:
  assumes "same_config s s'"
  shows "event_data s' es = event_data s es \<and> event_params s' = event_params s"
    "log_data s' ls = log_data s ls \<and> log_params s' = log_params s"
    "metric_data s' ms = metric_data s ms \<and> metric_params s' = metric_params s"
proof -
  have "event_params s' = event_params s" "log_params s' = log_params s" "metric_params s' = metric_params s"
    using assms by (auto simp: same_config_def event_params_def log_params_def metric_params_def)
  then show "event_data s' es = event_data s es \<and> event_params s' = event_params s"
    "log_data s' ls = log_data s ls \<and> log_params s' = log_params s"
    "metric_data s' ms = metric_data s ms \<and> metric_params s' = metric_params s"
    by (simp_all add: event_data_def log_data_def metric_data_def)
qed

interpretation events: chunk_encoder encode_events SchemaEvent event_data decode_event_data event_params
  by unfold_locales (simp_all add: encode_eq data_reads data_config)

interpretation logs: chunk_encoder encode_logs SchemaLog log_data decode_log_data log_params
  by unfold_locales (simp_all add: encode_eq data_reads data_config)

interpretation metrics: chunk_encoder encode_metrics SchemaMetric metric_data decode_metric_data metric_params
  by unfold_locales (simp_all add: encode_eq data_reads data_config)

text \<open>
  With a network that works, flushing the event queue leaves it empty, and there is
  written, in order, one frame per chunk of at most \<open>batch_size\<close> events; decoded, the frames
  hold exactly the queued events, in order and each once.
\<close>

theorem flush_events_sends:
  assumes "online s" "0 < sn_batch_size s" "sn_disk_buffer s \<noteq> None \<or> sn_max_retries s \<noteq> - 1"
    and "list_all (\<lambda>c. fits s (event_data s c)) (chunks (sn_batch_size s) q)"
  shows "\<exists>s' frames cs. flush_queue encode_events s q = Some (Ready (), s', []) \<and> sent s' = sent s @ frames \<and>
    map (collect SchemaEvent decode_event_data) frames = map (\<lambda>c. Some (map (event_params s) c)) cs \<and>
    concat cs = q \<and> list_all (\<lambda>c. length c \<le> sn_batch_size s) cs"
  using events.flush_online [OF assms] concat_chunks [OF assms(2), of q] chunks_length [of "sn_batch_size s" q]
  by blast

lemma sample_online: "online sample_sender"
  by (simp add: online_def sample_sender_def transport_new_def stream_ok_def)

theorem flush_events_sends_witness:
  "\<exists>s' frames. flush_queue encode_events sample_sender [sample_queued] = Some (Ready (), s', []) \<and>
    sent s' = sent sample_sender @ frames \<and>
    concat (map the (map (collect SchemaEvent decode_event_data) frames)) = [event_params sample_sender sample_queued]"
proof -
  have ch: "chunks 2 [sample_queued] = [[sample_queued]]" by (simp add: chunks_step)
  have "fits sample_sender (event_data sample_sender [sample_queued])"
    using sample_event_data by (simp add: fits_def sample_sender_def)
  then obtain s' frames cs where "flush_queue encode_events sample_sender [sample_queued] = Some (Ready (), s', [])"
    "sent s' = sent sample_sender @ frames" "concat cs = [sample_queued]"
    "map (collect SchemaEvent decode_event_data) frames = map (\<lambda>c. Some (map (event_params sample_sender) c)) cs"
    using flush_events_sends [OF sample_online, of "[sample_queued]"] ch by (auto simp: sample_sender_def)
  moreover have "concat (map the (map (\<lambda>c. Some (map (event_params sample_sender) c)) cs)) =
      map (event_params sample_sender) (concat cs)"
    by (simp add: comp_def map_concat)
  ultimately show ?thesis by (metis list.simps(8,9))
qed

subsection \<open>Retries\<close>

text \<open>Every attempt takes one connect outcome while the collector cannot be reached.\<close>

definition unreachable :: "nat \<Rightarrow> outcome list \<Rightarrow> Sender \<Rightarrow> bool" where
  "unreachable n net s \<longleftrightarrow> tp_stream (sn_transport s) = None \<and> sn_deadline s = None \<and>
     tp_net (sn_transport s) = replicate n (Fails 0) @ net"

lemma await_send_unreachable:
  assumes "unreachable (Suc n) net s"
  shows "\<exists>t. await_send d s = (Ready (Inl (IoError OtherIo)), s\<lparr>sn_transport := t\<rparr>) \<and>
    unreachable n net (s\<lparr>sn_transport := t\<rparr>) \<and> written t = written (sn_transport s)"
  using assms
  by (intro exI [of _ "sn_transport s\<lparr>tp_net := replicate n (Fails 0) @ net\<rparr>"])
    (simp add: unreachable_def await_send_def cut_off_def send_frame_def ensure_connected_def connect_def
      next_outcome_def written_def connections_def)

lemma attempt_loop_fails:
  assumes "unreachable (Suc n) net s"
  shows "\<exists>t. attempt_loop (Suc n) a e s = (Ready (Some (Some (IoError OtherIo))),
      s\<lparr>sn_transport := t, sn_slept := sn_slept s @ map backoff [a..<a + n]\<rparr>) \<and>
    written t = written (sn_transport s) \<and> unreachable 0 net (s\<lparr>sn_transport := t\<rparr>)"
  using assms
proof (induction n arbitrary: a e s)
  case 0
  from await_send_unreachable [OF 0, of "sn_batch_buf s"] obtain t where
    "await_send (sn_batch_buf s) s = (Ready (Inl (IoError OtherIo)), s\<lparr>sn_transport := t\<rparr>)"
    "unreachable 0 net (s\<lparr>sn_transport := t\<rparr>)" "written t = written (sn_transport s)" by blast
  then show ?case by (intro exI [of _ t]) simp
next
  case (Suc n)
  from await_send_unreachable [OF Suc.prems, of "sn_batch_buf s"] obtain t where
    t: "await_send (sn_batch_buf s) s = (Ready (Inl (IoError OtherIo)), s\<lparr>sn_transport := t\<rparr>)"
    "unreachable (Suc n) net (s\<lparr>sn_transport := t\<rparr>)" "written t = written (sn_transport s)" by blast
  let ?s1 = "s\<lparr>sn_transport := t, sn_slept := sn_slept s @ [backoff a]\<rparr>"
  have sleep: "await_sleep (backoff a) (s\<lparr>sn_transport := t\<rparr>) = (Ready (), ?s1)"
    using Suc.prems by (simp add: await_sleep_def cut_off_def unreachable_def)
  have "unreachable (Suc n) net ?s1" using t(2) by (simp add: unreachable_def)
  from Suc.IH [OF this, of "a + 1" "Some (IoError OtherIo)"] obtain u where
    u: "attempt_loop (Suc n) (a + 1) (Some (IoError OtherIo)) ?s1 = (Ready (Some (Some (IoError OtherIo))),
      ?s1\<lparr>sn_transport := u, sn_slept := sn_slept ?s1 @ map backoff [a + 1..<a + 1 + n]\<rparr>)"
    "written u = written t" "unreachable 0 net (?s1\<lparr>sn_transport := u\<rparr>)" by auto
  have "attempt_loop (Suc (Suc n)) a e s = attempt_loop (Suc n) (a + 1) (Some (IoError OtherIo)) ?s1"
    by (subst attempt_loop.simps(2)) (simp del: attempt_loop.simps add: t(1) sleep)
  moreover have "[a..<a + Suc n] = a # [a + 1..<a + 1 + n]" by (simp add: upt_conv_Cons del: upt_Suc)
  ultimately show ?case
    using u t(3) by (intro exI [of _ u]) (simp del: attempt_loop.simps upt_Suc add: unreachable_def)
qed

lemma attempt_loop_recovers:
  assumes "unreachable j [] s" "j \<le> n" "stream_ok (sn_transport s)" "length (sn_batch_buf s) < 2 ^ 32"
  shows "\<exists>t. attempt_loop (Suc n) a e s = (Ready None,
      s\<lparr>sn_transport := t, sn_slept := sn_slept s @ map backoff [a..<a + j]\<rparr>) \<and>
    written t = written (sn_transport s) @ [sn_batch_buf s]"
  using assms
proof (induction j arbitrary: a e s n)
  case 0
  then have "online s" by (simp add: online_def unreachable_def)
  from await_send_online [OF this 0(4)] show ?case by (auto simp: sent_def)
next
  case (Suc j)
  then obtain m where m: "n = Suc m" by (cases n) auto
  from await_send_unreachable [OF Suc.prems(1), of "sn_batch_buf s"] obtain t where
    t: "await_send (sn_batch_buf s) s = (Ready (Inl (IoError OtherIo)), s\<lparr>sn_transport := t\<rparr>)"
    "unreachable j [] (s\<lparr>sn_transport := t\<rparr>)" "written t = written (sn_transport s)" by blast
  let ?s1 = "s\<lparr>sn_transport := t, sn_slept := sn_slept s @ [backoff a]\<rparr>"
  have sleep: "await_sleep (backoff a) (s\<lparr>sn_transport := t\<rparr>) = (Ready (), ?s1)"
    using Suc.prems by (simp add: await_sleep_def cut_off_def unreachable_def)
  have "unreachable j [] ?s1" "stream_ok (sn_transport ?s1)"
    using t(2) by (simp_all add: unreachable_def stream_ok_def)
  from Suc.IH [OF this(1) _ this(2), of m "a + 1" "Some (IoError OtherIo)"] Suc.prems(2,4) m obtain u where
    u: "attempt_loop (Suc m) (a + 1) (Some (IoError OtherIo)) ?s1 = (Ready None,
      ?s1\<lparr>sn_transport := u, sn_slept := sn_slept ?s1 @ map backoff [a + 1..<a + 1 + j]\<rparr>)"
    "written u = written t @ [sn_batch_buf s]" by auto
  have "attempt_loop (Suc n) a e s = attempt_loop (Suc m) (a + 1) (Some (IoError OtherIo)) ?s1"
    unfolding m by (subst attempt_loop.simps(2)) (simp del: attempt_loop.simps add: t(1) sleep)
  moreover have "[a..<a + Suc j] = a # [a + 1..<a + 1 + j]" by (simp add: upt_conv_Cons del: upt_Suc)
  ultimately show ?case
    using u t(3) by (intro exI [of _ u]) (simp del: attempt_loop.simps upt_Suc)
qed

text \<open>
  C26: without a disk buffer a batch is tried up to \<open>max_retries + 1\<close> times with the
  backoffs 100, 200, 400, ... milliseconds in between. If the collector comes back within
  the retries, the frame is written once and nothing is reported; otherwise the last error
  is reported and the batch is dropped.
\<close>

theorem retries:
  assumes "sn_disk_buffer s = None" "sn_max_retries s \<noteq> - 1" "sn_on_error s" "stream_ok (sn_transport s)"
    and "length (sn_batch_buf s) < 2 ^ 32" "r = unat (sn_max_retries s)"
  shows "(unreachable (Suc r) net s \<longrightarrow> (\<exists>s'. send_with_fallback s = (Ready (), s') \<and> sent s' = sent s \<and>
      sn_slept s' = sn_slept s @ map backoff [0..<r] \<and> sn_reports s' = sn_reports s @ [IoError OtherIo])) \<and>
    (j \<le> r \<and> unreachable j [] s \<longrightarrow> (\<exists>s'. send_with_fallback s = (Ready (), s') \<and>
      sent s' = sent s @ [sn_batch_buf s] \<and> sn_slept s' = sn_slept s @ map backoff [0..<j] \<and>
      sn_reports s' = sn_reports s))"
proof -
  have "unat (sn_max_retries s + 1) = Suc r"
    using assms(2,6) unatSuc [of "sn_max_retries s"] by (metis add.commute add_eq_0_iff2)
  then have n: "unat (attempts s) = Suc r" using assms(1) by (simp add: attempts_def)
  show ?thesis
  proof (intro conjI impI)
    assume "unreachable (Suc r) net s"
    from attempt_loop_fails [OF this, of 0 None] show "\<exists>s'. send_with_fallback s = (Ready (), s') \<and> sent s' = sent s \<and>
      sn_slept s' = sn_slept s @ map backoff [0..<r] \<and> sn_reports s' = sn_reports s @ [IoError OtherIo]"
      using assms(1,3) unfolding send_with_fallback_def n by (auto simp: report_def sent_def)
  next
    assume "j \<le> r \<and> unreachable j [] s"
    then show "\<exists>s'. send_with_fallback s = (Ready (), s') \<and> sent s' = sent s @ [sn_batch_buf s] \<and>
      sn_slept s' = sn_slept s @ map backoff [0..<j] \<and> sn_reports s' = sn_reports s"
      using attempt_loop_recovers [of j s r 0 None] assms(4,5)
      unfolding send_with_fallback_def n by (auto simp: sent_def)
  qed
qed

theorem retries_witness:
  "\<exists>s'. send_with_fallback (sample_sender\<lparr>sn_transport := transport_new [Fails 0, Fails 0]\<rparr>) = (Ready (), s') \<and>
    sent s' = [[]] \<and> sn_slept s' = [100000000, 200000000]"
proof -
  let ?s = "sample_sender\<lparr>sn_transport := transport_new [Fails 0, Fails 0]\<rparr>"
  have two: "replicate 2 (Fails 0) = [Fails 0, Fails 0]" "map backoff [0..<2] = [100000000, 200000000]"
    by (simp_all add: numeral_2_eq_2 backoff_def)
  have "sn_disk_buffer ?s = None" "sn_max_retries ?s \<noteq> - 1" "sn_on_error ?s" "stream_ok (sn_transport ?s)"
    "length (sn_batch_buf ?s) < 2 ^ 32" "3 = unat (sn_max_retries ?s)" "unreachable 2 [] ?s" "sn_slept ?s = []"
    "sn_batch_buf ?s = []" "sent ?s = []"
    by (simp_all add: sample_sender_def transport_new_def stream_ok_def unreachable_def two sent_def written_def
        connections_def)
  with retries [OF this(1-6), of "[]" 2] show ?thesis by (simp add: two) blast
qed

text \<open>
  \<open>max_retries + 1\<close> wraps at the largest \<open>u32\<close>: in a release build that setting makes
  no attempt at all, and the batch is dropped with nothing sent and nothing reported.
\<close>

theorem max_retries_wraps:
  assumes "sn_disk_buffer s = None" "sn_max_retries s = 4294967295"
  shows "send_with_fallback s = (Ready (), s)"
proof -
  have "attempts s = 0" using assms by (simp add: attempts_def)
  then show ?thesis using assms(1) by (simp add: send_with_fallback_def)
qed

theorem max_retries_wraps_witness:
  "send_with_fallback (sample_sender\<lparr>sn_max_retries := 4294967295\<rparr>) =
    (Ready (), sample_sender\<lparr>sn_max_retries := 4294967295\<rparr>)"
  using max_retries_wraps [of "sample_sender\<lparr>sn_max_retries := 4294967295\<rparr>"] by (simp add: sample_sender_def)

end
