(* ===== verification/Worker_Drain.thy ===== *)
theory Worker_Drain
  imports Worker_Props
begin

section \<open>Draining the disk buffer and shutting down\<close>

text \<open>
  A drain pass on a network that works, a pass that meets a failing send, and the two ends of
  a shutdown whose deadline expires. The disk buffer enters only through its contract.
\<close>

definition small_frames :: "bytes list \<Rightarrow> bool" where
  "small_frames c \<longleftrightarrow> list_all frame_ok c"

lemma frame_ok_sendable: "frame_ok f \<Longrightarrow> length f < 2 ^ 32"
  by (simp add: frame_ok_def MAX_FRAME_LEN_def)

lemma drain_pop:
  assumes "db_rep buf a b (f # c)"
  obtains buf' where "drain_next buf = (Inr (Some f), buf')" "db_rep buf' a (b @ [f]) c"
    "db_max_bytes buf' = db_max_bytes buf" "frame_ok f"
  using drain_next_Cons [OF assms] assms by (auto simp: db_rep_def)

lemma drain_loop_online:
  assumes "online s" "db_rep buf a b c"
  shows "\<exists>t buf'. drain_loop s buf = Some (Ready (), s\<lparr>sn_transport := t\<rparr>, buf') \<and>
    online (s\<lparr>sn_transport := t\<rparr>) \<and> written t = sent s @ c \<and> db_rep buf' a (b @ c) [] \<and>
    db_max_bytes buf' = db_max_bytes buf"
  using assms
proof (induction c arbitrary: s buf b)
  case Nil
  then show ?case
    by (intro exI [of _ "sn_transport s"] exI [of _ buf], subst drain_loop.simps)
      (simp add: drain_next_Nil [OF Nil(2)] sent_def)
next
  case (Cons f c)
  obtain buf1 where d: "drain_next buf = (Inr (Some f), buf1)" "db_rep buf1 a (b @ [f]) c"
    "db_max_bytes buf1 = db_max_bytes buf" "frame_ok f"
    by (rule drain_pop [OF Cons.prems(2)])
  obtain t where t: "await_send f s = (Ready (Inr ()), s\<lparr>sn_transport := t\<rparr>)" "online (s\<lparr>sn_transport := t\<rparr>)"
    "sent (s\<lparr>sn_transport := t\<rparr>) = sent s @ [f]"
    using await_send_online [OF Cons.prems(1) frame_ok_sendable [OF d(4)]] by blast
  from Cons.IH [OF t(2) d(2)] obtain u buf' where
    "drain_loop (s\<lparr>sn_transport := t\<rparr>) buf1 = Some (Ready (), s\<lparr>sn_transport := u\<rparr>, buf')"
    "online (s\<lparr>sn_transport := u\<rparr>)" "written u = sent s @ f # c" "db_rep buf' a (b @ f # c) []"
    "db_max_bytes buf' = db_max_bytes buf1"
    using t(3) by auto
  with d t show ?case
    by (intro exI [of _ u] exI [of _ buf'], subst drain_loop.simps) simp
qed

lemma is_empty_rep: "db_rep buf a b c \<Longrightarrow> is_empty buf \<longleftrightarrow> c = []"
  using db_rep_buffered by blast

text \<open>The frames waiting in the sender's disk buffer; none without one.\<close>

definition buffered :: "Sender \<Rightarrow> bytes list \<Rightarrow> bool" where
  "buffered s c \<longleftrightarrow> (case sn_disk_buffer s of None \<Rightarrow> c = [] | Some buf \<Rightarrow> \<exists>a b. db_rep buf a b c)"

definition committed :: "Sender \<Rightarrow> bool" where
  "committed s \<longleftrightarrow> (\<exists>buf a. sn_disk_buffer s = Some buf \<and> db_rep buf a [] [])"

lemma drain_online:
  assumes "online s" "buffered s c"
  shows "\<exists>s'. drain_disk_buffer s = Some (Ready (), s') \<and> online s' \<and> same_config s s' \<and>
    sent s' = sent s @ c \<and> buffered s' [] \<and> (sn_disk_buffer s' = None \<longleftrightarrow> sn_disk_buffer s = None) \<and>
    sn_reports s' = sn_reports s \<and> (c \<noteq> [] \<longrightarrow> committed s')"
proof (cases "sn_disk_buffer s")
  case None
  then show ?thesis using assms by (simp add: drain_disk_buffer_def buffered_def same_config_def)
next
  case (Some buf)
  then obtain a b where rep: "db_rep buf a b c" using assms(2) by (auto simp: buffered_def)
  show ?thesis
  proof (cases "c = []")
    case True
    then show ?thesis using assms Some is_empty_rep [OF rep] by (simp add: drain_disk_buffer_def same_config_def)
  next
    case False
    obtain t buf1 where l: "drain_loop s buf = Some (Ready (), s\<lparr>sn_transport := t\<rparr>, buf1)" "written t = sent s @ c"
      "db_rep buf1 a (b @ c) []" "online (s\<lparr>sn_transport := t\<rparr>)"
      using drain_loop_online [OF assms(1) rep] by blast
    obtain buf2 a' where "commit buf1 = (Inr (), buf2)" "db_rep buf2 a' [] []"
      using commit_rep [OF l(3)] by blast
    with l Some False is_empty_rep [OF rep] show ?thesis
      by (auto simp: drain_disk_buffer_def sent_def same_config_def buffered_def online_def committed_def)
  qed
qed

text \<open>
  With a network that works a drain pass ends, sends every frame of the log in order and
  each once, and leaves the log empty with its cursor committed, so that a crash afterwards
  sends nothing again.
\<close>

theorem drain_sends_all:
  assumes "online s" "sn_disk_buffer s = Some buf" "db_rep buf a b c" "c \<noteq> []"
  shows "\<exists>s' buf' a'. drain_disk_buffer s = Some (Ready (), s') \<and> sent s' = sent s @ c \<and>
    sn_disk_buffer s' = Some buf' \<and> db_rep buf' a' [] [] \<and> sn_reports s' = sn_reports s"
proof -
  have "buffered s c" using assms(2,3) by (auto simp: buffered_def)
  from drain_online [OF assms(1) this] assms(4) show ?thesis by (auto simp: committed_def)
qed

theorem drain_sends_all_witness:
  "\<exists>s' buf'. drain_disk_buffer (sample_sender\<lparr>sn_disk_buffer := Some (sample_db 100 [[1, 2], [3]])\<rparr>) =
      Some (Ready (), s') \<and> sent s' = [[1, 2], [3]] \<and> sn_disk_buffer s' = Some buf' \<and> is_empty buf'"
proof -
  let ?s = "sample_sender\<lparr>sn_disk_buffer := Some (sample_db 100 [[1, 2], [3]])\<rparr>"
  have "online ?s" using sample_online by (simp add: online_def)
  moreover have "db_rep (sample_db 100 [[1, 2], [3]]) [] [] [[1, 2], [3]]"
    by (rule sample_db_rep) (simp add: frame_ok_def MAX_FRAME_LEN_def)
  moreover have "sent ?s = []"
    by (simp add: sent_def sample_sender_def transport_new_def written_def connections_def)
  ultimately obtain s' buf' a' where "drain_disk_buffer ?s = Some (Ready (), s')" "sent s' = [[1, 2], [3]]"
    "sn_disk_buffer s' = Some buf'" "db_rep buf' a' [] []"
    using drain_sends_all [of ?s "sample_db 100 [[1, 2], [3]]" "[]" "[]" "[[1, 2], [3]]"] by auto
  then show ?thesis using is_empty_rep by blast
qed

subsection \<open>A failing send\<close>

text \<open>The connection is open and takes \<open>n\<close> more frames before a write fails.\<close>

definition fails_after :: "nat \<Rightarrow> nat \<Rightarrow> Sender \<Rightarrow> bool" where
  "fails_after n k s \<longleftrightarrow> tp_stream (sn_transport s) \<noteq> None \<and> stream_ok (sn_transport s) \<and> sn_deadline s = None \<and>
     tp_net (sn_transport s) = replicate n Succeeds @ [Fails k]"

lemma await_send_before_failure:
  assumes "fails_after (Suc n) k s" "length d < 2 ^ 32"
  shows "\<exists>t. await_send d s = (Ready (Inr ()), s\<lparr>sn_transport := t\<rparr>) \<and>
    fails_after n k (s\<lparr>sn_transport := t\<rparr>) \<and> written t = sent s @ [d]"
proof -
  obtain x where x: "tp_stream (sn_transport s) = Some x" using assms(1) by (auto simp: fails_after_def)
  let ?t = "push_bytes (tcp_frame d) (sn_transport s\<lparr>tp_net := replicate n Succeeds @ [Fails k]\<rparr>)"
  have s: "send_frame d (sn_transport s) = (Inr (), ?t)"
    using assms(1) x by (simp add: send_frame_def ensure_connected_def next_outcome_def fails_after_def)
  have step: "in_step x" using assms(1) x by (simp add: fails_after_def stream_ok_def)
  have "written ?t = sent s @ [d]"
    using x in_step_frame(2) [OF step assms(2)] by (simp add: sent_def written_def connections_def push_bytes_def)
  moreover have "fails_after n k (s\<lparr>sn_transport := ?t\<rparr>)"
    using assms(1) x in_step_frame(1) [OF step assms(2)] by (simp add: fails_after_def push_bytes_def stream_ok_def)
  moreover have "await_send d s = (Ready (Inr ()), s\<lparr>sn_transport := ?t\<rparr>)"
    using assms(1) s by (simp add: await_send_def cut_off_def fails_after_def)
  ultimately show ?thesis by blast
qed

lemma await_send_at_failure:
  assumes "fails_after 0 k s" "length d < 2 ^ 32" "k < 4 + length d"
  shows "\<exists>t. await_send d s = (Ready (Inl (IoError OtherIo)), s\<lparr>sn_transport := t\<rparr>) \<and> written t = sent s"
proof -
  obtain x where x: "tp_stream (sn_transport s) = Some x" using assms(1) by (auto simp: fails_after_def)
  have step: "in_step x" using assms(1) x by (simp add: fails_after_def stream_ok_def)
  let ?t = "drop_stream (push_bytes (take k (tcp_frame d)) (sn_transport s\<lparr>tp_net := []\<rparr>))"
  have "send_frame d (sn_transport s) = (Inl (IoError OtherIo), ?t)"
    using assms(1) x by (simp add: send_frame_def ensure_connected_def next_outcome_def fails_after_def)
  moreover have "written ?t = sent s"
    using x peer_frames_cut [OF step assms(2), of k] assms(3)
    by (simp add: sent_def written_def connections_def push_bytes_def drop_stream_def)
  ultimately show ?thesis
    using assms(1) by (auto simp: await_send_def cut_off_def fails_after_def)
qed

lemma drain_loop_fails:
  assumes "fails_after (length xs) k s" "db_rep buf a b (xs @ f # ys)" "k < 4 + length f"
    and "n = evict_count frame_size (db_max_bytes buf) (frame_size f) ys"
  shows "\<exists>t buf' a' b'. drain_loop s buf = Some (Ready (), report (IoError OtherIo) (s\<lparr>sn_transport := t\<rparr>), buf') \<and>
    written t = sent s @ xs \<and> db_rep buf' a' b' (drop n ys @ [f])"
  using assms
proof (induction xs arbitrary: s buf b)
  case Nil
  obtain buf1 where d: "drain_next buf = (Inr (Some f), buf1)" "db_rep buf1 a (b @ [f]) ys"
    "db_max_bytes buf1 = db_max_bytes buf" "frame_ok f"
    by (rule drain_pop [of buf a b f ys]) (use Nil.prems(2) in simp)
  obtain t where t: "await_send f s = (Ready (Inl (IoError OtherIo)), s\<lparr>sn_transport := t\<rparr>)" "written t = sent s"
    using await_send_at_failure [of k s f] Nil.prems(1,3) frame_ok_sendable [OF d(4)] by auto
  obtain e buf2 a2 b2 where "append f buf1 = (Inr e, buf2)" "db_rep buf2 a2 b2 (drop n ys @ [f])"
    using wal.push [of buf1 "b @ [f]" ys f n] d Nil.prems(4) by (auto split: if_splits)
  with d t show ?case
    by (intro exI [of _ t] exI [of _ buf2] exI [of _ a2] exI [of _ b2], subst drain_loop.simps) simp
next
  case (Cons x xs)
  obtain buf1 where d: "drain_next buf = (Inr (Some x), buf1)" "db_rep buf1 a (b @ [x]) (xs @ f # ys)"
    "db_max_bytes buf1 = db_max_bytes buf" "frame_ok x"
    by (rule drain_pop [of buf a b x "xs @ f # ys"]) (use Cons.prems(2) in simp)
  obtain t where t: "await_send x s = (Ready (Inr ()), s\<lparr>sn_transport := t\<rparr>)"
    "fails_after (length xs) k (s\<lparr>sn_transport := t\<rparr>)" "written t = sent s @ [x]"
    using await_send_before_failure [of "length xs" k s x] Cons.prems(1) frame_ok_sendable [OF d(4)] by auto
  obtain u buf' a' b' where IH: "drain_loop (s\<lparr>sn_transport := t\<rparr>) buf1 =
      Some (Ready (), report (IoError OtherIo) (s\<lparr>sn_transport := u\<rparr>), buf')"
    "written u = sent s @ x # xs" "db_rep buf' a' b' (drop n ys @ [f])"
    using Cons.IH [OF t(2) d(2) Cons.prems(3)] Cons.prems(4) d(3) t(3) by (auto simp: sent_def)
  show ?case
    by (rule exI [of _ u], rule exI [of _ buf'], rule exI [of _ a'], rule exI [of _ b'], subst drain_loop.simps)
      (simp add: d(1) t(1) IH)
qed

text \<open>
  When a send fails in the middle of a drain pass, the frames before it were written
  and nothing is lost, but the frame that failed is put back behind the frames that waited
  after it: the order in which the log sends is rotated, not first in, first out.
\<close>

theorem drain_failure_rotates:
  assumes "fails_after (length xs) k s" "sn_disk_buffer s = Some buf" "db_rep buf a b (xs @ f # ys)"
    and "k < 4 + length f" "total frame_size ys + frame_size f \<le> db_max_bytes buf"
  shows "\<exists>s' buf' a'. drain_disk_buffer s = Some (Ready (), s') \<and> sent s' = sent s @ xs \<and>
    sn_disk_buffer s' = Some buf' \<and> db_rep buf' a' [] (ys @ [f])"
proof -
  obtain t buf1 a1 b1 where l: "drain_loop s buf = Some (Ready (), report (IoError OtherIo) (s\<lparr>sn_transport := t\<rparr>), buf1)"
    "written t = sent s @ xs" "db_rep buf1 a1 b1 (ys @ [f])"
    using drain_loop_fails [OF assms(1,3,4) refl] assms(5) by (auto simp: evict_count_fits)
  obtain buf2 a' where "commit buf1 = (Inr (), buf2)" "db_rep buf2 a' [] (ys @ [f])"
    using commit_rep [OF l(3)] by blast
  with l assms(2) is_empty_rep [OF assms(3)] show ?thesis
    by (simp add: drain_disk_buffer_def sent_def report_def) blast
qed

theorem drain_failure_rotates_witness:
  "\<exists>s' buf' a'. drain_disk_buffer (sample_sender\<lparr>sn_disk_buffer := Some (sample_db 100 [[1], [2], [3]]),
       sn_transport := \<lparr>tp_stream = Some [], tp_past = [], tp_net = [Succeeds, Fails 2]\<rparr>\<rparr>) = Some (Ready (), s') \<and>
     sent s' = [[1]] \<and> sn_disk_buffer s' = Some buf' \<and> db_rep buf' a' [] [[3], [2]]"
proof -
  let ?s = "sample_sender\<lparr>sn_disk_buffer := Some (sample_db 100 [[1], [2], [3]]),
       sn_transport := \<lparr>tp_stream = Some [], tp_past = [], tp_net = [Succeeds, Fails 2]\<rparr>\<rparr>"
  have "fails_after (length [[1 :: u8]]) 2 ?s"
    by (simp add: fails_after_def stream_ok_def in_step_def sample_sender_def)
  moreover have "db_rep (sample_db 100 [[1], [2], [3]]) [] [] ([[1]] @ [2] # [[3]])"
    using sample_db_rep [of "[[1], [2], [3]]" 100] by (simp add: frame_ok_def MAX_FRAME_LEN_def)
  moreover have "sent ?s = []" by (simp add: sent_def written_def connections_def)
  ultimately show ?thesis
    using drain_failure_rotates [of "[[1]]" 2 ?s "sample_db 100 [[1], [2], [3]]" "[]" "[]" "[2]" "[[3]]"]
    by (simp add: frame_size_eq sample_db_def)
qed

text \<open>
  A log above its capacity, as after a restart with a lower limit, loses its oldest frames when a
  drain fails: putting the failed frame back evicts them, and unlike \<open>append_to_wal\<close> the drain
  does not look at what was evicted. The send error is the only one reported.
\<close>

theorem drain_evicts_silently:
  assumes "fails_after 0 k s" "sn_disk_buffer s = Some buf" "db_rep buf a b (f # ys)" "k < 4 + length f"
    and "n = evict_count frame_size (db_max_bytes buf) (frame_size f) ys"
  shows "\<exists>s' buf' a'. drain_disk_buffer s = Some (Ready (), s') \<and> sent s' = sent s \<and>
    sn_reports s' = sn_reports (report (IoError OtherIo) s) \<and>
    sn_disk_buffer s' = Some buf' \<and> db_rep buf' a' [] (drop n ys @ [f])"
proof -
  obtain t buf1 a1 b1 where l: "drain_loop s buf = Some (Ready (), report (IoError OtherIo) (s\<lparr>sn_transport := t\<rparr>), buf1)"
    "written t = sent s" "db_rep buf1 a1 b1 (drop n ys @ [f])"
    using drain_loop_fails [of "[]" k s buf a b f ys, OF _ _ assms(4,5)] assms(1,3) by auto
  obtain buf2 a' where "commit buf1 = (Inr (), buf2)" "db_rep buf2 a' [] (drop n ys @ [f])"
    using commit_rep [OF l(3)] by blast
  with l assms(2) is_empty_rep [OF assms(3)] show ?thesis
    by (simp add: drain_disk_buffer_def sent_def report_def) blast
qed

theorem drain_evicts_silently_witness:
  "\<exists>s' buf' a'. drain_disk_buffer (sample_sender\<lparr>sn_disk_buffer := Some (sample_db 10 [[1], [2], [3]]),
       sn_transport := \<lparr>tp_stream = Some [], tp_past = [], tp_net = [Fails 2]\<rparr>\<rparr>) = Some (Ready (), s') \<and>
     sn_reports s' = [IoError OtherIo] \<and> sn_disk_buffer s' = Some buf' \<and> db_rep buf' a' [] [[3], [1]]"
proof -
  let ?s = "sample_sender\<lparr>sn_disk_buffer := Some (sample_db 10 [[1], [2], [3]]),
       sn_transport := \<lparr>tp_stream = Some [], tp_past = [], tp_net = [Fails 2]\<rparr>\<rparr>"
  have "fails_after 0 2 ?s" by (simp add: fails_after_def stream_ok_def in_step_def sample_sender_def)
  moreover have "db_rep (sample_db 10 [[1], [2], [3]]) [] [] ([1] # [[2], [3]])"
    using sample_db_rep [of "[[1], [2], [3]]" 10] by (simp add: frame_ok_def MAX_FRAME_LEN_def)
  moreover have "sn_reports (report (IoError OtherIo) ?s) = [IoError OtherIo]" by (simp add: report_def sample_sender_def)
  moreover have "1 = evict_count frame_size (db_max_bytes (sample_db 10 [[1], [2], [3]])) (frame_size [1]) [[2], [3]]"
    by (simp add: frame_size_eq sample_db_def)
  moreover have "drop 1 [[2], [3]] @ [[1 :: u8]] = [[3], [1]]" "sn_disk_buffer ?s = Some (sample_db 10 [[1], [2], [3]])" "2 < 4 + length [1 :: u8]"
    by simp_all
  ultimately show ?thesis
    using drain_evicts_silently [of 2 ?s "sample_db 10 [[1], [2], [3]]" "[]" "[]" "[1]" "[[2], [3]]" 1] by metis
qed

subsection \<open>A shutdown whose deadline expires\<close>

lemma drop_buffer_reopens:
  assumes "db_rep buf a b c"
  shows "\<exists>buf'. open_buffer m (drop_buffer buf) = (Inr (), buf') \<and> db_rep buf' (a @ wal_of b) [] c \<and> db_max_bytes buf' = m"
proof -
  have h: "healthy buf" using assms by (simp add: db_rep_def)
  show "\<exists>s. open_buffer m (drop_buffer buf) = (Inr (), s) \<and> db_rep s (a @ wal_of b) [] c \<and> db_max_bytes s = m"
  proof (rule open_buffer_rep)
    have wc: "write_cursor p buf = (Inr (), on_disk (\<lambda>d. d\<lparr>d_cursor := CursorAt p\<rparr>) buf)" for p
      using h by (simp add: write_cursor_def io_simps)
    show "d_faults (drop_buffer buf) = []" "d_wal (drop_buffer buf) = Some ((a @ wal_of b) @ wal_of c)"
      "\<not> d_symlink (drop_buffer buf)" "list_all frame_ok c"
      "d_cursor (drop_buffer buf) = CursorAt (length (a @ wal_of b)) \<or>
       d_cursor (drop_buffer buf) = NoCursor \<and> a @ wal_of b = []"
      using assms h by (auto simp: drop_buffer_def wc on_disk_def db_rep_def healthy_def)
  qed
qed

lemma cut_send_written:
  assumes "online s"
  shows "\<exists>t. cut_send d (s\<lparr>sn_deadline := Some (0, 0)\<rparr>) = s\<lparr>sn_deadline := Some (0, 0), sn_transport := t\<rparr> \<and>
    written t = sent s"
proof -
  obtain r t where e: "ensure_connected (sn_transport s) = (r, t)" by fastforce
  note step = ensure_connected_step [OF _ e]
  have "written t = sent s" using step(2) assms by (simp add: online_def sent_def)
  moreover have "written (push_bytes [] t) = written t"
    by (simp add: push_bytes_def written_def connections_def split: option.split)
  ultimately show ?thesis
    using e by (cases r) (auto simp: cut_send_def)
qed

lemma written_close: "written (transport_close t) = written t"
  by (auto simp: transport_close_def drop_stream_def written_def connections_def split: option.split)

definition no_queues :: Queues where
  "no_queues = \<lparr>q_events = [], q_logs = [], q_metrics = []\<rparr>"

lemma save_nothing:
  "sn_disk_buffer s \<noteq> None \<Longrightarrow> save_queues_to_wal s no_queues = Some (s, no_queues)"
  by (cases "sn_disk_buffer s") (simp_all add: save_queues_to_wal_def no_queues_def save_queue.simps)

text \<open>
  C39: when the deadline of a shutdown falls while a frame of the log is being sent, that
  frame is lost. Its place in the log was already taken, it is not put back, and when the
  worker ends the destructor writes the advanced cursor: a restart finds only the frames
  after it, although it was not written whole to any connection.
\<close>

theorem shutdown_deadline_loses_frame:
  assumes "online s" "sn_disk_buffer s = Some buf" "db_rep buf a b (f # c)"
  shows "\<exists>s' d buf' a'. shutdown (Some (0, 0)) s no_queues acks = Some (s', no_queues, acks_order acks) \<and>
    sent s' = sent s \<and> drop_sender s' = Some d \<and>
    open_buffer m d = (Inr (), buf') \<and> db_rep buf' a' [] c"
proof -
  let ?s = "s\<lparr>sn_deadline := Some (0, 0)\<rparr>"
  obtain buf1 where d: "drain_next buf = (Inr (Some f), buf1)" "db_rep buf1 a (b @ [f]) c"
    by (rule drain_pop [OF assms(3)]) blast
  obtain t where t: "cut_send f ?s = s\<lparr>sn_deadline := Some (0, 0), sn_transport := t\<rparr>" "written t = sent s"
    using cut_send_written [OF assms(1)] by blast
  have "drain_loop ?s buf = Some (Expired, s\<lparr>sn_deadline := Some (0, 0), sn_transport := t\<rparr>, buf1)"
    by (subst drain_loop.simps) (simp add: d(1) await_send_def cut_off_def t(1))
  then have "flush_all ?s no_queues = Some (Expired,
      s\<lparr>sn_deadline := Some (0, 0), sn_transport := t, sn_disk_buffer := Some buf1\<rparr>, no_queues)"
    using assms(2) is_empty_rep [OF assms(3)]
    by (simp add: flush_all_def then_await_def drain_disk_buffer_def)
  then obtain s' where "shutdown (Some (0, 0)) s no_queues acks = Some (s', no_queues, acks_order acks)"
    "sn_transport s' = transport_close t" "sn_disk_buffer s' = Some buf1"
    by (simp add: shutdown_def Let_def save_nothing report_def)
  with t(2) drop_buffer_reopens [OF d(2), of m] show ?thesis
    by (auto simp: sent_def written_close drop_sender_def)
qed

theorem shutdown_deadline_loses_frame_witness:
  "\<exists>s' d buf' a'. shutdown (Some (0, 0)) (sample_sender\<lparr>sn_disk_buffer := Some (sample_db 100 [[1], [2]])\<rparr>)
      no_queues no_acks = Some (s', no_queues, []) \<and>
    sent s' = [] \<and> drop_sender s' = Some d \<and> open_buffer 100 d = (Inr (), buf') \<and> db_rep buf' a' [] [[2]]"
proof -
  let ?s = "sample_sender\<lparr>sn_disk_buffer := Some (sample_db 100 [[1], [2]])\<rparr>"
  have "online ?s" using sample_online by (simp add: online_def)
  moreover have "db_rep (sample_db 100 [[1], [2]]) [] [] [[1], [2]]"
    by (rule sample_db_rep) (simp add: frame_ok_def MAX_FRAME_LEN_def)
  moreover have "sent ?s = []"
    by (simp add: sent_def sample_sender_def transport_new_def written_def connections_def)
  ultimately show ?thesis
    using shutdown_deadline_loses_frame [of ?s "sample_db 100 [[1], [2]]" "[]" "[]" "[1]" "[[2]]" no_acks 100]
    by (simp add: acks_order_def no_acks_def)
qed

lemma save_queues_chunks:
  assumes "sn_disk_buffer s = Some buf" "db_rep buf a b c" "0 < sn_batch_size s"
    and "events.saveable s (q_events q)" "logs.saveable s (q_logs q)" "metrics.saveable s (q_metrics q)"
    and "total frame_size c + events.room s (q_events q) + logs.room s (q_logs q) + metrics.room s (q_metrics q)
      \<le> db_max_bytes buf"
  shows "\<exists>s' buf' a' b' es ls ms. save_queues_to_wal s q = Some (s', no_queues) \<and>
    sn_disk_buffer s' = Some buf' \<and> db_rep buf' a' b' (c @ es @ ls @ ms) \<and> sn_reports s' = sn_reports s \<and>
    map (collect SchemaEvent decode_event_data) es =
      map (\<lambda>c. Some (map (event_params s) c)) (chunks (sn_batch_size s) (q_events q)) \<and>
    map (collect SchemaLog decode_log_data) ls =
      map (\<lambda>c. Some (map (log_params s) c)) (chunks (sn_batch_size s) (q_logs q)) \<and>
    map (collect SchemaMetric decode_metric_data) ms =
      map (\<lambda>c. Some (map (metric_params s) c)) (chunks (sn_batch_size s) (q_metrics q))"
proof -
  obtain s1 buf1 a1 b1 es where e: "save_queue encode_events s (q_events q) = Some (s1, [])" "same_config s s1"
    "sn_disk_buffer s1 = Some buf1" "db_rep buf1 a1 b1 (c @ es)" "db_max_bytes buf1 = db_max_bytes buf"
    "total frame_size es \<le> events.room s (q_events q)" "sn_reports s1 = sn_reports s"
    "map (collect SchemaEvent decode_event_data) es =
      map (\<lambda>c. Some (map (event_params s) c)) (chunks (sn_batch_size s) (q_events q))"
    using events.save_all [OF assms(1-4)] assms(7) by auto
  have b1: "0 < sn_batch_size s1" "sn_batch_size s1 = sn_batch_size s"
    using e(2) assms(3) by (simp_all add: same_config_def)
  have l_room: "total frame_size (c @ es) + logs.room s1 (q_logs q) + metrics.room s (q_metrics q) \<le> db_max_bytes buf1"
    "logs.saveable s1 (q_logs q)"
    using logs.room_config [OF e(2)] e(5,6) assms(5,7) by simp_all
  obtain s2 buf2 a2 b2 ls where l: "save_queue encode_logs s1 (q_logs q) = Some (s2, [])" "same_config s1 s2"
    "sn_disk_buffer s2 = Some buf2" "db_rep buf2 a2 b2 ((c @ es) @ ls)" "db_max_bytes buf2 = db_max_bytes buf1"
    "total frame_size ls \<le> logs.room s1 (q_logs q)" "sn_reports s2 = sn_reports s1"
    "map (collect SchemaLog decode_log_data) ls =
      map (\<lambda>c. Some (map (log_params s1) c)) (chunks (sn_batch_size s1) (q_logs q))"
    using logs.save_all [OF e(3,4) b1(1) l_room(2)] l_room(1) by auto
  have cfg2: "same_config s s2" using e(2) l(2) by (simp add: same_config_def)
  have b2: "0 < sn_batch_size s2" "sn_batch_size s2 = sn_batch_size s"
    using cfg2 assms(3) by (simp_all add: same_config_def)
  have m_room: "total frame_size ((c @ es) @ ls) + metrics.room s2 (q_metrics q) \<le> db_max_bytes buf2"
    "metrics.saveable s2 (q_metrics q)"
    using metrics.room_config [OF cfg2] l(5,6) l_room(1) assms(6) by simp_all
  obtain s3 buf3 a3 b3 ms where m: "save_queue encode_metrics s2 (q_metrics q) = Some (s3, [])"
    "sn_disk_buffer s3 = Some buf3" "db_rep buf3 a3 b3 (((c @ es) @ ls) @ ms)" "sn_reports s3 = sn_reports s2"
    "map (collect SchemaMetric decode_metric_data) ms =
      map (\<lambda>c. Some (map (metric_params s2) c)) (chunks (sn_batch_size s2) (q_metrics q))"
    using metrics.save_all [OF l(3,4) b2(1) m_room(2,1)] by auto
  have save: "save_queues_to_wal s q = Some (s3, no_queues)"
    using assms(1) by (simp add: save_queues_to_wal_def e(1) l(1) m(1) no_queues_def)
  have params: "log_params s1 = log_params s" "metric_params s2 = metric_params s"
    using data_config(2) [OF e(2)] data_config(3) [OF cfg2] by auto
  show ?thesis
    by (rule exI [of _ s3], rule exI [of _ buf3], rule exI [of _ a3], rule exI [of _ b3], rule exI [of _ es],
        rule exI [of _ ls], rule exI [of _ ms])
      (use save params e(7,8) l(7,8) m b1(2) b2(2) in simp)
qed

text \<open>
  C25: the emergency save of a shutdown, when the disk works (no call of it fails, and log and
  cursor are in order), the frames of the queues fit the capacity together with what the log
  holds, and none is longer than the log or the format allows. Then every queued entry is
  written to the log, events first, then logs, then metrics, in chunks, behind what the log
  already holds; decoded, the saved frames are exactly the queues; nothing is evicted and
  nothing reported. Without the room the log evicts its oldest frames, and on a disk that fails
  the entries are lost; the error callback is called for either.
\<close>

theorem shutdown_saves_queues:
  assumes "sn_disk_buffer s = Some buf" "db_rep buf a b c" "0 < sn_batch_size s"
    and "events.saveable s (q_events q)" "logs.saveable s (q_logs q)" "metrics.saveable s (q_metrics q)"
    and "total frame_size c + events.room s (q_events q) + logs.room s (q_logs q) + metrics.room s (q_metrics q)
      \<le> db_max_bytes buf"
  shows "\<exists>s' buf' a' b' es ls ms ecs lcs mcs. save_queues_to_wal s q = Some (s', no_queues) \<and>
    sn_disk_buffer s' = Some buf' \<and> db_rep buf' a' b' (c @ es @ ls @ ms) \<and> sn_reports s' = sn_reports s \<and>
    map (collect SchemaEvent decode_event_data) es = map (\<lambda>c. Some (map (event_params s) c)) ecs \<and>
    map (collect SchemaLog decode_log_data) ls = map (\<lambda>c. Some (map (log_params s) c)) lcs \<and>
    map (collect SchemaMetric decode_metric_data) ms = map (\<lambda>c. Some (map (metric_params s) c)) mcs \<and>
    concat ecs = q_events q \<and> concat lcs = q_logs q \<and> concat mcs = q_metrics q"
proof -
  obtain s' buf' a' b' es ls ms where r: "save_queues_to_wal s q = Some (s', no_queues)"
    "sn_disk_buffer s' = Some buf'" "db_rep buf' a' b' (c @ es @ ls @ ms)" "sn_reports s' = sn_reports s"
    "map (collect SchemaEvent decode_event_data) es =
      map (\<lambda>c. Some (map (event_params s) c)) (chunks (sn_batch_size s) (q_events q))"
    "map (collect SchemaLog decode_log_data) ls =
      map (\<lambda>c. Some (map (log_params s) c)) (chunks (sn_batch_size s) (q_logs q))"
    "map (collect SchemaMetric decode_metric_data) ms =
      map (\<lambda>c. Some (map (metric_params s) c)) (chunks (sn_batch_size s) (q_metrics q))"
    using save_queues_chunks [OF assms] by (elim exE conjE) (rule that)
  have chunked: "concat (chunks (sn_batch_size s) (q_events q)) = q_events q"
    "concat (chunks (sn_batch_size s) (q_logs q)) = q_logs q"
    "concat (chunks (sn_batch_size s) (q_metrics q)) = q_metrics q"
    using concat_chunks [OF assms(3)] by blast+
  show ?thesis
    by (rule exI [of _ s'], rule exI [of _ buf'], rule exI [of _ a'], rule exI [of _ b'], rule exI [of _ es],
        rule exI [of _ ls], rule exI [of _ ms], rule exI [of _ "chunks (sn_batch_size s) (q_events q)"],
        rule exI [of _ "chunks (sn_batch_size s) (q_logs q)"],
        rule exI [of _ "chunks (sn_batch_size s) (q_metrics q)"])
      (use r chunked in simp)
qed

theorem shutdown_saves_queues_witness:
  "\<exists>s' buf' a' b' es ls. save_queues_to_wal (sample_sender\<lparr>sn_disk_buffer := Some (sample_db 10000 [])\<rparr>)
      \<lparr>q_events = [sample_queued], q_logs = [sample_queued_log], q_metrics = []\<rparr> = Some (s', no_queues) \<and>
    sn_disk_buffer s' = Some buf' \<and> db_rep buf' a' b' (es @ ls) \<and>
    concat (map the (map (collect SchemaEvent decode_event_data) es)) = [event_params sample_sender sample_queued]"
proof -
  let ?s = "sample_sender\<lparr>sn_disk_buffer := Some (sample_db 10000 [])\<rparr>"
  let ?q = "\<lparr>q_events = [sample_queued], q_logs = [sample_queued_log], q_metrics = []\<rparr>"
  have data: "event_data ?s [sample_queued] = event_data sample_sender [sample_queued]"
    "log_data ?s [sample_queued_log] = log_data sample_sender [sample_queued_log]"
    "event_params ?s = event_params sample_sender"
    using data_config [of sample_sender ?s] by (simp_all add: same_config_def)
  have n: "sn_batch_size ?s = 2" "length (sn_api_key ?s) = 16" by (simp_all add: sample_sender_def)
  have n': "sn_batch_size sample_sender = 2" "length (sn_api_key sample_sender) = 16"
    by (simp_all add: sample_sender_def)
  have n'': "db_max_bytes (sample_db 10000 []) = 10000" by (simp add: sample_db_def)
  have one: "chunks 2 [x] = [[x]]" for x :: 'a by (simp add: chunks_step)
  have saveable: "events.saveable ?s (q_events ?q)" "logs.saveable ?s (q_logs ?q)" "metrics.saveable ?s (q_metrics ?q)"
    using sample_event_data sample_log_data n'
    by (simp_all add: events.saveable_def logs.saveable_def metrics.saveable_def n one data MAX_FRAME_LEN_def)
  have "total frame_size [] + events.room ?s (q_events ?q) + logs.room ?s (q_logs ?q) + metrics.room ?s (q_metrics ?q)
      \<le> db_max_bytes (sample_db 10000 [])"
    using sample_event_data sample_log_data n'
    by (simp add: events.room_def logs.room_def metrics.room_def n one data n'')
  from shutdown_saves_queues [OF _ sample_db_rep _ saveable this]
  obtain s' buf' a' b' es ls ms ecs mcs where "save_queues_to_wal ?s ?q = Some (s', no_queues)"
    "sn_disk_buffer s' = Some buf'" "db_rep buf' a' b' (es @ ls @ ms)"
    "map (collect SchemaEvent decode_event_data) es = map (\<lambda>c. Some (map (event_params ?s) c)) ecs"
    "map (collect SchemaMetric decode_metric_data) ms = map (\<lambda>c. Some (map (metric_params ?s) c)) mcs"
    "concat ecs = [sample_queued]" "concat mcs = []"
    by (auto simp: n)
  moreover have "concat (map the (map (\<lambda>c. Some (map (event_params sample_sender) c)) ecs)) =
      map (event_params sample_sender) (concat ecs)"
    by (simp add: comp_def map_concat)
  ultimately show ?thesis
    unfolding data by (metis append_Nil list.simps(8,9))
qed

end
