(* ===== verification/F64_Ops.thy ===== *)
theory F64_Ops
  imports Wire_Types
begin

section \<open>The \<open>f64\<close> operations the instruments use\<close>

text \<open>
  Rust's \<open>f64\<close> is IEEE 754 binary64, kept here as its bit pattern. The operations of the
  language that the metrics code applies to it are defined on the pattern: comparison, \<open>min\<close>,
  \<open>max\<close>, \<open>total_cmp\<close>, addition rounded to nearest even, and the conversion \<open>as f64\<close> of a
  \<open>u64\<close>. A finite value is an integer multiple of \<open>2 ^ -1074\<close>, so its value is an integer.
  The bit pattern of a computed NaN, and the sign of the zero that \<open>min\<close> and \<open>max\<close> return for
  zeros of both signs, are left open by the language; one choice is fixed here.
\<close>

definition f64_sign :: "f64 \<Rightarrow> bool" where "f64_sign b \<longleftrightarrow> 2 ^ 63 \<le> unat b"
definition f64_abs_bits :: "f64 \<Rightarrow> nat" where "f64_abs_bits b = unat b mod 2 ^ 63"
definition INF_BITS :: nat where "INF_BITS = 2047 * 2 ^ 52"

definition f64_of :: "bool \<Rightarrow> nat \<Rightarrow> f64" where
  "f64_of sign bits = of_nat ((if sign then 2 ^ 63 else 0) + bits)"

definition F64_INFINITY :: f64 where "F64_INFINITY = f64_of False INF_BITS"
definition F64_NEG_INFINITY :: f64 where "F64_NEG_INFINITY = f64_of True INF_BITS"
definition F64_NAN :: f64 where "F64_NAN = f64_of False (INF_BITS + 2 ^ 51)"

definition is_nan :: "f64 \<Rightarrow> bool" where "is_nan b \<longleftrightarrow> INF_BITS < f64_abs_bits b"
definition is_finite :: "f64 \<Rightarrow> bool" where "is_finite b \<longleftrightarrow> f64_abs_bits b < INF_BITS"

text \<open>The value in units of \<open>2 ^ -1074\<close>; an infinity counts as the next power of two.\<close>

definition units :: "nat \<Rightarrow> nat" where
  "units bits = (if bits < 2 ^ 52 then bits else (2 ^ 52 + bits mod 2 ^ 52) * 2 ^ (bits div 2 ^ 52 - 1))"

definition f64_int :: "f64 \<Rightarrow> int" where
  "f64_int b = (if f64_sign b then - int (units (f64_abs_bits b)) else int (units (f64_abs_bits b)))"

definition f64_le :: "f64 \<Rightarrow> f64 \<Rightarrow> bool" where
  "f64_le a b \<longleftrightarrow> \<not> is_nan a \<and> \<not> is_nan b \<and> f64_int a \<le> f64_int b"

definition f64_lt :: "f64 \<Rightarrow> f64 \<Rightarrow> bool" where
  "f64_lt a b \<longleftrightarrow> \<not> is_nan a \<and> \<not> is_nan b \<and> f64_int a < f64_int b"

definition f64_eq :: "f64 \<Rightarrow> f64 \<Rightarrow> bool" where
  "f64_eq a b \<longleftrightarrow> \<not> is_nan a \<and> \<not> is_nan b \<and> f64_int a = f64_int b"

definition f64_min :: "f64 \<Rightarrow> f64 \<Rightarrow> f64" where
  "f64_min a b = (if is_nan a then b else if is_nan b then a else if f64_int b < f64_int a then b else a)"

definition f64_max :: "f64 \<Rightarrow> f64 \<Rightarrow> f64" where
  "f64_max a b = (if is_nan a then b else if is_nan b then a else if f64_int a < f64_int b then b else a)"

text \<open>\<open>f64::total_cmp\<close> compares these keys.\<close>

definition total_key :: "f64 \<Rightarrow> int" where
  "total_key b = (if f64_sign b then - int (f64_abs_bits b) - 1 else int (f64_abs_bits b))"

fun bit_width :: "nat \<Rightarrow> nat" where
  "bit_width n = (if n = 0 then 0 else Suc (bit_width (n div 2)))"

declare bit_width.simps [simp del]

text \<open>The number of units in \<open>1.0\<close>.\<close>

definition ONE_UNITS :: nat where "ONE_UNITS = 2 ^ 1074"

definition whole :: "nat \<Rightarrow> int" where "whole n = int (n * ONE_UNITS)"

lemma whole_add: "whole (m + n) = whole m + whole n"
  by (simp add: whole_def add_mult_distrib)

lemma whole_0 [simp]: "whole 0 = 0" by (simp add: whole_def)

text \<open>The bits nearest to a number of units, ties to even, overflowing to infinity.\<close>

definition round_bits :: "nat \<Rightarrow> nat" where
  "round_bits n =
    (let k = bit_width n - 53; q = n div 2 ^ k; r = n mod 2 ^ k;
         up = (if 2 ^ k < 2 * r \<or> 2 ^ k = 2 * r \<and> odd q then 1 else 0) in
     min INF_BITS (k * 2 ^ 52 + q + up))"

definition u64_as_f64 :: "u64 \<Rightarrow> f64" where
  "u64_as_f64 v = f64_of False (round_bits (unat v * ONE_UNITS))"

definition f64_add :: "f64 \<Rightarrow> f64 \<Rightarrow> f64" where
  "f64_add a b =
    (if is_nan a \<or> is_nan b then F64_NAN
     else if \<not> is_finite a then (if \<not> is_finite b \<and> f64_sign a \<noteq> f64_sign b then F64_NAN else a)
     else if \<not> is_finite b then b
     else let v = f64_int a + f64_int b in
       f64_of (if v = 0 then f64_sign a \<and> f64_sign b else v < 0) (round_bits (nat \<bar>v\<bar>)))"

subsection \<open>Reading a pattern back\<close>

lemma unat_f64_of: "bits < 2 ^ 63 \<Longrightarrow> unat (f64_of s bits) = (if s then 2 ^ 63 else 0) + bits"
  unfolding f64_of_def unsigned_of_nat by (cases s) (simp_all add: take_bit_nat_eq_self_iff)

lemma f64_of_parts [simp]:
  assumes "bits < 2 ^ 63"
  shows "f64_sign (f64_of s bits) = s" "f64_abs_bits (f64_of s bits) = bits"
  using assms by (auto simp: f64_sign_def f64_abs_bits_def unat_f64_of)

lemma INF_BITS_lt: "INF_BITS < 2 ^ 63" by (simp add: INF_BITS_def)

lemma infinity_simps [simp]:
  "\<not> is_nan F64_INFINITY" "\<not> is_finite F64_INFINITY" "\<not> is_nan F64_NEG_INFINITY"
  "\<not> is_finite F64_NEG_INFINITY" "\<not> f64_sign F64_INFINITY" "f64_sign F64_NEG_INFINITY"
  "f64_abs_bits F64_INFINITY = INF_BITS" "f64_abs_bits F64_NEG_INFINITY = INF_BITS"
  using INF_BITS_lt by (simp_all add: F64_INFINITY_def F64_NEG_INFINITY_def is_nan_def is_finite_def)

lemma f64_abs_bits_lt: "f64_abs_bits b < 2 ^ 63" by (simp add: f64_abs_bits_def)

lemma f64_ext: "f64_sign a = f64_sign b \<Longrightarrow> f64_abs_bits a = f64_abs_bits b \<Longrightarrow> a = b"
proof -
  have split: "unat c = (if f64_sign c then 2 ^ 63 else 0) + f64_abs_bits c" for c :: f64
  proof -
    have lt: "unat c < 2 ^ 63 + 2 ^ 63" using unsigned_less [of c, where 'a = nat] by simp
    have "2 ^ 63 \<le> unat c \<Longrightarrow> unat c - 2 ^ 63 < 2 ^ 63" by (simp only: less_diff_conv2 lt)
    then show ?thesis by (auto simp: f64_sign_def f64_abs_bits_def le_mod_geq)
  qed
  assume "f64_sign a = f64_sign b" "f64_abs_bits a = f64_abs_bits b"
  then have "unat a = unat b" by (subst (1 2) split) simp
  then show "a = b" by (rule word_unat_eq_iff [THEN iffD2])
qed

lemma nonfinite_cases: "\<not> is_nan b \<Longrightarrow> \<not> is_finite b \<Longrightarrow> b = F64_INFINITY \<or> b = F64_NEG_INFINITY"
  by (cases "f64_sign b") (auto intro!: f64_ext simp: is_nan_def is_finite_def)

lemma is_finite_not_nan: "is_finite b \<Longrightarrow> \<not> is_nan b" by (simp add: is_finite_def is_nan_def)

subsection \<open>The order\<close>

lemma units_mono: "a < b \<Longrightarrow> units a < units b"
proof -
  assume lt: "a < b"
  let ?q = "\<lambda>x :: nat. x div 2 ^ 52" and ?r = "\<lambda>x :: nat. x mod 2 ^ 52"
  have r: "?r x < 2 ^ 52" for x by simp
  have split: "x = ?q x * 2 ^ 52 + ?r x" for x by simp
  consider (small) "b < 2 ^ 52" | (mixed) "a < 2 ^ 52" "2 ^ 52 \<le> b" | (same) "2 ^ 52 \<le> a" "?q a = ?q b"
    | (less) "2 ^ 52 \<le> a" "?q a < ?q b"
    using lt div_le_mono [of a b "2 ^ 52"] by fastforce
  then show ?thesis
  proof cases
    case small
    then show ?thesis using lt by (simp add: units_def)
  next
    case mixed
    then have "a < (2 ^ 52 + ?r b) * 1" by simp
    also have "\<dots> \<le> (2 ^ 52 + ?r b) * 2 ^ (?q b - 1)" by (intro mult_le_mono) auto
    finally show ?thesis using mixed by (simp add: units_def)
  next
    case same
    then have "?r a < ?r b" using lt by (metis div_mult_mod_eq nat_add_left_cancel_less)
    then have "(2 ^ 52 + ?r a) * 2 ^ (?q a - 1) < (2 ^ 52 + ?r b) * 2 ^ (?q a - 1)"
      by (intro mult_less_mono1) auto
    moreover have "2 ^ 52 \<le> b" using same lt by simp
    ultimately show ?thesis using same by (simp add: units_def)
  next
    case less
    have "1 \<le> ?q a" using less(1) div_le_mono [of "2 ^ 52" a "2 ^ 52"] by simp
    then have "Suc (?q a - 1) \<le> ?q b - 1" using less(2) by linarith
    from power_increasing [OF this, of "2 :: nat"] have "(2 :: nat) * 2 ^ (?q a - 1) \<le> 2 ^ (?q b - 1)" by simp
    then have "(2 ^ 52 + ?r a) * 2 ^ (?q a - 1) < 2 ^ 52 * 2 ^ (?q b - 1)"
    proof -
      have "(2 ^ 52 + ?r a) * 2 ^ (?q a - 1) < (2 * 2 ^ 52) * 2 ^ (?q a - 1)"
        by (intro mult_less_mono1) (use r [of a] in auto)
      also have "\<dots> = 2 ^ 52 * (2 * 2 ^ (?q a - 1))" by simp
      also have "\<dots> \<le> 2 ^ 52 * 2 ^ (?q b - 1)"
        using \<open>2 * 2 ^ (?q a - 1) \<le> 2 ^ (?q b - 1)\<close> by (intro mult_le_mono) auto
      finally show ?thesis .
    qed
    also have "\<dots> \<le> (2 ^ 52 + ?r b) * 2 ^ (?q b - 1)" by (intro mult_le_mono) auto
    finally show ?thesis using less(1) lt by (simp add: units_def)
  qed
qed

lemma units_le: "units a \<le> units b \<longleftrightarrow> a \<le> b"
  using units_mono [of a b] units_mono [of b a] by (cases a b rule: linorder_cases) auto

lemma units_0 [simp]: "units 0 = 0" by (simp add: units_def)

lemma units_eq_0 [simp]: "units a = 0 \<longleftrightarrow> a = 0"
  using units_le [of a 0] by simp

lemma f64_int_mono: "total_key a \<le> total_key b \<Longrightarrow> f64_int a \<le> f64_int b"
  using units_le [of "f64_abs_bits a" "f64_abs_bits b"] units_le [of "f64_abs_bits b" "f64_abs_bits a"]
  by (auto simp: total_key_def f64_int_def split: if_splits)

lemma f64_int_infinity: "\<not> is_nan b \<Longrightarrow> f64_int b \<le> f64_int F64_INFINITY"
  using units_le [of "f64_abs_bits b" INF_BITS] by (auto simp: f64_int_def is_nan_def)

lemma f64_int_neg_infinity: "\<not> is_nan b \<Longrightarrow> f64_int F64_NEG_INFINITY \<le> f64_int b"
  using units_le [of "f64_abs_bits b" INF_BITS] by (auto simp: f64_int_def is_nan_def)

lemma f64_int_finite_lt: "is_finite b \<Longrightarrow> f64_int b < f64_int F64_INFINITY"
  using units_mono [of "f64_abs_bits b" INF_BITS] by (auto simp: f64_int_def is_finite_def)

lemma units_inj: "units a = units b \<longleftrightarrow> a = b"
  using units_le [of a b] units_le [of b a] by auto

lemma f64_eq_neg_infinity: "f64_eq b F64_NEG_INFINITY \<Longrightarrow> b = F64_NEG_INFINITY"
proof -
  assume eq: "f64_eq b F64_NEG_INFINITY"
  have pos: "0 < int (units INF_BITS)" using units_mono [of 0 INF_BITS] by (simp add: INF_BITS_def)
  show ?thesis
    by (rule f64_ext) (use eq pos in \<open>auto simp: f64_eq_def f64_int_def units_inj split: if_splits\<close>)
qed

lemma f64_eq_infinity: "f64_eq b F64_INFINITY \<Longrightarrow> b = F64_INFINITY"
proof -
  assume eq: "f64_eq b F64_INFINITY"
  have pos: "0 < int (units INF_BITS)" using units_mono [of 0 INF_BITS] by (simp add: INF_BITS_def)
  show ?thesis
    by (rule f64_ext) (use eq pos in \<open>auto simp: f64_eq_def f64_int_def units_inj split: if_splits\<close>)
qed

lemma f64_le_infinity: "f64_le b F64_INFINITY \<longleftrightarrow> \<not> is_nan b"
  by (auto simp: f64_le_def f64_int_infinity)

subsection \<open>Exact results\<close>

lemma bit_width_bounds: "0 < n \<Longrightarrow> 2 ^ (bit_width n - 1) \<le> n \<and> n < 2 ^ bit_width n \<and> 0 < bit_width n"
proof (induction n rule: bit_width.induct)
  case (1 n)
  show ?case
  proof (cases "n = 1")
    case True
    then show ?thesis by (simp add: bit_width.simps)
  next
    case False
    then have h: "0 < n div 2" using "1.prems" by auto
    with 1 have ih: "2 ^ (bit_width (n div 2) - 1) \<le> n div 2" "n div 2 < 2 ^ bit_width (n div 2)"
      "0 < bit_width (n div 2)" by auto
    then obtain w where w: "bit_width (n div 2) = Suc w" by (cases "bit_width (n div 2)") auto
    have "bit_width n = Suc (Suc w)" using "1.prems" w by (subst bit_width.simps) simp
    moreover have "2 * 2 ^ w \<le> n" "n < 2 * 2 ^ Suc w" using ih w by auto
    ultimately show ?thesis by simp
  qed
qed

lemma units_normal: "2 ^ 52 \<le> q \<Longrightarrow> q < 2 ^ 53 \<Longrightarrow> units (k * 2 ^ 52 + q) = q * 2 ^ k"
proof -
  assume q: "2 ^ 52 \<le> q" "q < (2 :: nat) ^ 53"
  then obtain m where m: "q = 2 ^ 52 + m" by (auto simp: le_iff_add)
  then have "m < 2 ^ 52" using q by simp
  moreover have "k * 2 ^ 52 + q = Suc k * 2 ^ 52 + m" by (simp add: m)
  ultimately have "(k * 2 ^ 52 + q) div 2 ^ 52 = Suc k" "(k * 2 ^ 52 + q) mod 2 ^ 52 = m"
    by (simp_all only: div_mult_self3 mod_mult_self3) simp_all
  then show ?thesis using q by (simp add: units_def m)
qed

lemma round_exact:
  assumes "n = q * 2 ^ k" "q < 2 ^ 53" "k \<le> 2045"
  shows "round_bits n < INF_BITS \<and> units (round_bits n) = n"
proof (cases "bit_width n \<le> 53")
  case True
  then have n: "n < 2 ^ 53"
    using bit_width_bounds [of n] power_increasing [of "bit_width n" 53 "2 :: nat"] by (cases "n = 0") auto
  then have "round_bits n = n" using True by (simp add: round_bits_def INF_BITS_def)
  moreover have "units n = n"
  proof (cases "n < 2 ^ 52")
    case False
    with n units_normal [of n 0] show ?thesis by simp
  qed (simp add: units_def)
  ultimately show ?thesis using n by (simp add: INF_BITS_def)
next
  case False
  then obtain d where d: "bit_width n = 53 + d" "0 < d" by (metis less_imp_add_positive not_le)
  have n0: "0 < n" using d by (cases "n = 0") (auto simp: bit_width.simps)
  have n: "2 ^ (52 + d) \<le> n" "n < 2 ^ (53 + d)" using bit_width_bounds [OF n0] d by auto
  have dk: "d \<le> k"
  proof (rule ccontr)
    assume "\<not> d \<le> k"
    then have "Suc k \<le> d" by simp
    have "n < 2 ^ 53 * 2 ^ k" using assms(1,2) by simp
    also have "\<dots> = (2 :: nat) ^ (52 + Suc k)" by (simp add: power_add)
    also have "\<dots> \<le> 2 ^ (52 + d)" using \<open>Suc k \<le> d\<close> by (intro power_increasing) auto
    finally show False using n(1) by simp
  qed
  define p where "p = q * 2 ^ (k - d)"
  have np: "n = p * 2 ^ d" using assms(1) dk by (simp add: p_def flip: power_add)
  have p: "2 ^ 52 \<le> p" "p < 2 ^ 53" using n by (simp_all add: np power_add)
  have "round_bits n = min INF_BITS (d * 2 ^ 52 + p)"
    using d(1) by (simp add: round_bits_def np)
  moreover have "d * 2 ^ 52 + p < INF_BITS"
  proof -
    have "d \<le> 2045" using dk assms(3) by simp
    then have "d * 2 ^ 52 + p < 2045 * 2 ^ 52 + 2 ^ 53" using p(2) by (intro add_le_less_mono mult_le_mono) auto
    then show ?thesis by (simp add: INF_BITS_def)
  qed
  ultimately show ?thesis using units_normal [OF p, of d] by (simp add: np)
qed

lemma f64_int_round: "round_bits n \<le> INF_BITS" by (simp add: round_bits_def Let_def)

lemma u64_as_f64_exact:
  assumes "unat v < 2 ^ 53"
  shows "is_finite (u64_as_f64 v) \<and> f64_int (u64_as_f64 v) = whole (unat v)"
proof -
  have "round_bits (unat v * ONE_UNITS) < INF_BITS \<and> units (round_bits (unat v * ONE_UNITS)) = unat v * ONE_UNITS"
    unfolding ONE_UNITS_def by (rule round_exact [OF refl assms]) simp
  then show ?thesis using INF_BITS_lt
    by (simp add: u64_as_f64_def is_finite_def f64_int_def whole_def)
qed

lemma f64_add_exact:
  assumes "is_finite a" "is_finite b" "nat \<bar>f64_int a + f64_int b\<bar> = q * 2 ^ k" "q < 2 ^ 53" "k \<le> 2045"
  shows "is_finite (f64_add a b) \<and> f64_int (f64_add a b) = f64_int a + f64_int b"
proof -
  let ?v = "f64_int a + f64_int b"
  have "round_bits (nat \<bar>?v\<bar>) < INF_BITS \<and> units (round_bits (nat \<bar>?v\<bar>)) = nat \<bar>?v\<bar>"
    by (rule round_exact [OF assms(3-5)])
  then show ?thesis using assms(1,2) INF_BITS_lt
    by (simp add: f64_add_def is_finite_not_nan Let_def is_finite_def f64_int_def split del: if_split)
      (auto simp: f64_int_def)
qed

end
