(* ===== verification/Instruments.thy ===== *)
theory Instruments
  imports F64_Ops Worker_Encode
begin

section \<open>The instrument registry (\<open>metrics/\<close>)\<close>

text \<open>
  Counters, histograms and gauges that call sites update through handles and the worker
  samples. An atomic cell is its value, and every atomic access is one step, so any
  interleaving of threads is a list of steps. A handle, an \<open>Arc\<close> shared with the registry, is
  the position of the instrument in its list. A gauge's reader is the caller's closure over
  its own state: a function of the world \<open>'w\<close> at the moment of the sample.
\<close>

subsection \<open>Shared helpers (\<open>metrics/mod.rs\<close>)\<close>

definition DROPPED_GAUGE :: str where
  "DROPPED_GAUGE = [116, 101, 108, 108, 46, 115, 100, 107, 46, 100, 114, 111, 112, 112, 101, 100]"

fun series_index :: "str list \<Rightarrow> str \<Rightarrow> nat option" where
  "series_index [] value = None"
| "series_index (v # values) value = (if v = value then Some 0 else map_option Suc (series_index values value))"

definition label_pair :: "str option \<Rightarrow> str \<Rightarrow> (str \<times> str) list" where
  "label_pair key value = (case key of Some k \<Rightarrow> [(k, value)] | None \<Rightarrow> [])"

text \<open>An instrument without labels has the one series with an empty label value.\<close>

definition series_values :: "str list \<Rightarrow> str list" where
  "series_values values = (if values = [] then [[]] else values)"

subsection \<open>Counters (\<open>metrics/counter.rs\<close>)\<close>

record Counter =
  co_name :: str
  co_key :: "str option"
  co_values :: "str list"
  co_totals :: "u64 list"
  co_shipped :: "u64 list"
  co_temporality :: Temporality

definition counter_name :: "Counter \<Rightarrow> str" where "counter_name c = co_name c"
definition counter_temporality :: "Counter \<Rightarrow> Temporality" where "counter_temporality c = co_temporality c"

definition counter_new :: "str \<Rightarrow> str option \<Rightarrow> str list \<Rightarrow> Temporality \<Rightarrow> Counter" where
  "counter_new name key values temporality =
    (let n = max (length values) 1 in
     \<lparr>co_name = name, co_key = key, co_values = series_values values, co_totals = replicate n 0,
      co_shipped = replicate n 0, co_temporality = temporality\<rparr>)"

definition fetch_add :: "nat \<Rightarrow> u64 \<Rightarrow> u64 list \<Rightarrow> u64 list" where
  "fetch_add i n cells = (if i < length cells then cells[i := cells ! i + n] else cells)"

definition counter_add :: "str \<Rightarrow> u64 \<Rightarrow> Counter \<Rightarrow> Counter" where
  "counter_add value n c =
    (case series_index (co_values c) value of
       Some i \<Rightarrow> c\<lparr>co_totals := fetch_add i n (co_totals c)\<rparr>
     | None \<Rightarrow> c)"

definition counter_inc :: "u64 \<Rightarrow> Counter \<Rightarrow> Counter" where
  "counter_inc n c = c\<lparr>co_totals := fetch_add 0 n (co_totals c)\<rparr>"

definition counter_total :: "str \<Rightarrow> Counter \<Rightarrow> u64" where
  "counter_total value c =
    (case series_index (co_values c) value of
       Some i \<Rightarrow> if i < length (co_totals c) then co_totals c ! i else 0
     | None \<Rightarrow> 0)"

definition counter_value :: "Counter \<Rightarrow> u64" where
  "counter_value c = (case co_totals c of [] \<Rightarrow> 0 | t # _ \<Rightarrow> t)"

definition saturating_sub :: "u64 \<Rightarrow> u64 \<Rightarrow> u64" where
  "saturating_sub a b = (if a < b then 0 else a - b)"

text \<open>One row of the loop of \<open>sample\<close>: the point and what \<open>shipped\<close> holds afterwards.\<close>

definition counter_row :: "Temporality \<Rightarrow> u64 \<Rightarrow> u64 \<Rightarrow> u64 \<times> u64" where
  "counter_row temporality now shipped =
    (case temporality of
       Cumulative \<Rightarrow> (now, shipped)
     | _ \<Rightarrow> (saturating_sub now shipped, now))"

definition counter_point :: "u64 \<Rightarrow> Counter \<Rightarrow> str \<Rightarrow> u64 \<Rightarrow> QueuedMetric" where
  "counter_point timestamp c value point =
    \<lparr>qm_metric_type = MetricType.Counter, qm_timestamp = timestamp, qm_name = co_name c,
     qm_value = u64_as_f64 point, qm_labels = label_pair (co_key c) value,
     qm_temporality = co_temporality c, qm_histogram = None\<rparr>"

fun counter_rows :: "u64 \<Rightarrow> Counter \<Rightarrow> str list \<Rightarrow> u64 list \<Rightarrow> u64 list \<Rightarrow> QueuedMetric list \<times> u64 list" where
  "counter_rows ts c (value # values) (now # totals) (shipped # shippeds) =
    (let (point, shipped) = counter_row (co_temporality c) now shipped;
         (out, shippeds) = counter_rows ts c values totals shippeds in
     (counter_point ts c value point # out, shipped # shippeds))"
| "counter_rows ts c _ _ shippeds = ([], shippeds)"

definition counter_sample :: "u64 \<Rightarrow> Counter \<Rightarrow> QueuedMetric list \<Rightarrow> Counter \<times> QueuedMetric list" where
  "counter_sample timestamp c out =
    (let (points, shipped) = counter_rows timestamp c (co_values c) (co_totals c) (co_shipped c) in
     (c\<lparr>co_shipped := shipped\<rparr>, out @ points))"

subsection \<open>Gauges (\<open>metrics/gauge.rs\<close>)\<close>

record 'w Gauge =
  ga_name :: str
  ga_key :: "str option"
  ga_read :: "'w \<Rightarrow> (str \<times> f64) list"

definition gauge_name :: "'w Gauge \<Rightarrow> str" where "gauge_name g = ga_name g"

definition gauge_new :: "str \<Rightarrow> str option \<Rightarrow> ('w \<Rightarrow> (str \<times> f64) list) \<Rightarrow> 'w Gauge" where
  "gauge_new name key read = \<lparr>ga_name = name, ga_key = key, ga_read = read\<rparr>"

definition gauge_point :: "u64 \<Rightarrow> 'w Gauge \<Rightarrow> str \<times> f64 \<Rightarrow> QueuedMetric" where
  "gauge_point timestamp g = (\<lambda>(value, reading).
     \<lparr>qm_metric_type = MetricType.Gauge, qm_timestamp = timestamp, qm_name = ga_name g, qm_value = reading,
      qm_labels = label_pair (ga_key g) value, qm_temporality = Unspecified, qm_histogram = None\<rparr>)"

definition gauge_sample :: "u64 \<Rightarrow> 'w \<Rightarrow> 'w Gauge \<Rightarrow> QueuedMetric list \<Rightarrow> QueuedMetric list" where
  "gauge_sample timestamp w g out = out @ map (gauge_point timestamp g) (ga_read g w)"

subsection \<open>Histograms (\<open>metrics/histogram.rs\<close>)\<close>

record Series =
  se_count :: u64
  se_sum :: f64
  se_min :: f64
  se_max :: f64
  se_buckets :: "u64 list"

definition series_new :: "nat \<Rightarrow> Series" where
  "series_new buckets = \<lparr>se_count = 0, se_sum = 0, se_min = F64_INFINITY, se_max = F64_NEG_INFINITY,
     se_buckets = replicate buckets 0\<rparr>"

text \<open>
  \<open>update_f64\<close> with what other threads do to the cell before each attempt, and whether the
  attempt fails spuriously; after the listed attempts nobody interferes. The result is the
  cell when the exchange succeeded.
\<close>

fun update_loop :: "(f64 \<Rightarrow> f64) \<Rightarrow> u64 \<Rightarrow> u64 \<Rightarrow> ((u64 \<Rightarrow> u64) \<times> bool) list \<Rightarrow> u64" where
  "update_loop f current cell [] = f (if cell = current then current else cell)"
| "update_loop f current cell ((others, spurious) # env) =
    (let cell = others cell in
     if cell = current \<and> \<not> spurious then f current else update_loop f cell cell env)"

definition update_f64 :: "(f64 \<Rightarrow> f64) \<Rightarrow> u64 \<Rightarrow> ((u64 \<Rightarrow> u64) \<times> bool) list \<Rightarrow> u64" where
  "update_f64 f cell env = update_loop f cell cell env"

text \<open>The atomic steps of \<open>observe\<close>, in the order of the code.\<close>

definition observe_steps :: "f64 \<Rightarrow> f64 list \<Rightarrow> (Series \<Rightarrow> Series) list" where
  "observe_steps value bounds =
    [\<lambda>s. s\<lparr>se_count := se_count s + 1\<rparr>,
     \<lambda>s. s\<lparr>se_sum := update_f64 (\<lambda>x. f64_add x value) (se_sum s) []\<rparr>,
     \<lambda>s. s\<lparr>se_min := update_f64 (\<lambda>m. f64_min m value) (se_min s) []\<rparr>,
     \<lambda>s. s\<lparr>se_max := update_f64 (\<lambda>m. f64_max m value) (se_max s) []\<rparr>] @
    map (\<lambda>(i, bound) s. if f64_le value bound then s\<lparr>se_buckets := fetch_add i 1 (se_buckets s)\<rparr> else s)
      (enumerate 0 bounds)"

definition observe :: "f64 \<Rightarrow> f64 list \<Rightarrow> Series \<Rightarrow> Series" where
  "observe value bounds s = fold (\<lambda>step s. step s) (observe_steps value bounds) s"

definition snapshot :: "f64 list \<Rightarrow> Series \<Rightarrow> HistogramParams option" where
  "snapshot bounds s =
    (if se_count s = 0 then None
     else Some \<lparr>hp_count = se_count s, hp_sum = se_sum s, hp_min = se_min s, hp_max = se_max s,
       hp_buckets = zip bounds (se_buckets s)\<rparr>)"

record Histogram =
  hi_name :: str
  hi_key :: "str option"
  hi_values :: "str list"
  hi_bounds :: "f64 list"
  hi_series :: "Series list"

definition histogram_name :: "Histogram \<Rightarrow> str" where "histogram_name h = hi_name h"
definition histogram_bounds_of :: "Histogram \<Rightarrow> f64 list" where "histogram_bounds_of h = hi_bounds h"

fun dedup :: "f64 list \<Rightarrow> f64 list" where
  "dedup (x # y # xs) = (if f64_eq x y then dedup (x # xs) else x # dedup (y # xs))"
| "dedup xs = xs"

definition histogram_bounds :: "f64 list \<Rightarrow> f64 list" where
  "histogram_bounds bounds =
    (let bounds = dedup (sort_key total_key (filter (\<lambda>b. \<not> is_nan b) bounds)) in
     if bounds = [] \<or> is_finite (last bounds) then bounds @ [F64_INFINITY] else bounds)"

definition histogram_new :: "str \<Rightarrow> str option \<Rightarrow> str list \<Rightarrow> f64 list \<Rightarrow> Histogram" where
  "histogram_new name key values bounds =
    (let bounds = histogram_bounds bounds; values = series_values values in
     \<lparr>hi_name = name, hi_key = key, hi_values = values, hi_bounds = bounds,
      hi_series = map (\<lambda>_. series_new (length bounds)) values\<rparr>)"

definition update_series :: "nat \<Rightarrow> (Series \<Rightarrow> Series) \<Rightarrow> Histogram \<Rightarrow> Histogram" where
  "update_series i f h =
    (if i < length (hi_series h) then h\<lparr>hi_series := (hi_series h)[i := f (hi_series h ! i)]\<rparr> else h)"

definition histogram_observe :: "str \<Rightarrow> f64 \<Rightarrow> Histogram \<Rightarrow> Histogram" where
  "histogram_observe value observation h =
    (case series_index (hi_values h) value of
       Some i \<Rightarrow> update_series i (observe observation (hi_bounds h)) h
     | None \<Rightarrow> h)"

definition histogram_record :: "f64 \<Rightarrow> Histogram \<Rightarrow> Histogram" where
  "histogram_record observation h = update_series 0 (observe observation (hi_bounds h)) h"

definition histogram_count :: "str \<Rightarrow> Histogram \<Rightarrow> u64" where
  "histogram_count value h =
    (case series_index (hi_values h) value of
       Some i \<Rightarrow> if i < length (hi_series h) then se_count (hi_series h ! i) else 0
     | None \<Rightarrow> 0)"

definition histogram_point :: "u64 \<Rightarrow> Histogram \<Rightarrow> str \<Rightarrow> HistogramParams \<Rightarrow> QueuedMetric" where
  "histogram_point timestamp h value params =
    \<lparr>qm_metric_type = MetricType.Histogram, qm_timestamp = timestamp, qm_name = hi_name h, qm_value = 0,
     qm_labels = label_pair (hi_key h) value, qm_temporality = Cumulative, qm_histogram = Some params\<rparr>"

definition histogram_sample :: "u64 \<Rightarrow> Histogram \<Rightarrow> QueuedMetric list \<Rightarrow> QueuedMetric list" where
  "histogram_sample timestamp h out =
    out @ List.map_filter (\<lambda>(value, s). map_option (histogram_point timestamp h value) (snapshot (hi_bounds h) s))
      (zip (hi_values h) (hi_series h))"

subsection \<open>The registry (\<open>metrics/mod.rs\<close>)\<close>

record 'w Metrics =
  me_counters :: "Counter list"
  me_histograms :: "Histogram list"
  me_gauges :: "'w Gauge list"
  me_dropped :: u64

definition metrics_new :: "'w Metrics" where
  "metrics_new = \<lparr>me_counters = [], me_histograms = [], me_gauges = [], me_dropped = 0\<rparr>"

definition metrics_default :: "'w Metrics" where "metrics_default = metrics_new"

record CounterBuilder =
  cb_name :: str
  cb_key :: "str option"
  cb_values :: "str list"
  cb_temporality :: Temporality

definition metrics_counter :: "str \<Rightarrow> CounterBuilder" where
  "metrics_counter name = \<lparr>cb_name = name, cb_key = None, cb_values = [], cb_temporality = Delta\<rparr>"

definition counter_by :: "str \<Rightarrow> str list \<Rightarrow> CounterBuilder \<Rightarrow> CounterBuilder" where
  "counter_by key values b = b\<lparr>cb_key := Some key, cb_values := values\<rparr>"

definition counter_cumulative :: "CounterBuilder \<Rightarrow> CounterBuilder" where
  "counter_cumulative b = b\<lparr>cb_temporality := Cumulative\<rparr>"

definition counter_register :: "CounterBuilder \<Rightarrow> 'w Metrics \<Rightarrow> nat \<times> 'w Metrics" where
  "counter_register b m =
    (length (me_counters m),
     m\<lparr>me_counters := me_counters m @ [counter_new (cb_name b) (cb_key b) (cb_values b) (cb_temporality b)]\<rparr>)"

record HistogramBuilder =
  hb_name :: str
  hb_key :: "str option"
  hb_values :: "str list"
  hb_bounds :: "f64 list"

definition metrics_histogram :: "str \<Rightarrow> f64 list \<Rightarrow> HistogramBuilder" where
  "metrics_histogram name bounds = \<lparr>hb_name = name, hb_key = None, hb_values = [], hb_bounds = bounds\<rparr>"

definition histogram_by :: "str \<Rightarrow> str list \<Rightarrow> HistogramBuilder \<Rightarrow> HistogramBuilder" where
  "histogram_by key values b = b\<lparr>hb_key := Some key, hb_values := values\<rparr>"

definition histogram_register :: "HistogramBuilder \<Rightarrow> 'w Metrics \<Rightarrow> nat \<times> 'w Metrics" where
  "histogram_register b m =
    (length (me_histograms m),
     m\<lparr>me_histograms := me_histograms m @ [histogram_new (hb_name b) (hb_key b) (hb_values b) (hb_bounds b)]\<rparr>)"

definition metrics_gauge :: "str \<Rightarrow> ('w \<Rightarrow> f64) \<Rightarrow> 'w Metrics \<Rightarrow> 'w Metrics" where
  "metrics_gauge name read m = m\<lparr>me_gauges := me_gauges m @ [gauge_new name None (\<lambda>w. [([], read w)])]\<rparr>"

definition metrics_gauge_by :: "str \<Rightarrow> str \<Rightarrow> ('w \<Rightarrow> (str \<times> f64) list) \<Rightarrow> 'w Metrics \<Rightarrow> 'w Metrics" where
  "metrics_gauge_by name key read m = m\<lparr>me_gauges := me_gauges m @ [gauge_new name (Some key) read]\<rparr>"

definition metrics_len :: "'w Metrics \<Rightarrow> nat" where
  "metrics_len m = length (me_counters m) + length (me_histograms m) + length (me_gauges m)"

definition metrics_is_empty :: "'w Metrics \<Rightarrow> bool" where
  "metrics_is_empty m \<longleftrightarrow> metrics_len m = 0"

definition metrics_dropped :: "'w Metrics \<Rightarrow> u64" where
  "metrics_dropped m = me_dropped m"

definition record_drop :: "'w Metrics \<Rightarrow> u64 \<times> 'w Metrics" where
  "record_drop m = (me_dropped m + 1, m\<lparr>me_dropped := me_dropped m + 1\<rparr>)"

fun sample_counters :: "u64 \<Rightarrow> Counter list \<Rightarrow> QueuedMetric list \<Rightarrow> Counter list \<times> QueuedMetric list" where
  "sample_counters ts [] out = ([], out)"
| "sample_counters ts (c # cs) out =
    (let (c, out) = counter_sample ts c out; (cs, out) = sample_counters ts cs out in (c # cs, out))"

definition metrics_sample :: "u64 \<Rightarrow> 'w \<Rightarrow> 'w Metrics \<Rightarrow> QueuedMetric list \<Rightarrow> 'w Metrics \<times> QueuedMetric list" where
  "metrics_sample timestamp w m out =
    (if metrics_is_empty m then (m, out)
     else
       let (counters, out) = sample_counters timestamp (me_counters m) out;
           out = fold (histogram_sample timestamp) (me_histograms m) out;
           out = fold (gauge_sample timestamp w) (me_gauges m) out in
       (m\<lparr>me_counters := counters\<rparr>,
        out @ [\<lparr>qm_metric_type = MetricType.Gauge, qm_timestamp = timestamp, qm_name = DROPPED_GAUGE,
                qm_value = u64_as_f64 (metrics_dropped m), qm_labels = [], qm_temporality = Unspecified,
                qm_histogram = None\<rparr>]))"

end
