(* ===== verification/Worker_Loop.thy ===== *)
theory Worker_Loop
  imports Worker_Drain Disk_Faults Clock Instruments
begin

section \<open>The worker's loop (\<open>worker_loop\<close> of \<open>worker/mod.rs\<close>)\<close>

text \<open>
  One function per branch of \<open>select!\<close>, and the step relation that lets any branch that is
  ready run, with the clients sending and updating instruments in between. The channel is the
  list of messages in it. A branch does not answer requests itself: when its flush is done the
  requests stand in \<open>wk_answering\<close>, with everything else as it is at that moment, and each answer
  is a step of its own. \<open>wk_sampled\<close> says that the points of a sample are in the queue and not yet
  flushed, and how many they were. The runtime that polls the loop, on its own thread or a caller's,
  is not modelled.
\<close>

record 'w WorkerState =
  wk_sender :: Sender
  wk_queues :: Queues
  wk_channel :: "WorkerMessage list"
  wk_drain_limit :: nat
  wk_metrics :: "'w Metrics"
  wk_clock :: clock
  wk_clients :: bool
  wk_answering :: "nat list"
  wk_sampled :: "nat option"
  wk_acked :: "nat list"
  wk_running :: bool

text \<open>
  The start of the worker: \<open>tokio::time::interval\<close> panics on a zero period, so the worker
  only reaches its loop when neither interval is zero.
\<close>

definition worker_start ::
  "TellConfig \<Rightarrow> bool \<Rightarrow> outcome list \<Rightarrow> disk \<Rightarrow> BatchCounter \<Rightarrow> clock \<Rightarrow> 'w WorkerState option" where
  "worker_start config on_error net d counter ck =
    (let sender = sender_new config on_error net d counter in
     if tc_metrics_interval config = 0 \<or> tc_flush_interval config = 0 then None
     else Some \<lparr>wk_sender = sender, wk_queues = no_queues, wk_channel = [],
       wk_drain_limit = tc_queue_capacity config, wk_metrics = metrics_new, wk_clock = ck, wk_clients = True,
       wk_answering = [], wk_sampled = None, wk_acked = [], wk_running = True\<rparr>)"

text \<open>The bulk drain \<open>for _ in 0..drain_limit\<close> with \<open>try_recv\<close>.\<close>

fun drain_channel :: "nat \<Rightarrow> Queues \<times> Acks \<Rightarrow> WorkerMessage list \<Rightarrow> (Queues \<times> Acks) \<times> WorkerMessage list" where
  "drain_channel (Suc n) qa (m # ch) = drain_channel n (absorb qa m) ch"
| "drain_channel n qa ch = (qa, ch)"

text \<open>What follows a bulk drain: shut down or flush everything, with the requests to answer then, or flush what is full.\<close>

definition finish_recv ::
  "(nat \<times> nat) option \<Rightarrow> Queues \<Rightarrow> Acks \<Rightarrow> 'w WorkerState \<Rightarrow> 'w WorkerState option" where
  "finish_recv deadline queues acks st =
    (if ak_close acks \<noteq> [] then do {
       (s, q, answered) \<leftarrow> shutdown deadline (wk_sender st) queues acks;
       Some (st\<lparr>wk_sender := s, wk_queues := q, wk_answering := answered, wk_running := False\<rparr>) }
     else if ak_flush acks \<noteq> [] then do {
       (_, s, q) \<leftarrow> flush_all (wk_sender st) queues;
       Some (st\<lparr>wk_sender := s, wk_queues := q, wk_answering := acks_order acks\<rparr>) }
     else do {
       (_, s, q) \<leftarrow> flush_full_queues (wk_sender st) queues;
       Some (st\<lparr>wk_sender := s, wk_queues := q\<rparr>) })"

definition on_message ::
  "(nat \<times> nat) option \<Rightarrow> WorkerMessage \<Rightarrow> WorkerMessage list \<Rightarrow> 'w WorkerState \<Rightarrow> 'w WorkerState option" where
  "on_message deadline msg ch st =
    (let ((queues, acks), ch) = drain_channel (wk_drain_limit st) (absorb (wk_queues st, no_acks) msg) ch in
     finish_recv deadline queues acks (st\<lparr>wk_channel := ch\<rparr>))"

definition on_disconnect :: "(nat \<times> nat) option \<Rightarrow> 'w WorkerState \<Rightarrow> 'w WorkerState option" where
  "on_disconnect deadline st = do {
     (s, q, answered) \<leftarrow> shutdown deadline (wk_sender st) (wk_queues st) no_acks;
     Some (st\<lparr>wk_sender := s, wk_queues := q, wk_answering := answered, wk_running := False\<rparr>) }"

definition on_flush_tick :: "'w WorkerState \<Rightarrow> 'w WorkerState option" where
  "on_flush_tick st = do {
     (_, s, q) \<leftarrow> flush_all (wk_sender st) (wk_queues st);
     Some (st\<lparr>wk_sender := s, wk_queues := q\<rparr>) }"

definition on_resync_tick :: "u64 option \<Rightarrow> u64 \<Rightarrow> 'w WorkerState \<Rightarrow> 'w WorkerState" where
  "on_resync_tick epoch_ms delta_nanos st = st\<lparr>wk_clock := snd (resync (wk_clock st) epoch_ms delta_nanos)\<rparr>"

definition sample_instruments :: "clock \<Rightarrow> u64 \<Rightarrow> 'w \<Rightarrow> 'w Metrics \<Rightarrow> Queues \<Rightarrow> 'w Metrics \<times> Queues" where
  "sample_instruments ck delta_nanos w metrics queues =
    (if metrics_is_empty metrics then (metrics, queues)
     else let (metrics, ms) = metrics_sample (now_ms ck delta_nanos * 1000000) w metrics (q_metrics queues) in
       (metrics, queues\<lparr>q_metrics := ms\<rparr>))"

text \<open>The branch of the sample tick: all points go into the queue, and stay there while it is flushed.\<close>

definition take_sample :: "u64 \<Rightarrow> 'w \<Rightarrow> 'w WorkerState \<Rightarrow> 'w WorkerState" where
  "take_sample delta_nanos w st =
    (let (metrics, queues) = sample_instruments (wk_clock st) delta_nanos w (wk_metrics st) (wk_queues st) in
     st\<lparr>wk_metrics := metrics, wk_queues := queues,
        wk_sampled := Some (length (q_metrics queues) - length (q_metrics (wk_queues st)))\<rparr>)"

definition flush_sample :: "'w WorkerState \<Rightarrow> 'w WorkerState option" where
  "flush_sample st = do {
     (_, s, q) \<leftarrow> flush_full_queues (wk_sender st) (wk_queues st);
     Some (st\<lparr>wk_sender := s, wk_queues := q, wk_sampled := None\<rparr>) }"

definition on_sample_tick :: "u64 \<Rightarrow> 'w \<Rightarrow> 'w WorkerState \<Rightarrow> 'w WorkerState option" where
  "on_sample_tick delta_nanos w st = flush_sample (take_sample delta_nanos w st)"

text \<open>\<open>Acks::send_all\<close>, one answer at a time; the worker is at its \<open>select!\<close> when nothing is under way.\<close>

definition answer_next :: "'w WorkerState \<Rightarrow> 'w WorkerState" where
  "answer_next st = st\<lparr>wk_acked := wk_acked st @ take 1 (wk_answering st), wk_answering := drop 1 (wk_answering st)\<rparr>"

definition at_select :: "'w WorkerState \<Rightarrow> bool" where
  "at_select st \<longleftrightarrow> wk_answering st = [] \<and> wk_sampled st = None"

text \<open>
  The steps. Clients send while there is room in the channel, update the instruments, and
  drop their handles; \<open>recv\<close> reports the last only once the channel is empty.
\<close>

inductive worker_step :: "'w WorkerState \<Rightarrow> 'w WorkerState \<Rightarrow> bool" where
  client_send: "wk_clients st \<Longrightarrow> length (wk_channel st) < wk_drain_limit st \<Longrightarrow>
    worker_step st (st\<lparr>wk_channel := wk_channel st @ [msg]\<rparr>)"
| client_metrics: "worker_step st (st\<lparr>wk_metrics := m\<rparr>)"
| clients_dropped: "worker_step st (st\<lparr>wk_clients := False\<rparr>)"
| recv: "wk_running st \<Longrightarrow> at_select st \<Longrightarrow> wk_channel st = msg # ch \<Longrightarrow> on_message deadline msg ch st = Some st' \<Longrightarrow> worker_step st st'"
| disconnect: "wk_running st \<Longrightarrow> at_select st \<Longrightarrow> wk_channel st = [] \<Longrightarrow> \<not> wk_clients st \<Longrightarrow>
    on_disconnect deadline st = Some st' \<Longrightarrow> worker_step st st'"
| flush_tick: "wk_running st \<Longrightarrow> at_select st \<Longrightarrow> on_flush_tick st = Some st' \<Longrightarrow> worker_step st st'"
| resync_tick: "wk_running st \<Longrightarrow> at_select st \<Longrightarrow> worker_step st (on_resync_tick epoch_ms d st)"
| sample_tick: "wk_running st \<Longrightarrow> at_select st \<Longrightarrow> worker_step st (take_sample d w st)"
| sample_flush: "wk_running st \<Longrightarrow> wk_sampled st \<noteq> None \<Longrightarrow> flush_sample st = Some st' \<Longrightarrow> worker_step st st'"
| answer: "wk_answering st \<noteq> [] \<Longrightarrow> worker_step st (answer_next st)"

inductive_cases worker_stepE: "worker_step st st'"

inductive worker_reach :: "'w WorkerState \<Rightarrow> bool" where
  start: "worker_start config on_error net d counter ck = Some st \<Longrightarrow> worker_reach st"
| step: "worker_reach st \<Longrightarrow> worker_step st st' \<Longrightarrow> worker_reach st'"

subsection \<open>No operation of the worker gets stuck\<close>

text \<open>
  What sending and flushing need, and what they leave: a positive batch size and a disk
  buffer whose cursor is in order. Nothing is assumed of the network or the disk.
\<close>

definition sender_ok :: "Sender \<Rightarrow> bool" where
  "sender_ok s \<longleftrightarrow> 0 < sn_batch_size s \<and> (\<forall>buf. sn_disk_buffer s = Some buf \<longrightarrow> pos_ok buf)"

definition stays :: "Sender \<Rightarrow> Sender \<Rightarrow> bool" where
  "stays s s' \<longleftrightarrow> sn_batch_size s' = sn_batch_size s \<and> (sn_deadline s = None \<longrightarrow> sn_deadline s' = None) \<and>
     (sender_ok s \<longrightarrow> sender_ok s') \<and> same_config s s' \<and> sn_on_error s' = sn_on_error s \<and>
     prefix (sn_reports s) (sn_reports s')"

lemma same_config_simps [simp]:
  "same_config s s" "same_config s (s'\<lparr>sn_transport := t\<rparr>) = same_config s s'"
  "same_config s (s'\<lparr>sn_disk_buffer := b\<rparr>) = same_config s s'" "same_config s (s'\<lparr>sn_slept := d\<rparr>) = same_config s s'"
  "same_config s (s'\<lparr>sn_deadline := dl\<rparr>) = same_config s s'" "same_config s (s'\<lparr>sn_reports := r\<rparr>) = same_config s s'"
  by (simp_all add: same_config_def)

lemma stays_refl [simp]: "stays s s" by (simp add: stays_def)

lemma stays_trans: "stays s s' \<Longrightarrow> stays s' s'' \<Longrightarrow> stays s s''"
  by (auto simp: stays_def same_config_def intro: prefix_order.trans)

lemma stays_update [simp]:
  "stays s (s\<lparr>sn_transport := t\<rparr>)" "stays s (s\<lparr>sn_slept := d\<rparr>)" "stays s (tick s)" "stays s (report e s)"
  "stays s (encoded s ty data)"
  by (auto simp: stays_def sender_ok_def tick_def report_def encoded_def same_config_def)

text \<open>A future's result and final state: it is ready when there is no deadline.\<close>

definition fine :: "Sender \<Rightarrow> 'a awaited \<Rightarrow> Sender \<Rightarrow> bool" where
  "fine s r s' \<longleftrightarrow> stays s s' \<and> (sn_deadline s = None \<longrightarrow> r \<noteq> Expired)"

lemma stays_deadline: "stays s s' \<Longrightarrow> sn_deadline s = None \<Longrightarrow> sn_deadline s' = None"
  by (simp add: stays_def)

lemma fine_after: "stays s s1 \<Longrightarrow> fine s1 r s' \<Longrightarrow> fine s r s'"
  using stays_trans [of s s1 s'] stays_deadline [of s s1] by (auto simp: fine_def)

lemma fine_Ready: "fine s (Ready x) s' \<longleftrightarrow> stays s s'" by (simp add: fine_def)

lemma await_send_fine: "await_send d s = (r, s') \<Longrightarrow> fine s r s' \<and> sn_disk_buffer s' = sn_disk_buffer s"
  by (auto simp: await_send_def cut_off_def cut_send_def fine_def stays_def sender_ok_def tick_def
      split: if_splits prod.splits option.splits sum.splits)

lemma await_sleep_fine: "await_sleep d s = (r, s') \<Longrightarrow> fine s r s' \<and> sn_disk_buffer s' = sn_disk_buffer s"
  by (auto simp: await_sleep_def cut_off_def fine_def stays_def sender_ok_def tick_def
      split: if_splits option.splits)

lemma attempt_loop_fine:
  "attempt_loop n k e s = (r, s') \<Longrightarrow> fine s r s' \<and> sn_disk_buffer s' = sn_disk_buffer s"
proof (induction n k e s arbitrary: r s' rule: attempt_loop.induct)
  case (2 left attempt last_err s)
  obtain r1 s1 where a: "await_send (sn_batch_buf s) s = (r1, s1)" by (rule prod.exhaust)
  note f1 = await_send_fine [OF a]
  show ?case
  proof (cases "\<exists>e. r1 = Ready (Inl e)")
    case False
    then have "r = (case r1 of Expired \<Rightarrow> Expired | Ready _ \<Rightarrow> Ready None)" "s' = s1"
      using 2(3) a by (auto split: awaited.splits sum.splits)
    with f1 show ?thesis by (auto simp: fine_def split: awaited.splits)
  next
    case True
    then obtain e where e: "r1 = Ready (Inl e)" by blast
    obtain r2 s2 where b: "await_sleep (backoff attempt) s1 = (r2, s2)" by (rule prod.exhaust)
    note f2 = await_sleep_fine [OF b]
    consider (last) "left = 0" "r = Ready (Some (Some e))" "s' = s1"
      | (cut) "r = Expired" "s' = s2" "r2 = Expired"
      | (again) "0 < left" "\<exists>x. r2 = Ready x" "attempt_loop left (attempt + 1) (Some e) s2 = (r, s')"
      using 2(3) a b e by (cases left) (auto split: awaited.splits)
    then show ?thesis
    proof cases
      case last
      with f1 show ?thesis by (auto simp: fine_def)
    next
      case cut
      with f1 f2 e fine_after [of s s1 r2 s2] show ?thesis by (auto simp: fine_def)
    next
      case again
      then have "fine s2 r s' \<and> sn_disk_buffer s' = sn_disk_buffer s2" using 2(1) a b e by auto
      with f1 f2 e show ?thesis by (metis fine_after fine_def)
    qed
  qed
qed (simp add: fine_def)

lemma append_to_wal_stays [simp]: "stays s (append_to_wal s)"
proof (cases "sn_disk_buffer s")
  case (Some buf)
  obtain r buf' where a: "append (sn_batch_buf s) buf = (r, buf')" by (rule prod.exhaust)
  have "pos_ok buf \<Longrightarrow> pos_ok buf'" using safeD [OF safe_append, of buf "sn_batch_buf s"] a by simp
  then show ?thesis using Some a
    by (auto simp: append_to_wal_def stays_def sender_ok_def report_def split: sum.splits)
qed (simp add: append_to_wal_def)

lemma send_with_fallback_fine: "send_with_fallback s = (r, s') \<Longrightarrow> fine s r s'"
proof -
  assume s: "send_with_fallback s = (r, s')"
  obtain r1 s1 where a: "attempt_loop (unat (attempts s)) 0 None s = (r1, s1)" by (rule prod.exhaust)
  from s a attempt_loop_fine [OF a] show ?thesis
    by (auto simp: send_with_fallback_def fine_def split: awaited.splits option.splits if_splits
        intro: stays_trans)
qed

context chunk_encoder
begin

lemma flush_total:
  assumes "sender_ok s"
  shows "\<exists>r s' q'. flush_queue enc s q = Some (r, s', q') \<and> fine s r s' \<and> (r \<noteq> Expired \<longrightarrow> q' = []) \<and>
    length q' \<le> length q"
  using assms
proof (induction "length q" arbitrary: q s rule: less_induct)
  case less
  show ?case
  proof (cases "q = []")
    case True
    then show ?thesis by (subst flush_queue.simps) (simp add: fine_def)
  next
    case False
    let ?n = "min (length q) (sn_batch_size s)"
    let ?s1 = "encoded s ty (data s (take ?n q))"
    obtain r2 s2 where b: "send_with_fallback ?s1 = (r2, s2)" by (rule prod.exhaust)
    have f: "fine s r2 s2" using send_with_fallback_fine [OF b] by (rule fine_after [rotated]) simp
    then have ok: "sender_ok s2" using less.prems by (simp add: fine_def stays_def)
    have "0 < ?n" using False less.prems by (simp add: sender_ok_def)
    then have "length (drop ?n q) < length q" by simp
    from less.hyps [OF this ok] obtain r3 s3 q3 where c:
      "flush_queue enc s2 (drop ?n q) = Some (r3, s3, q3)" "fine s2 r3 s3" "r3 \<noteq> Expired \<longrightarrow> q3 = []"
      "length q3 \<le> length (drop ?n q)" by blast
    show ?thesis
    proof (cases r2)
      case Expired
      with False b f show ?thesis by (subst flush_queue.simps) (simp add: enc)
    next
      case (Ready x)
      with f c(2) have "fine s r3 s3" using fine_after by (auto simp: fine_Ready)
      moreover have "length q3 \<le> length q" using c(4) by simp
      ultimately show ?thesis
        using False b Ready c by (subst flush_queue.simps) (simp add: enc Let_def)
    qed
  qed
qed

lemma save_total:
  assumes "sender_ok s"
  shows "\<exists>s'. save_queue enc s q = Some (s', []) \<and> stays s s'"
  using assms
proof (induction "length q" arbitrary: q s rule: less_induct)
  case less
  show ?case
  proof (cases "q = []")
    case True
    then show ?thesis by (subst save_queue.simps) simp
  next
    case False
    let ?n = "min (length q) (sn_batch_size s)"
    let ?s1 = "append_to_wal (encoded s ty (data s (take ?n q)))"
    have st: "stays s ?s1" by (rule stays_trans [OF stays_update(5) append_to_wal_stays])
    then have ok: "sender_ok ?s1" using less.prems by (simp add: stays_def)
    have "0 < ?n" using False less.prems by (simp add: sender_ok_def)
    then have "length (drop ?n q) < length q" by simp
    from less.hyps [OF this ok] obtain s2 where "save_queue enc ?s1 (drop ?n q) = Some (s2, [])" "stays ?s1 s2"
      by blast
    with False st show ?thesis
      by (subst save_queue.simps) (auto simp: enc Let_def intro: stays_trans)
  qed
qed

end

text \<open>A drained frame moves the cursor forward, and it never passes the write position.\<close>

lemma drain_next_progress:
  assumes "drain_next s = (Inr (Some fr), s')" "pos_ok s"
  shows "pos_ok s' \<and> db_write_pos s' - db_read_pos s' < db_write_pos s - db_read_pos s"
proof -
  have lt: "db_read_pos s < db_write_pos s"
    using assms(1) by (auto simp: drain_next_def ret_def not_le split: if_splits)
  obtain h s1 where h: "read_header s = (Inr h, s1)"
    using assms(1) lt
    by (cases "read_header s") (auto simp: drain_next_def try_io_def Let_def split: sum.splits if_splits)
  note p1 = keepsD [OF keeps_read_header h]
  have reset: "try_io reset_to_end (\<lambda>_. ret None) s0 \<noteq> (Inr (Some fr), s')"
    "try_io reset_to_end (\<lambda>_. err e) s0 \<noteq> (Inr (Some fr), s')" for s0 e
    by (auto simp: try_io_def ret_def err_def split: prod.splits sum.splits)
  obtain k where k: "h = Some k" "\<not> MAX_FRAME_LEN < k" "\<not> db_write_pos s - db_read_pos s < k + FRAME_HEADER_LEN"
    using assms(1) lt h reset
    by (auto simp: drain_next_def try_io_simps(1) [where m = read_header and s = s] Let_def
        split: option.splits if_splits)
  obtain r s2 where b: "reader_read k s1 = (r, s2)" by (rule prod.exhaust)
  note p2 = keepsD [OF keeps_reader_read b]
  have "s' = s2\<lparr>db_read_pos := db_read_pos s2 + (FRAME_HEADER_LEN + k)\<rparr>"
    using assms(1) lt h k b reset
    by (auto simp: drain_next_def try_io_simps(1) [where m = read_header and s = s] Let_def ret_def err_def
        split: sum.splits if_splits)
  then show ?thesis
    using p1 p2 k(3) lt by (auto simp: pos_ok_def FRAME_HEADER_LEN_def)
qed

lemma drain_loop_total:
  assumes "pos_ok buf"
  shows "\<exists>r s' buf'. drain_loop s buf = Some (r, s', buf') \<and> fine s r s' \<and> sn_disk_buffer s' = sn_disk_buffer s \<and>
    pos_ok buf'"
  using assms
proof (induction "db_write_pos buf - db_read_pos buf" arbitrary: s buf rule: less_induct)
  case less
  obtain d buf1 where d: "drain_next buf = (d, buf1)" by (rule prod.exhaust)
  have ok1: "pos_ok buf1" using safeD [OF safe_drain_next less.prems] d by simp
  have rep: "fine s (Ready ()) (report e s) \<and> sn_disk_buffer (report e s) = sn_disk_buffer s" for e s
    by (simp add: fine_Ready) (simp add: report_def)
  show ?case
  proof (cases "\<exists>fr. d = Inr (Some fr)")
    case False
    then show ?thesis
      using d ok1 rep by (subst drain_loop.simps) (auto simp: fine_Ready split: sum.splits option.splits)
  next
    case True
    then obtain fr where fr: "d = Inr (Some fr)" by blast
    obtain r2 s2 where a: "await_send fr s = (r2, s2)" by (rule prod.exhaust)
    note f = await_send_fine [OF a]
    have step: "drain_loop s buf = (case r2 of Expired \<Rightarrow> Some (Expired, s2, buf1)
        | Ready (Inr _) \<Rightarrow> drain_loop s2 buf1
        | Ready (Inl send_err) \<Rightarrow> (case append fr buf1 of
            (Inr _, buf) \<Rightarrow> Some (Ready (), report send_err s2, buf)
          | (Inl e, buf) \<Rightarrow> Some (Ready (), report send_err
              (report (BufferError (''failed to re-buffer frame: '' @ show_io e)) s2), buf)))"
      by (subst drain_loop.simps) (simp add: d fr a split: awaited.splits sum.splits)
    consider (cut) "r2 = Expired" | (sent) "r2 = Ready (Inr ())" | (failed) e where "r2 = Ready (Inl e)"
      by (cases r2) (auto, metis old.unit.exhaust sum.exhaust)
    then show ?thesis
    proof cases
      case cut
      with f ok1 show ?thesis by (simp add: step fine_def)
    next
      case sent
      have "db_write_pos buf1 - db_read_pos buf1 < db_write_pos buf - db_read_pos buf"
        using drain_next_progress less.prems d fr by blast
      from less.hyps [OF this ok1, of s2] sent f show ?thesis
        by (auto simp: step fine_Ready intro: fine_after)
    next
      case failed
      obtain r3 buf3 where b: "append fr buf1 = (r3, buf3)" by (rule prod.exhaust)
      have ok3: "pos_ok buf3" using safeD [OF safe_append ok1, of fr] b by simp
      have st: "stays s s2" "sn_disk_buffer s2 = sn_disk_buffer s" using f failed by (simp_all add: fine_def)
      then have "stays s (report e1 (report e2 s2))" "stays s (report e1 s2)" for e1 e2
        by (meson stays_trans stays_update(4))+
      moreover have "sn_disk_buffer (report e1 (report e2 s2)) = sn_disk_buffer s"
        "sn_disk_buffer (report e1 s2) = sn_disk_buffer s" for e1 e2
        using st(2) by (simp_all add: report_def)
      ultimately show ?thesis using failed b ok3 by (cases r3) (simp_all add: step fine_Ready)
    qed
  qed
qed

lemma drain_total:
  assumes "sender_ok s"
  shows "\<exists>r s'. drain_disk_buffer s = Some (r, s') \<and> fine s r s'"
proof (cases "sn_disk_buffer s")
  case None
  then show ?thesis by (simp add: drain_disk_buffer_def fine_def)
next
  case (Some buf)
  then have ok: "pos_ok buf" using assms by (simp add: sender_ok_def)
  obtain r s1 buf1 where l: "drain_loop s buf = Some (r, s1, buf1)" "fine s r s1" "pos_ok buf1"
    "sn_disk_buffer s1 = sn_disk_buffer s"
    using drain_loop_total [OF ok] by blast
  have set: "stays s (s1\<lparr>sn_disk_buffer := Some b\<rparr>)" if "pos_ok b" for b
  proof -
    have "sn_batch_size s1 = sn_batch_size s" "sn_deadline s = None \<longrightarrow> sn_deadline s1 = None"
      "same_config s s1" "sn_on_error s1 = sn_on_error s" "prefix (sn_reports s) (sn_reports s1)"
      using l(2) unfolding fine_def stays_def by blast+
    with that show ?thesis by (simp add: stays_def sender_ok_def)
  qed
  have rep: "stays s (report e (s1\<lparr>sn_disk_buffer := Some b\<rparr>))" if "pos_ok b" for b e
    by (rule stays_trans [OF set [OF that] stays_update(4)])
  obtain r2 buf2 where c: "commit buf1 = (r2, buf2)" by (rule prod.exhaust)
  have ok2: "pos_ok buf2" using safeD [OF safe_commit l(3)] c by simp
  show ?thesis
  proof (cases r)
    case Expired
    with l set [OF l(3)] Some show ?thesis by (auto simp: drain_disk_buffer_def fine_def)
  next
    case (Ready x)
    with l Some c set [OF ok2] rep [OF ok2] show ?thesis
      by (cases r2) (auto simp: drain_disk_buffer_def fine_Ready)
  qed
qed

text \<open>A handler's result: it returns, in a good state; without a deadline it is ready.\<close>

definition completes :: "Sender \<Rightarrow> (unit awaited \<times> Sender \<times> Queues) option \<Rightarrow> (Queues \<Rightarrow> bool) \<Rightarrow> bool" where
  "completes s m P \<longleftrightarrow> (\<exists>r s' q'. m = Some (r, s', q') \<and> fine s r s' \<and> (r \<noteq> Expired \<longrightarrow> P q'))"

lemma completes_then:
  assumes "completes s m P" "sender_ok s"
    and "\<And>s' q'. stays s s' \<Longrightarrow> sender_ok s' \<Longrightarrow> P q' \<Longrightarrow> completes s' (f s' q') Q"
  shows "completes s (then_await m f) Q"
proof -
  obtain r s1 q1 where m: "m = Some (r, s1, q1)" "fine s r s1" "r \<noteq> Expired \<longrightarrow> P q1"
    using assms(1) by (auto simp: completes_def)
  show ?thesis
  proof (cases r)
    case Expired
    with m show ?thesis by (simp add: then_await_def completes_def)
  next
    case (Ready x)
    then have "stays s s1" "sender_ok s1" "P q1" using m assms(2) by (auto simp: fine_def stays_def)
    from assms(3) [OF this] this(1) m Ready show ?thesis
      by (auto simp: then_await_def completes_def intro: fine_after)
  qed
qed

lemma completes_mono: "completes s m P \<Longrightarrow> (\<And>q. P q \<Longrightarrow> Q q) \<Longrightarrow> completes s m Q"
  by (auto simp: completes_def)

lemma flush_one_completes:
  assumes "sender_ok s"
  shows "completes s (flush_events s q) (\<lambda>q'. q' = q\<lparr>q_events := []\<rparr>)"
    "completes s (flush_logs s q) (\<lambda>q'. q' = q\<lparr>q_logs := []\<rparr>)"
    "completes s (flush_metrics s q) (\<lambda>q'. q' = q\<lparr>q_metrics := []\<rparr>)"
  using events.flush_total [OF assms, of "q_events q"] logs.flush_total [OF assms, of "q_logs q"]
    metrics.flush_total [OF assms, of "q_metrics q"]
  by (auto simp: completes_def flush_events_def flush_logs_def flush_metrics_def)

lemma flush_all_completes:
  assumes "sender_ok s"
  shows "completes s (flush_all s q) (\<lambda>q'. q' = no_queues)"
proof -
  have d: "completes s (do { (r, s) \<leftarrow> drain_disk_buffer s; Some (r, s, q) }) (\<lambda>q'. q' = q)"
    using drain_total [OF assms] by (auto simp: completes_def)
  have m: "completes s3 (flush_metrics s3 q3) (\<lambda>q'. q' = no_queues)"
    if "sender_ok s3" "q3 = q\<lparr>q_events := [], q_logs := []\<rparr>" for s3 q3
    by (rule completes_mono [OF flush_one_completes(3) [OF that(1)]]) (simp add: that(2) no_queues_def)
  have l: "completes s2 (then_await (flush_logs s2 q2) flush_metrics) (\<lambda>q'. q' = no_queues)"
    if "sender_ok s2" "q2 = q\<lparr>q_events := []\<rparr>" for s2 q2
    by (rule completes_then [OF flush_one_completes(2) [OF that(1)] that(1)]) (rule m; simp add: that(2))
  have e: "completes s1 (then_await (flush_events s1 q) (\<lambda>s q. then_await (flush_logs s q) flush_metrics))
      (\<lambda>q'. q' = no_queues)" if "sender_ok s1" for s1
    by (rule completes_then [OF flush_one_completes(1) [OF that] that]) (rule l)
  show ?thesis
    unfolding flush_all_def by (rule completes_then [OF d assms]) (simp add: e)
qed

definition queues_below :: "nat \<Rightarrow> Queues \<Rightarrow> bool" where
  "queues_below n q \<longleftrightarrow> length (q_events q) < n \<and> length (q_logs q) < n \<and> length (q_metrics q) < n"

lemma flush_full_completes:
  assumes "sender_ok s"
  shows "completes s (flush_full_queues s q) (queues_below (sn_batch_size s))"
proof -
  let ?n = "sn_batch_size s"
  have n: "0 < ?n" using assms by (simp add: sender_ok_def)
  have id: "completes s1 (Some (Ready (), s1, q1)) (\<lambda>q'. q' = q1)" for s1 q1
    by (simp add: completes_def fine_Ready)
  have m: "completes s3 (if ?n \<le> length (q_metrics q3) then flush_metrics s3 q3 else Some (Ready (), s3, q3))
      (queues_below ?n)" if "sender_ok s3" "length (q_events q3) < ?n \<and> length (q_logs q3) < ?n" for s3 q3
    using completes_mono [OF flush_one_completes(3) [OF that(1)], of q3 "queues_below ?n"]
      completes_mono [OF id, of q3 "queues_below ?n" s3] that(2) n by (auto simp: queues_below_def)
  have l: "completes s2 (then_await (if ?n \<le> length (q_logs q2) then flush_logs s2 q2 else Some (Ready (), s2, q2))
      (\<lambda>s q. if ?n \<le> length (q_metrics q) then flush_metrics s q else Some (Ready (), s, q))) (queues_below ?n)"
    if "sender_ok s2" "length (q_events q2) < ?n" for s2 q2
    by (rule completes_then [where P = "\<lambda>q. length (q_events q) < ?n \<and> length (q_logs q) < ?n", OF _ that(1)])
      (use completes_mono [OF flush_one_completes(2) [OF that(1)]] completes_mono [OF id] that(2) n m in \<open>auto\<close>)
  show ?thesis
    unfolding flush_full_queues_def Let_def
    by (rule completes_then [where P = "\<lambda>q. length (q_events q) < ?n", OF _ assms])
      (use completes_mono [OF flush_one_completes(1) [OF assms]] completes_mono [OF id] n l in \<open>auto\<close>)
qed

lemma save_queues_total:
  assumes "sender_ok s"
  shows "\<exists>s' q'. save_queues_to_wal s q = Some (s', q')"
proof (cases "sn_disk_buffer s = None")
  case False
  obtain s1 where e: "save_queue encode_events s (q_events q) = Some (s1, [])" "stays s s1"
    using events.save_total [OF assms] by blast
  then have "sender_ok s1" using assms by (simp add: stays_def)
  then obtain s2 where l: "save_queue encode_logs s1 (q_logs q) = Some (s2, [])" "stays s1 s2"
    using logs.save_total by blast
  with \<open>sender_ok s1\<close> have "sender_ok s2" by (simp add: stays_def)
  then obtain s3 where "save_queue encode_metrics s2 (q_metrics q) = Some (s3, [])"
    using metrics.save_total by blast
  with e l False show ?thesis unfolding save_queues_to_wal_def by auto
qed (simp add: save_queues_to_wal_def Let_def)

lemma shutdown_total:
  assumes "sender_ok s"
  shows "\<exists>s' q'. shutdown deadline s q acks = Some (s', q', acks_order acks)"
proof -
  have ok: "sender_ok (s\<lparr>sn_deadline := deadline\<rparr>)" using assms by (simp add: sender_ok_def)
  obtain r s1 q1 where f: "flush_all (s\<lparr>sn_deadline := deadline\<rparr>) q = Some (r, s1, q1)" "sender_ok s1"
    using flush_all_completes [OF ok, of q] ok by (auto simp: completes_def fine_def stays_def)
  have ok1: "sender_ok (report e (s1\<lparr>sn_deadline := None\<rparr>))" for e
    using f(2) by (simp add: sender_ok_def report_def)
  show ?thesis
  proof (cases r)
    case Expired
    obtain s2 q2 where "save_queues_to_wal (report (Network ''shutdown flush timed out: saving pending data to disk buffer'')
        (s1\<lparr>sn_deadline := None\<rparr>)) q1 = Some (s2, q2)"
      using save_queues_total [OF ok1] by blast
    with Expired f(1) show ?thesis unfolding shutdown_def by simp
  next
    case (Ready x)
    with f show ?thesis by (simp add: shutdown_def Let_def)
  qed
qed

subsection \<open>The invariant of the loop\<close>

definition worker_inv :: "'w WorkerState \<Rightarrow> bool" where
  "worker_inv st \<longleftrightarrow> length (wk_channel st) \<le> wk_drain_limit st \<and>
     (wk_running st \<longrightarrow> sender_ok (wk_sender st) \<and> sn_deadline (wk_sender st) = None \<and>
       (wk_sampled st = None \<longrightarrow> queues_below (sn_batch_size (wk_sender st)) (wk_queues st)))"

lemma completes_running:
  assumes "completes s m P" "sender_ok s" "sn_deadline s = None"
  obtains s' q' where "m = Some (Ready (), s', q')" "sender_ok s'" "sn_deadline s' = None"
    "sn_batch_size s' = sn_batch_size s" "P q'" "stays s s'"
proof -
  obtain r s' q' where m: "m = Some (r, s', q')" "fine s r s'" "r \<noteq> Expired \<longrightarrow> P q'"
    using assms(1) by (auto simp: completes_def)
  moreover have "r = Ready ()" using m(2) assms(3) by (cases r) (simp_all add: fine_def)
  ultimately show thesis using assms(2,3) by (intro that [of s' q']) (auto simp: fine_def stays_def)
qed

lemma drain_channel_eq: "drain_channel n qa ch = (fold (\<lambda>m qa. absorb qa m) (take n ch) qa, drop n ch)"
  by (induction n qa ch rule: drain_channel.induct) auto

lemma on_message_inv:
  assumes "worker_inv st" "wk_running st" "wk_channel st = msg # ch"
  shows "\<exists>st'. on_message deadline msg ch st = Some st' \<and> worker_inv st'"
proof -
  have ok: "sender_ok (wk_sender st)" "sn_deadline (wk_sender st) = None"
    "length (drop n ch) \<le> wk_drain_limit st" for n
    using assms by (auto simp: worker_inv_def)
  have n: "0 < sn_batch_size (wk_sender st)" using ok(1) by (simp add: sender_ok_def)
  obtain q acks where d: "fold (\<lambda>m qa. absorb qa m) (take (wk_drain_limit st) ch) (absorb (wk_queues st, no_acks) msg) =
      (q, acks)" by (rule prod.exhaust)
  show ?thesis
  proof (cases "ak_close acks = []")
    case False
    obtain s' q' where "shutdown deadline (wk_sender st) q acks = Some (s', q', acks_order acks)"
      using shutdown_total [OF ok(1)] by blast
    with False d ok(3) show ?thesis by (simp add: on_message_def finish_recv_def drain_channel_eq worker_inv_def)
  next
    case True
    show ?thesis
    proof (cases "ak_flush acks = []")
      case False
      obtain s' q' where "flush_all (wk_sender st) q = Some (Ready (), s', q')" "sender_ok s'" "sn_deadline s' = None"
        "sn_batch_size s' = sn_batch_size (wk_sender st)" "q' = no_queues"
        by (rule completes_running [OF flush_all_completes [OF ok(1)] ok(1,2)])
      with True False d ok(3) n show ?thesis
        by (simp add: on_message_def finish_recv_def drain_channel_eq worker_inv_def queues_below_def no_queues_def)
    next
      case noflush: True
      obtain s' q' where "flush_full_queues (wk_sender st) q = Some (Ready (), s', q')" "sender_ok s'"
        "sn_deadline s' = None" "sn_batch_size s' = sn_batch_size (wk_sender st)"
        "queues_below (sn_batch_size (wk_sender st)) q'"
        by (rule completes_running [OF flush_full_completes [OF ok(1)] ok(1,2)])
      with True noflush d ok(3) show ?thesis
        by (simp add: on_message_def finish_recv_def drain_channel_eq worker_inv_def)
    qed
  qed
qed

lemma on_disconnect_inv:
  assumes "worker_inv st" "wk_running st"
  shows "\<exists>st'. on_disconnect deadline st = Some st' \<and> worker_inv st'"
proof -
  have ok: "sender_ok (wk_sender st)" using assms by (simp add: worker_inv_def)
  obtain s' q' where "shutdown deadline (wk_sender st) (wk_queues st) no_acks = Some (s', q', acks_order no_acks)"
    using shutdown_total [OF ok] by blast
  with assms(1) show ?thesis by (simp add: on_disconnect_def worker_inv_def)
qed

lemma on_flush_tick_inv:
  assumes "worker_inv st" "wk_running st"
  shows "\<exists>st'. on_flush_tick st = Some st' \<and> worker_inv st'"
proof -
  have ok: "sender_ok (wk_sender st)" "sn_deadline (wk_sender st) = None" using assms by (auto simp: worker_inv_def)
  then have n: "0 < sn_batch_size (wk_sender st)" by (simp add: sender_ok_def)
  obtain s' q' where "flush_all (wk_sender st) (wk_queues st) = Some (Ready (), s', q')" "sender_ok s'"
    "sn_deadline s' = None" "sn_batch_size s' = sn_batch_size (wk_sender st)" "q' = no_queues"
    by (rule completes_running [OF flush_all_completes [OF ok(1)] ok])
  with assms n show ?thesis by (simp add: on_flush_tick_def worker_inv_def queues_below_def no_queues_def)
qed

lemma take_sample_inv: "worker_inv st \<Longrightarrow> worker_inv (take_sample d w st)"
  by (simp add: take_sample_def worker_inv_def split: prod.split)

lemma flush_sample_inv:
  assumes "worker_inv st" "wk_running st"
  shows "\<exists>st'. flush_sample st = Some st' \<and> worker_inv st'"
proof -
  have ok: "sender_ok (wk_sender st)" "sn_deadline (wk_sender st) = None" using assms by (auto simp: worker_inv_def)
  obtain s' q' where "flush_full_queues (wk_sender st) (wk_queues st) = Some (Ready (), s', q')" "sender_ok s'"
    "sn_deadline s' = None" "sn_batch_size s' = sn_batch_size (wk_sender st)"
    "queues_below (sn_batch_size (wk_sender st)) q'"
    by (rule completes_running [OF flush_full_completes [OF ok(1)] ok])
  with assms show ?thesis by (simp add: flush_sample_def worker_inv_def)
qed

lemma worker_start_inv:
  assumes "worker_start config on_error net d counter ck = Some st"
  shows "worker_inv st"
proof -
  let ?s = "sender_new config on_error net d counter"
  have "sender_ok ?s \<and> sn_deadline ?s = None"
    using open_buffer_pos
    by (auto simp: sender_new_def Let_def sender_ok_def report_def split: option.splits prod.splits sum.splits)
  with assms show ?thesis
    by (auto simp: worker_start_def Let_def worker_inv_def queues_below_def no_queues_def sender_ok_def split: if_splits)
qed

lemma worker_step_inv: "worker_step st st' \<Longrightarrow> worker_inv st \<Longrightarrow> worker_inv st'"
proof (induction rule: worker_step.induct)
  case (recv st msg ch deadline st')
  then show ?case using on_message_inv [of st msg ch deadline] by auto
next
  case (disconnect st deadline st')
  then show ?case using on_disconnect_inv [of st deadline] by auto
next
  case (flush_tick st st')
  then show ?case using on_flush_tick_inv [of st] by auto
next
  case (sample_tick st d w)
  then show ?case by (intro take_sample_inv)
next
  case (sample_flush st st')
  then show ?case using flush_sample_inv [of st] by auto
qed (auto simp: worker_inv_def on_resync_tick_def answer_next_def)

lemma worker_reach_inv: "worker_reach st \<Longrightarrow> worker_inv st"
  by (induction rule: worker_reach.induct) (auto intro: worker_start_inv worker_step_inv)

text \<open>
  Between two iterations of the loop every queue is shorter than a batch, whatever the
  clients, the network, the disk and the timers did.
\<close>

theorem worker_queues_bounded:
  assumes "worker_reach st" "wk_running st" "at_select st"
  shows "queues_below (sn_batch_size (wk_sender st)) (wk_queues st) \<and> length (wk_channel st) \<le> wk_drain_limit st"
  using worker_reach_inv [OF assms(1)] assms(2,3) by (simp add: worker_inv_def at_select_def)

text \<open>
  C13: no branch of the loop gets stuck. In every reachable state every handler returns: no
  encoder panics, no flush, drain or save runs forever, for any network and any disk.
\<close>

theorem worker_never_stuck:
  assumes "worker_reach st" "wk_running st"
  shows "(\<forall>msg ch deadline. wk_channel st = msg # ch \<longrightarrow> on_message deadline msg ch st \<noteq> None) \<and>
    (\<forall>deadline. on_disconnect deadline st \<noteq> None) \<and> on_flush_tick st \<noteq> None \<and>
    (\<forall>d w. on_sample_tick d w st \<noteq> None) \<and> flush_sample st \<noteq> None"
proof -
  have inv: "worker_inv st" by (rule worker_reach_inv [OF assms(1)])
  have "on_message deadline msg ch st \<noteq> None" if "wk_channel st = msg # ch" for msg ch deadline
    using on_message_inv [OF inv assms(2) that, of deadline] by auto
  moreover have "on_disconnect deadline st \<noteq> None" for deadline
    using on_disconnect_inv [OF inv assms(2), of deadline] by auto
  moreover have "on_flush_tick st \<noteq> None" using on_flush_tick_inv [OF inv assms(2)] by auto
  moreover have "flush_sample st \<noteq> None" using flush_sample_inv [OF inv assms(2)] by auto
  moreover have "on_sample_tick d w st \<noteq> None" for d w
    using flush_sample_inv [OF take_sample_inv [OF inv, of d w]] assms(2)
    by (auto simp: on_sample_tick_def take_sample_def split: prod.splits)
  ultimately show ?thesis by blast
qed

definition sample_worker :: "unit WorkerState" where
  "sample_worker = \<lparr>wk_sender = sample_sender, wk_queues = no_queues, wk_channel = [], wk_drain_limit = 4,
     wk_metrics = metrics_new, wk_clock = \<lparr>ck_anchor_system = 0, ck_correction_ms = 0\<rparr>, wk_clients = True,
     wk_answering = [], wk_sampled = None, wk_acked = [], wk_running = True\<rparr>"

lemma sample_start:
  "worker_start sample_config True [] fresh_disk (BATCH_COUNTER []) \<lparr>ck_anchor_system = 0, ck_correction_ms = 0\<rparr> = Some sample_worker"
  by (simp add: worker_start_def sender_new_def sample_config_def sample_worker_def sample_sender_def)

lemma sample_loaded: "worker_reach (sample_worker\<lparr>wk_channel := [EventMsg sample_queued, FlushMsg 7]\<rparr>)"
proof -
  have "worker_reach sample_worker" using sample_start by (rule worker_reach.start)
  then have "worker_reach (sample_worker\<lparr>wk_channel := wk_channel sample_worker @ [EventMsg sample_queued]\<rparr>)"
    by (rule worker_reach.step) (rule client_send; simp add: sample_worker_def)
  then have "worker_reach (sample_worker\<lparr>wk_channel := [EventMsg sample_queued]\<rparr>)"
    by (simp add: sample_worker_def)
  from worker_reach.step [OF this client_send [of _ "FlushMsg 7"]] show ?thesis
    by (simp add: sample_worker_def)
qed

theorem worker_queues_bounded_witness:
  "queues_below 2 (wk_queues (sample_worker\<lparr>wk_channel := [EventMsg sample_queued, FlushMsg 7]\<rparr>))"
  using worker_queues_bounded [OF sample_loaded] by (simp add: sample_worker_def sample_sender_def at_select_def)

theorem worker_never_stuck_witness:
  "on_message None (EventMsg sample_queued) [FlushMsg 7]
    (sample_worker\<lparr>wk_channel := [EventMsg sample_queued, FlushMsg 7]\<rparr>) \<noteq> None"
  using worker_never_stuck [OF sample_loaded] by (simp add: sample_worker_def)

subsection \<open>What an acknowledgement means\<close>

definition sendable :: "Sender \<Rightarrow> Queues \<Rightarrow> bool" where
  "sendable s q \<longleftrightarrow> list_all (\<lambda>c. fits s (event_data s c)) (chunks (sn_batch_size s) (q_events q)) \<and>
     list_all (\<lambda>c. fits s (log_data s c)) (chunks (sn_batch_size s) (q_logs q)) \<and>
     list_all (\<lambda>c. fits s (metric_data s c)) (chunks (sn_batch_size s) (q_metrics q))"

text \<open>The frames a collector decodes to exactly the entries of the queues, in order.\<close>

definition carries :: "Sender \<Rightarrow> Queues \<Rightarrow> bytes list \<Rightarrow> bool" where
  "carries s q frames \<longleftrightarrow> (\<exists>es ls ms ecs lcs mcs. frames = es @ ls @ ms \<and>
     map (collect SchemaEvent decode_event_data) es = map (\<lambda>c. Some (map (event_params s) c)) ecs \<and>
     map (collect SchemaLog decode_log_data) ls = map (\<lambda>c. Some (map (log_params s) c)) lcs \<and>
     map (collect SchemaMetric decode_metric_data) ms = map (\<lambda>c. Some (map (metric_params s) c)) mcs \<and>
     concat ecs = q_events q \<and> concat lcs = q_logs q \<and> concat mcs = q_metrics q \<and>
     [] \<notin> set ecs \<and> [] \<notin> set lcs \<and> [] \<notin> set mcs)"

definition can_send :: "Sender \<Rightarrow> bool" where
  "can_send s \<longleftrightarrow> online s \<and> 0 < sn_batch_size s \<and> (sn_disk_buffer s \<noteq> None \<or> sn_max_retries s \<noteq> - 1)"

lemma chunks_not_empty: "[] \<notin> set (chunks n q)"
  by (induction n q rule: chunks.induct) (subst chunks.simps, auto)

lemma fits_config: "same_config s s' \<Longrightarrow> fits s' d = fits s d"
  by (simp add: same_config_def fits_def)

lemma same_config_trans: "same_config s s' \<Longrightarrow> same_config s' s'' \<Longrightarrow> same_config s s''"
  by (simp add: same_config_def)

lemma flush_all_online:
  assumes "can_send s" "buffered s c" "sendable s q"
  shows "\<exists>s' frames. flush_all s q = Some (Ready (), s', no_queues) \<and> sent s' = sent s @ c @ frames \<and>
    carries s q frames \<and> buffered s' []"
proof -
  have online: "online s" using assms(1) by (simp add: can_send_def)
  obtain s0 where d: "drain_disk_buffer s = Some (Ready (), s0)" "online s0" "same_config s s0"
    "sent s0 = sent s @ c" "buffered s0 []" "sn_disk_buffer s0 = None \<longleftrightarrow> sn_disk_buffer s = None"
    using drain_online [OF online assms(2)] by (elim exE conjE) (rule that)
  have n: "0 < sn_batch_size s" using assms(1) by (simp add: can_send_def)
  have go: "0 < sn_batch_size t" "sn_disk_buffer t \<noteq> None \<or> sn_max_retries t \<noteq> - 1" "sn_batch_size t = sn_batch_size s"
    if "same_config s t" "sn_disk_buffer t = sn_disk_buffer s0" for t
    using that(1) assms(1) unfolding that(2) d(6) by (simp_all add: same_config_def can_send_def)
  have fit: "list_all (\<lambda>c. fits t (event_data t c)) (chunks (sn_batch_size t) (q_events q))"
    "list_all (\<lambda>c. fits t (log_data t c)) (chunks (sn_batch_size t) (q_logs q))"
    "list_all (\<lambda>c. fits t (metric_data t c)) (chunks (sn_batch_size t) (q_metrics q))"
    if "same_config s t" for t
  proof -
    have "sn_batch_size t = sn_batch_size s" using that by (simp add: same_config_def)
    with assms(3) data_config [OF that] fits_config [OF that] show
      "list_all (\<lambda>c. fits t (event_data t c)) (chunks (sn_batch_size t) (q_events q))"
      "list_all (\<lambda>c. fits t (log_data t c)) (chunks (sn_batch_size t) (q_logs q))"
      "list_all (\<lambda>c. fits t (metric_data t c)) (chunks (sn_batch_size t) (q_metrics q))"
      by (simp_all add: sendable_def)
  qed
  obtain s1 es where e: "flush_queue encode_events s0 (q_events q) = Some (Ready (), s1, [])" "online s1"
    "same_config s0 s1" "sn_disk_buffer s1 = sn_disk_buffer s0" "sent s1 = sent s0 @ es"
    "map (collect SchemaEvent decode_event_data) es =
      map (\<lambda>c. Some (map (event_params s0) c)) (chunks (sn_batch_size s0) (q_events q))"
    using events.flush_online [OF d(2) go(1,2) [OF d(3) refl] fit(1) [OF d(3)]] by blast
  have c1: "same_config s s1" by (rule same_config_trans [OF d(3) e(3)])
  obtain s2 ls where l: "flush_queue encode_logs s1 (q_logs q) = Some (Ready (), s2, [])" "online s2"
    "same_config s1 s2" "sn_disk_buffer s2 = sn_disk_buffer s1" "sent s2 = sent s1 @ ls"
    "map (collect SchemaLog decode_log_data) ls =
      map (\<lambda>c. Some (map (log_params s1) c)) (chunks (sn_batch_size s1) (q_logs q))"
    using logs.flush_online [OF e(2) go(1,2) [OF c1 e(4)] fit(2) [OF c1]] by blast
  have c2: "same_config s s2" by (rule same_config_trans [OF c1 l(3)])
  have b2: "sn_disk_buffer s2 = sn_disk_buffer s0" using e(4) l(4) by simp
  obtain s3 ms where m: "flush_queue encode_metrics s2 (q_metrics q) = Some (Ready (), s3, [])"
    "sn_disk_buffer s3 = sn_disk_buffer s2" "sent s3 = sent s2 @ ms"
    "map (collect SchemaMetric decode_metric_data) ms =
      map (\<lambda>c. Some (map (metric_params s2) c)) (chunks (sn_batch_size s2) (q_metrics q))"
    using metrics.flush_online [OF l(2) go(1,2) [OF c2 b2] fit(3) [OF c2]] by blast
  have "flush_all s q = Some (Ready (), s3, no_queues)"
    by (simp add: flush_all_def then_await_def flush_events_def flush_logs_def flush_metrics_def d(1) e(1) l(1) m(1)
        no_queues_def)
  moreover have "event_params s0 = event_params s" "log_params s1 = log_params s" "metric_params s2 = metric_params s"
    "sn_batch_size s0 = sn_batch_size s" "sn_batch_size s1 = sn_batch_size s" "sn_batch_size s2 = sn_batch_size s"
    using data_config(1) [OF d(3)] data_config(2) [OF c1] data_config(3) [OF c2] d(3) c1 c2
    by (auto simp: same_config_def)
  then have "carries s q (es @ ls @ ms)"
    unfolding carries_def using e(6) l(6) m(4) concat_chunks [OF n, of "q_events q"] concat_chunks [OF n, of "q_logs q"]
      concat_chunks [OF n, of "q_metrics q"] chunks_not_empty by metis
  moreover have "buffered s3 []" using d(5) b2 m(2) by (simp add: buffered_def)
  ultimately show ?thesis
    using d(4) e(5) l(5) m(3) by (intro exI [of _ s3] exI [of _ "es @ ls @ ms"]) simp
qed

text \<open>What a list of messages adds to the queues.\<close>

definition absorbed :: "WorkerMessage list \<Rightarrow> Queues \<Rightarrow> Queues" where
  "absorbed msgs q =
    \<lparr>q_events = q_events q @ concat (map (\<lambda>m. case m of EventMsg e \<Rightarrow> [e] | _ \<Rightarrow> []) msgs),
     q_logs = q_logs q @ concat (map (\<lambda>m. case m of LogMsg l \<Rightarrow> [l] | _ \<Rightarrow> []) msgs),
     q_metrics = q_metrics q @ concat (map (\<lambda>m. case m of MetricMsg x \<Rightarrow> [x] | _ \<Rightarrow> []) msgs)\<rparr>"

lemma absorb_all:
  "fold (\<lambda>m qa. absorb qa m) msgs (q, a) =
    (absorbed msgs q,
     \<lparr>ak_flush = ak_flush a @ concat (map (\<lambda>m. case m of FlushMsg k \<Rightarrow> [k] | _ \<Rightarrow> []) msgs),
      ak_close = ak_close a @ concat (map (\<lambda>m. case m of CloseMsg k \<Rightarrow> [k] | _ \<Rightarrow> []) msgs)\<rparr>)"
proof (induction msgs arbitrary: q a)
  case (Cons m msgs)
  then show ?case by (cases m) (simp_all add: absorbed_def)
qed (simp add: absorbed_def)

lemma request_written:
  assumes "wk_channel st = msg # ch" "can_send (wk_sender st)" "buffered (wk_sender st) c"
    and "msgs = take (Suc (wk_drain_limit st)) (msg # ch)" "sendable (wk_sender st) (absorbed msgs (wk_queues st))"
    and "FlushMsg k \<in> set msgs \<or> CloseMsg k \<in> set msgs"
  shows "\<exists>st' frames. on_message None msg ch st = Some st' \<and> k \<in> set (wk_answering st') \<and> wk_acked st' = wk_acked st \<and>
    wk_queues st' = no_queues \<and>
    sent (wk_sender st') = sent (wk_sender st) @ c @ frames \<and>
    carries (wk_sender st) (absorbed msgs (wk_queues st)) frames \<and>
    (wk_running st' \<longleftrightarrow> wk_running st \<and> (\<forall>j. CloseMsg j \<notin> set msgs))"
proof -
  let ?s = "wk_sender st" and ?q = "absorbed msgs (wk_queues st)" and ?ch = "drop (wk_drain_limit st) ch"
  define fl cl where "fl = concat (map (\<lambda>m. case m of FlushMsg k \<Rightarrow> [k] | _ \<Rightarrow> []) msgs)"
    and "cl = concat (map (\<lambda>m. case m of CloseMsg k \<Rightarrow> [k] | _ \<Rightarrow> []) msgs)"
  have d: "drain_channel (wk_drain_limit st) (absorb (wk_queues st, no_acks) msg) ch =
      ((?q, \<lparr>ak_flush = fl, ak_close = cl\<rparr>), ?ch)"
    using absorb_all [of msgs "wk_queues st" no_acks] assms(4)
    by (simp add: drain_channel_eq no_acks_def fl_def cl_def)
  have k: "k \<in> set fl \<or> k \<in> set cl" unfolding fl_def cl_def using assms(6) by force
  have close: "cl = [] \<longleftrightarrow> (\<forall>j. CloseMsg j \<notin> set msgs)"
    by (auto simp: cl_def concat_eq_Nil_conv split: WorkerMessage.splits)
  obtain s' frames where f: "flush_all ?s ?q = Some (Ready (), s', no_queues)" "sent s' = sent ?s @ c @ frames"
    "carries ?s ?q frames"
    using flush_all_online [OF assms(2,3,5)] by blast
  show ?thesis
  proof (cases "cl = []")
    case True
    with k have "fl \<noteq> []" by auto
    then have "on_message None msg ch st = Some (st\<lparr>wk_channel := ?ch, wk_sender := s', wk_queues := no_queues,
        wk_answering := fl\<rparr>)"
      using True d f(1) by (simp add: on_message_def finish_recv_def acks_order_def)
    with True f(2,3) k close show ?thesis by auto
  next
    case False
    have "?s\<lparr>sn_deadline := None\<rparr> = ?s" using assms(2) by (simp add: can_send_def online_def)
    then have "shutdown None ?s ?q \<lparr>ak_flush = fl, ak_close = cl\<rparr> =
        Some (s'\<lparr>sn_deadline := None, sn_transport := transport_close (sn_transport s')\<rparr>, no_queues, fl @ cl)"
      using f(1) by (simp add: shutdown_def acks_order_def)
    then have "on_message None msg ch st = Some (st\<lparr>wk_channel := ?ch,
        wk_sender := s'\<lparr>sn_deadline := None, sn_transport := transport_close (sn_transport s')\<rparr>,
        wk_queues := no_queues, wk_answering := fl @ cl, wk_running := False\<rparr>)"
      using False d by (simp add: on_message_def finish_recv_def)
    moreover have "sent (s'\<lparr>sn_deadline := None, sn_transport := transport_close (sn_transport s')\<rparr>) = sent s'"
      by (simp add: sent_def written_close)
    ultimately show ?thesis using False f(2,3) k close by auto
  qed
qed



end
