(* ===== verification/Worker_Account.thy ===== *)
theory Worker_Account
  imports Worker_Loop
begin

section \<open>What becomes of every batch\<close>

text \<open>
  The accounts of the worker. Without a disk buffer: the frame of a batch is written whole a
  number of times, at least once unless the error callback was called for it. With one: it is
  written whole or in the log. What was written is with the kernel and may still be lost. Both hold for any network, and are kept by
  flushing; the theory of the whole system lifts them to every reachable state.
\<close>

subsection \<open>Fates\<close>

text \<open>A batch, how many copies of it were written whole, and whether the worker saw it through.\<close>

datatype 'a fate = Fate (fate_chunk: "'a list") (fate_copies: nat) (fate_ok: bool)

definition fate_wf :: "nat \<Rightarrow> nat \<Rightarrow> 'a fate \<Rightarrow> bool" where
  "fate_wf n tries f \<longleftrightarrow> fate_chunk f \<noteq> [] \<and> length (fate_chunk f) \<le> n \<and> fate_copies f \<le> tries \<and>
     (fate_ok f \<longrightarrow> 1 \<le> fate_copies f)"

definition failures :: "'a fate list \<Rightarrow> nat" where
  "failures fs = length (filter (Not \<circ> fate_ok) fs)"

definition entries :: "'a fate list \<Rightarrow> 'a list" where
  "entries fs = concat (map fate_chunk fs)"

text \<open>What the written frames decode to, batch by batch: each copy in turn.\<close>

definition copies :: "('a list \<Rightarrow> 'p) \<Rightarrow> 'a fate list \<Rightarrow> 'p list" where
  "copies p fs = concat (map (\<lambda>f. replicate (fate_copies f) (p (fate_chunk f))) fs)"

lemma fates_simps [simp]:
  "failures [] = 0" "entries [] = []" "copies p [] = []"
  "failures (fs @ gs) = failures fs + failures gs" "entries (fs @ gs) = entries fs @ entries gs"
  "copies p (fs @ gs) = copies p fs @ copies p gs"
  "failures (f # fs) = (if fate_ok f then 0 else 1) + failures fs" "entries (f # fs) = fate_chunk f @ entries fs"
  "copies p (f # fs) = replicate (fate_copies f) (p (fate_chunk f)) @ copies p fs"
  by (simp_all add: failures_def entries_def copies_def)

lemma copies_sizes:
  "list_all (fate_wf n tries) fs \<Longrightarrow> p \<in> set (copies (map param) fs) \<Longrightarrow> 0 < length p \<and> length p \<le> n"
  by (auto simp: copies_def fate_wf_def list_all_iff)

text \<open>The batches of one schema among the frames, decoded.\<close>

definition batches :: "SchemaType \<Rightarrow> (bytes \<Rightarrow> nat \<Rightarrow> 'p list option) \<Rightarrow> bytes list \<Rightarrow> 'p list list" where
  "batches ty dec frames = concat (map (\<lambda>f. case collect ty dec f of None \<Rightarrow> [] | Some p \<Rightarrow> [p]) frames)"

lemma batches_simps [simp]:
  "batches ty dec [] = []" "batches ty dec (fs @ gs) = batches ty dec fs @ batches ty dec gs"
  by (simp_all add: batches_def)

text \<open>A frame that decodes to a batch of one of the three schemas.\<close>

definition readable :: "bytes \<Rightarrow> bool" where
  "readable f \<longleftrightarrow> collect SchemaEvent decode_event_data f \<noteq> None \<or> collect SchemaLog decode_log_data f \<noteq> None \<or>
     collect SchemaMetric decode_metric_data f \<noteq> None"

lemma batches_hold: "f \<in> set fs \<Longrightarrow> collect ty dec f = Some p \<Longrightarrow> p \<in> set (batches ty dec fs)"
  by (force simp: batches_def)

definition of_schema :: "SchemaType \<Rightarrow> bytes \<Rightarrow> bool" where
  "of_schema ty f \<longleftrightarrow> (\<exists>b. decode_batch f 0 = Some b \<and> bp_schema_type b = ty)"

lemma batches_other: "list_all (of_schema ty) frames \<Longrightarrow> ty \<noteq> ty' \<Longrightarrow> batches ty' dec frames = []"
  by (induction frames) (auto simp: batches_def collect_def of_schema_def)

lemma collect_schema: "collect ty dec f = Some p \<Longrightarrow> of_schema ty f"
  by (auto simp: collect_def of_schema_def bind_eq_Some_conv split: if_splits)

lemma batches_copies:
  "collect ty dec f = Some p \<Longrightarrow> batches ty dec (replicate k f) = replicate k p"
  by (induction k) (simp_all add: batches_def)

subsection \<open>One batch without a disk buffer\<close>

definition plain :: "Sender \<Rightarrow> bool" where
  "plain s \<longleftrightarrow> sn_disk_buffer s = None \<and> sn_max_retries s \<noteq> - 1 \<and> sn_on_error s \<and> sn_deadline s = None \<and>
     stream_ok (sn_transport s) \<and> 0 < sn_batch_size s"

lemma await_send_live:
  assumes "sn_deadline s = None" "stream_ok (sn_transport s)" "length d < 2 ^ 32"
  obtains r t where "await_send d s = (Ready r, s\<lparr>sn_transport := t\<rparr>)" "stream_ok t"
    "written t = sent s @ [d] \<or> written t = sent s \<and> r \<noteq> Inr ()"
proof -
  obtain r t where t: "send_frame d (sn_transport s) = (r, t)" by (rule prod.exhaust)
  from send_frame_step [OF assms(2,3) t] t assms(1) show thesis
    by (intro that [of r t]) (auto simp: await_send_def cut_off_def sent_def)
qed

lemma await_sleep_live: "sn_deadline s = None \<Longrightarrow> await_sleep d s = (Ready (), s\<lparr>sn_slept := sn_slept s @ [d]\<rparr>)"
  by (simp add: await_sleep_def cut_off_def)

lemma attempt_loop_fate:
  assumes "sn_deadline s = None" "stream_ok (sn_transport s)" "length (sn_batch_buf s) < 2 ^ 32"
  shows "\<exists>x t sl k. attempt_loop n a e s = (Ready x, s\<lparr>sn_transport := t, sn_slept := sl\<rparr>) \<and> stream_ok t \<and>
    k \<le> n \<and> written t = sent s @ replicate k (sn_batch_buf s) \<and> (x = None \<longrightarrow> 1 \<le> k) \<and>
    (0 < n \<longrightarrow> x = None \<or> (\<exists>e. x = Some (Some e)))"
  using assms
proof (induction n arbitrary: a e s)
  case 0
  then show ?case
    by (intro exI [of _ "Some e"] exI [of _ "sn_transport s"] exI [of _ "sn_slept s"] exI [of _ 0]) (simp add: sent_def)
next
  case (Suc n)
  let ?b = "sn_batch_buf s"
  obtain r t where t: "await_send ?b s = (Ready r, s\<lparr>sn_transport := t\<rparr>)" "stream_ok t"
    "written t = sent s @ [?b] \<or> written t = sent s \<and> r \<noteq> Inr ()"
    by (rule await_send_live [OF Suc.prems])
  show ?case
  proof (cases r)
    case (Inr u)
    with t show ?thesis
      by (intro exI [of _ None] exI [of _ t] exI [of _ "sn_slept s"] exI [of _ 1]) simp
  next
    case (Inl err)
    obtain j where j: "j \<le> 1" "written t = sent s @ replicate j ?b"
      using t(3) by (metis append_Nil2 le_refl replicate_0 replicate_Suc One_nat_def zero_le)
    let ?sl = "if 0 < n then sn_slept s @ [backoff a] else sn_slept s"
    let ?s1 = "s\<lparr>sn_transport := t, sn_slept := ?sl\<rparr>"
    have step: "attempt_loop (Suc n) a e s = attempt_loop n (a + 1) (Some err) ?s1"
      using t(1) Inl Suc.prems(1) by (cases n) (simp_all add: await_sleep_live)
    obtain x u sl k where IH: "attempt_loop n (a + 1) (Some err) ?s1 = (Ready x, ?s1\<lparr>sn_transport := u, sn_slept := sl\<rparr>)"
      "stream_ok u" "k \<le> n" "written u = sent ?s1 @ replicate k ?b" "x = None \<longrightarrow> 1 \<le> k"
      "0 < n \<longrightarrow> x = None \<or> (\<exists>e. x = Some (Some e))"
      using Suc.IH [of ?s1 "a + 1" "Some err"] Suc.prems t(2) by auto
    have "x = None \<or> (\<exists>e. x = Some (Some e))"
      using IH(1,6) by (cases n) auto
    moreover have "written u = sent s @ replicate (j + k) ?b"
      using IH(4) j(2) by (simp add: sent_def replicate_add)
    ultimately show ?thesis
      unfolding step using IH j(1)
      by (intro exI [of _ x] exI [of _ u] exI [of _ sl] exI [of _ "j + k"]) auto
  qed
qed

lemma send_fate:
  assumes "plain s" "length (sn_batch_buf s) < 2 ^ 32"
  shows "\<exists>s' k ok. send_with_fallback s = (Ready (), s') \<and> plain s' \<and> same_config s s' \<and>
    sent s' = sent s @ replicate k (sn_batch_buf s) \<and> k \<le> unat (sn_max_retries s) + 1 \<and> (ok \<longrightarrow> 1 \<le> k) \<and>
    length (sn_reports s') = length (sn_reports s) + (if ok then 0 else 1) \<and> sn_batch_counter s' = sn_batch_counter s"
proof -
  let ?n = "unat (attempts s)"
  have n: "0 < ?n" "?n = unat (sn_max_retries s) + 1"
    using assms(1) attempts_pos [of s] unatSuc [of "sn_max_retries s"]
    by (auto simp: plain_def attempts_def) (metis add.commute add_eq_0_iff2)
  obtain x t sl k where a: "attempt_loop ?n 0 None s = (Ready x, s\<lparr>sn_transport := t, sn_slept := sl\<rparr>)" "stream_ok t"
    "k \<le> ?n" "written t = sent s @ replicate k (sn_batch_buf s)" "x = None \<longrightarrow> 1 \<le> k" "x = None \<or> (\<exists>e. x = Some (Some e))"
    using attempt_loop_fate [of s ?n 0 None] assms n by (auto simp: plain_def)
  let ?s1 = "s\<lparr>sn_transport := t, sn_slept := sl\<rparr>"
  have s1: "plain ?s1" "same_config s ?s1" using assms(1) a(2) by (simp_all add: plain_def same_config_def)
  show ?thesis
  proof (cases x)
    case None
    with a n s1 show ?thesis
      by (intro exI [of _ ?s1] exI [of _ k] exI [of _ True]) (simp add: send_with_fallback_def sent_def)
  next
    case (Some y)
    with a(6) obtain err where "x = Some (Some err)" by auto
    with a n s1 assms(1) show ?thesis
      by (intro exI [of _ "report err ?s1"] exI [of _ k] exI [of _ False])
        (simp add: send_with_fallback_def sent_def report_def plain_def same_config_def)
  qed
qed

subsection \<open>Flushing without a disk buffer\<close>

text \<open>A stretch of the worker's life in which it shipped the batches of \<open>fs\<close>, all of one schema.\<close>

definition ships ::
  "SchemaType \<Rightarrow> (bytes \<Rightarrow> nat \<Rightarrow> 'p list option) \<Rightarrow> ('a \<Rightarrow> 'p) \<Rightarrow> Sender \<Rightarrow> Sender \<Rightarrow> 'a fate list \<Rightarrow> bool" where
  "ships ty dec param s s' fs \<longleftrightarrow> plain s' \<and> same_config s s' \<and>
     list_all (fate_wf (sn_batch_size s) (unat (sn_max_retries s) + 1)) fs \<and>
     length (sn_reports s') = length (sn_reports s) + failures fs \<and>
     (\<exists>frames. sent s' = sent s @ frames \<and> list_all (of_schema ty) frames \<and>
       list_all (\<lambda>f. collect ty dec f \<noteq> None) frames \<and> batches ty dec frames = copies (map param) fs)"

lemma ships_Nil: "plain s \<Longrightarrow> ships ty dec param s s []"
  by (simp add: ships_def same_config_def exI [of _ "[]"])

lemma ships_append:
  assumes "ships ty dec param s s1 fs" "ships ty dec param s1 s2 gs"
  shows "ships ty dec param s s2 (fs @ gs)"
proof -
  from assms(1) obtain f where f: "sent s1 = sent s @ f" "list_all (of_schema ty) f" "list_all (\<lambda>f. collect ty dec f \<noteq> None) f"
    "batches ty dec f = copies (map param) fs" by (auto simp: ships_def)
  from assms(2) obtain g where g: "sent s2 = sent s1 @ g" "list_all (of_schema ty) g" "list_all (\<lambda>f. collect ty dec f \<noteq> None) g"
    "batches ty dec g = copies (map param) gs" by (auto simp: ships_def)
  have "\<exists>frames. sent s2 = sent s @ frames \<and> list_all (of_schema ty) frames \<and> list_all (\<lambda>f. collect ty dec f \<noteq> None) frames \<and>
      batches ty dec frames = copies (map param) (fs @ gs)"
    using f g by (intro exI [of _ "f @ g"]) simp
  with assms show ?thesis by (auto simp: ships_def same_config_def)
qed

context chunk_encoder
begin

lemma chunk_fate:
  assumes "plain s" "fits s (data s c)" "c \<noteq> []" "length c \<le> sn_batch_size s"
  shows "\<exists>s' f. send_with_fallback (encoded s ty (data s c)) = (Ready (), s') \<and> ships ty dec (params s) s s' [f] \<and>
    fate_chunk f = c"
proof -
  let ?s1 = "encoded s ty (data s c)"
  have s1: "plain ?s1" "same_config s ?s1" "sent ?s1 = sent s" "sn_reports ?s1 = sn_reports s"
    "sn_max_retries ?s1 = sn_max_retries s"
    using assms(1) by (simp_all add: encoded_def plain_def same_config_def sent_def)
  obtain s' k ok where f: "send_with_fallback ?s1 = (Ready (), s')" "plain s'" "same_config ?s1 s'"
    "sent s' = sent s @ replicate k (sn_batch_buf ?s1)" "k \<le> unat (sn_max_retries s) + 1" "ok \<longrightarrow> 1 \<le> k"
    "length (sn_reports s') = length (sn_reports s) + (if ok then 0 else 1)"
    using send_fate [OF s1(1) collect_encoded(2) [OF assms(2)]] unfolding s1 by blast
  note c = collect_encoded(1) [OF assms(2)]
  have "list_all (of_schema ty) (replicate k (sn_batch_buf ?s1))"
    "list_all (\<lambda>f. collect ty dec f \<noteq> None) (replicate k (sn_batch_buf ?s1))"
    using collect_schema [OF c] c by (simp_all add: list_all_iff)
  then have "ships ty dec (params s) s s' [Fate c k ok]"
    unfolding ships_def fate_wf_def using f s1(2) assms(3,4) batches_copies [OF c, of k]
    by (auto simp: same_config_def)
  with f(1) show ?thesis by (intro exI [of _ s'] exI [of _ "Fate c k ok"]) simp
qed

lemma flush_fates:
  assumes "plain s" "list_all (\<lambda>c. fits s (data s c)) (chunks (sn_batch_size s) q)"
  shows "\<exists>s' fs. flush_queue enc s q = Some (Ready (), s', []) \<and> ships ty dec (params s) s s' fs \<and> entries fs = q"
  using assms
proof (induction "length q" arbitrary: q s rule: less_induct)
  case less
  show ?case
  proof (cases "q = []")
    case True
    then show ?thesis using less.prems(1)
      by (intro exI [of _ s] exI [of _ "[]"], subst flush_queue.simps) (simp add: ships_Nil)
  next
    case False
    let ?n = "sn_batch_size s" and ?c = "take (sn_batch_size s) q"
    have n: "0 < ?n" using less.prems(1) by (simp add: plain_def)
    have ch: "chunks ?n q = ?c # chunks ?n (drop ?n q)" using False n by (rule chunks_step)
    obtain s1 f where f: "send_with_fallback (encoded s ty (data s ?c)) = (Ready (), s1)"
      "ships ty dec (params s) s s1 [f]" "fate_chunk f = ?c"
      using chunk_fate [OF less.prems(1), of ?c] less.prems(2) False n by (auto simp: ch)
    have cfg: "same_config s s1" "plain s1" using f(2) by (simp_all add: ships_def)
    have small: "list_all (\<lambda>c. fits s1 (data s1 c)) (chunks (sn_batch_size s1) (drop ?n q))"
      using less.prems(2) cfg(1) config [OF cfg(1)] by (simp add: ch same_config_def fits_def)
    have "length (drop ?n q) < length q" using False n by simp
    from less.hyps [OF this cfg(2) small] obtain s2 gs where
      g: "flush_queue enc s1 (drop ?n q) = Some (Ready (), s2, [])" "ships ty dec (params s1) s1 s2 gs"
      "entries gs = drop ?n q" by blast
    have "flush_queue enc s q = Some (Ready (), s2, [])"
      using False by (subst flush_queue.simps) (simp add: Let_def take_min enc f(1) g(1))
    moreover have "ships ty dec (params s) s s2 ([f] @ gs)"
      using ships_append [OF f(2)] g(2) config [OF cfg(1)] by simp
    ultimately show ?thesis using f(3) g(3) by (intro exI [of _ s2] exI [of _ "[f] @ gs"]) simp
  qed
qed

end

subsection \<open>The ledger\<close>

text \<open>
  What was ever put into the queues is what is still there behind what was shipped; the frames
  written whole are the copies of the shipped batches, schema by schema and in order;
  and the error callback was called once for each batch the worker gave up.
\<close>

record Ledger =
  lg_events :: "QueuedEvent fate list"
  lg_logs :: "QueuedLog fate list"
  lg_metrics :: "QueuedMetric fate list"

definition ledger_fates :: "Sender \<Rightarrow> Ledger \<Rightarrow> bool" where
  "ledger_fates s l \<longleftrightarrow>
     list_all (fate_wf (sn_batch_size s) (unat (sn_max_retries s) + 1)) (lg_events l) \<and>
     list_all (fate_wf (sn_batch_size s) (unat (sn_max_retries s) + 1)) (lg_logs l) \<and>
     list_all (fate_wf (sn_batch_size s) (unat (sn_max_retries s) + 1)) (lg_metrics l) \<and>
     length (sn_reports s) = failures (lg_events l) + failures (lg_logs l) + failures (lg_metrics l)"

definition ledger_sent :: "Sender \<Rightarrow> Ledger \<Rightarrow> bool" where
  "ledger_sent s l \<longleftrightarrow> list_all readable (sent s) \<and>
     batches SchemaEvent decode_event_data (sent s) = copies (map (event_params s)) (lg_events l) \<and>
     batches SchemaLog decode_log_data (sent s) = copies (map (log_params s)) (lg_logs l) \<and>
     batches SchemaMetric decode_metric_data (sent s) = copies (map (metric_params s)) (lg_metrics l)"

definition ledger_covers :: "Queues \<Rightarrow> Queues \<Rightarrow> Ledger \<Rightarrow> bool" where
  "ledger_covers fed q l \<longleftrightarrow> entries (lg_events l) @ q_events q = q_events fed \<and>
     entries (lg_logs l) @ q_logs q = q_logs fed \<and> entries (lg_metrics l) @ q_metrics q = q_metrics fed"

definition ledger :: "Sender \<Rightarrow> Queues \<Rightarrow> Queues \<Rightarrow> Ledger \<Rightarrow> bool" where
  "ledger s fed q l \<longleftrightarrow> plain s \<and> ledger_fates s l \<and> ledger_sent s l \<and> ledger_covers fed q l"

lemmas ledger_defs = ledger_def ledger_fates_def ledger_sent_def ledger_covers_def

lemma readable_frames:
  "list_all (\<lambda>f. collect SchemaEvent decode_event_data f \<noteq> None) fs \<Longrightarrow> list_all readable fs"
  "list_all (\<lambda>f. collect SchemaLog decode_log_data f \<noteq> None) fs \<Longrightarrow> list_all readable fs"
  "list_all (\<lambda>f. collect SchemaMetric decode_metric_data f \<noteq> None) fs \<Longrightarrow> list_all readable fs"
  by (auto simp: list_all_iff readable_def)

lemma ledger_ships:
  assumes "ledger s fed q l"
  shows "ships SchemaEvent decode_event_data (event_params s) s s' fs \<Longrightarrow> entries fs = q_events q \<Longrightarrow>
      ledger s' fed (q\<lparr>q_events := []\<rparr>) (l\<lparr>lg_events := lg_events l @ fs\<rparr>)"
    "ships SchemaLog decode_log_data (log_params s) s s' gs \<Longrightarrow> entries gs = q_logs q \<Longrightarrow>
      ledger s' fed (q\<lparr>q_logs := []\<rparr>) (l\<lparr>lg_logs := lg_logs l @ gs\<rparr>)"
    "ships SchemaMetric decode_metric_data (metric_params s) s s' hs \<Longrightarrow> entries hs = q_metrics q \<Longrightarrow>
      ledger s' fed (q\<lparr>q_metrics := []\<rparr>) (l\<lparr>lg_metrics := lg_metrics l @ hs\<rparr>)"
  using assms data_config [of s s']
  by (auto simp: ledger_defs ships_def batches_other same_config_def readable_frames)

text \<open>No batch of entries that were ever queued makes a frame of \<open>m\<close> bytes or more.\<close>

definition batches_within :: "nat \<Rightarrow> Sender \<Rightarrow> Queues \<Rightarrow> bool" where
  "batches_within m s fed \<longleftrightarrow>
     (\<forall>c. set c \<subseteq> set (q_events fed) \<and> length c \<le> sn_batch_size s \<longrightarrow>
        62 + length (sn_api_key s) + length (event_data s c) < m) \<and>
     (\<forall>c. set c \<subseteq> set (q_logs fed) \<and> length c \<le> sn_batch_size s \<longrightarrow>
        62 + length (sn_api_key s) + length (log_data s c) < m) \<and>
     (\<forall>c. set c \<subseteq> set (q_metrics fed) \<and> length c \<le> sn_batch_size s \<longrightarrow>
        62 + length (sn_api_key s) + length (metric_data s c) < m)"

lemma batches_within_config: "same_config s s' \<Longrightarrow> batches_within m s fed \<longleftrightarrow> batches_within m s' fed"
  using data_config [of s s'] by (simp add: batches_within_def same_config_def)

lemma chunks_sub: "0 < n \<Longrightarrow> c \<in> set (chunks n q) \<Longrightarrow> set c \<subseteq> set q \<and> length c \<le> n"
  by (metis Sup_upper chunks_length concat_chunks imageI list_all_iff set_concat)

text \<open>What remains queued has been put there.\<close>

definition part_of :: "Queues \<Rightarrow> Queues \<Rightarrow> bool" where
  "part_of q fed \<longleftrightarrow> set (q_events q) \<subseteq> set (q_events fed) \<and> set (q_logs q) \<subseteq> set (q_logs fed) \<and>
     set (q_metrics q) \<subseteq> set (q_metrics fed)"

lemma batches_within_part: "part_of fed fed' \<Longrightarrow> batches_within m s fed' \<Longrightarrow> batches_within m s fed"
  unfolding batches_within_def part_of_def by (meson subset_trans)

lemma within_chunks:
  assumes "batches_within m s fed" "0 < sn_batch_size s" "part_of q fed"
  shows "list_all (\<lambda>c. 62 + length (sn_api_key s) + length (event_data s c) < m) (chunks (sn_batch_size s) (q_events q))"
    "list_all (\<lambda>c. 62 + length (sn_api_key s) + length (log_data s c) < m) (chunks (sn_batch_size s) (q_logs q))"
    "list_all (\<lambda>c. 62 + length (sn_api_key s) + length (metric_data s c) < m) (chunks (sn_batch_size s) (q_metrics q))"
  using assms(1,3) chunks_sub [OF assms(2)]
  unfolding list_all_iff batches_within_def part_of_def by (meson subset_trans)+

lemma within_sendable:
  assumes "batches_within (2 ^ 32) s fed" "0 < sn_batch_size s" "part_of q fed"
  shows "sendable s q"
  using within_chunks [OF assms] by (simp add: sendable_def fits_def)

lemma ledger_sendable:
  assumes "ledger s fed q l" "batches_within (2 ^ 32) s fed"
  shows "sendable s q"
proof -
  have "part_of q fed"
    using assms(1) by (metis ledger_def ledger_covers_def part_of_def set_append sup_ge2)
  then show ?thesis using assms by (intro within_sendable) (auto simp: ledger_def plain_def)
qed

subsection \<open>Accounts that flushing keeps\<close>

text \<open>
  An account \<open>P fed s q\<close> relates all entries that were ever queued to the sender and to what is
  still queued. If draining, flushing one queue, closing the connection and queueing more keep
  it, then so does every branch of the worker's loop.
\<close>

definition feed :: "Queues \<Rightarrow> Queues \<Rightarrow> Queues" where
  "feed x q = \<lparr>q_events = q_events q @ q_events x, q_logs = q_logs q @ q_logs x, q_metrics = q_metrics q @ q_metrics x\<rparr>"

lemma feed_simps [simp]:
  "q_events (feed x q) = q_events q @ q_events x" "q_logs (feed x q) = q_logs q @ q_logs x"
  "q_metrics (feed x q) = q_metrics q @ q_metrics x" "feed no_queues q = q"
  by (simp_all add: feed_def no_queues_def)

definition settles :: "(Sender \<Rightarrow> Queues \<Rightarrow> bool) \<Rightarrow> Sender \<Rightarrow> (unit awaited \<times> Sender \<times> Queues) option \<Rightarrow> bool" where
  "settles P s m \<longleftrightarrow> (\<exists>s' q'. m = Some (Ready (), s', q') \<and> P s' q' \<and> same_config s s')"

lemma settles_now: "P s q \<Longrightarrow> settles P s (Some (Ready (), s, q))"
  by (simp add: settles_def)

lemma settles_then:
  assumes "settles P s m" "\<And>s' q'. P s' q' \<Longrightarrow> same_config s s' \<Longrightarrow> settles P s' (f s' q')"
  shows "settles P s (then_await m f)"
proof -
  obtain s1 q1 where m: "m = Some (Ready (), s1, q1)" "P s1 q1" "same_config s s1"
    using assms(1) by (auto simp: settles_def)
  from assms(2) [OF m(2,3)] m(1,3) show ?thesis
    by (auto simp: settles_def then_await_def intro: same_config_trans)
qed

locale accounting =
  fixes P :: "Queues \<Rightarrow> Sender \<Rightarrow> Queues \<Rightarrow> bool"
    and fit :: "Sender \<Rightarrow> Queues \<Rightarrow> bool"
  assumes drain: "P fed s q \<Longrightarrow> settles (P fed) s (do { (r, s) \<leftarrow> drain_disk_buffer s; Some (r, s, q) })"
    and events: "P fed s q \<Longrightarrow> fit s fed \<Longrightarrow> settles (P fed) s (flush_events s q)"
    and logs: "P fed s q \<Longrightarrow> fit s fed \<Longrightarrow> settles (P fed) s (flush_logs s q)"
    and metrics: "P fed s q \<Longrightarrow> fit s fed \<Longrightarrow> settles (P fed) s (flush_metrics s q)"
    and close: "P fed s q \<Longrightarrow> P fed (s\<lparr>sn_transport := transport_close (sn_transport s)\<rparr>) q"
    and more: "P fed s q \<Longrightarrow> P (feed x fed) s (feed x q)"
    and no_deadline: "P fed s q \<Longrightarrow> sn_deadline s = None"
    and fit_config: "same_config s s' \<Longrightarrow> fit s fed = fit s' fed"
    and fit_part: "part_of fed fed' \<Longrightarrow> fit s fed' \<Longrightarrow> fit s fed"
begin

lemma flush_all_settles:
  assumes "P fed s q" "fit s fed"
  shows "settles (P fed) s (flush_all s q)"
  unfolding flush_all_def
proof (rule settles_then [OF drain [OF assms(1)]])
  fix s1 q1 assume 1: "P fed s1 q1" "same_config s s1"
  then have fit1: "fit s1 fed" using assms(2) fit_config by blast
  show "settles (P fed) s1 (then_await (flush_events s1 q1) (\<lambda>s q. then_await (flush_logs s q) flush_metrics))"
  proof (rule settles_then [OF events [OF 1(1) fit1]])
    fix s2 q2 assume 2: "P fed s2 q2" "same_config s1 s2"
    then have fit2: "fit s2 fed" using fit1 fit_config by blast
    show "settles (P fed) s2 (then_await (flush_logs s2 q2) flush_metrics)"
      by (rule settles_then [OF logs [OF 2(1) fit2]]) (use fit2 fit_config metrics in blast)
  qed
qed

lemma flush_full_settles:
  assumes "P fed s q" "fit s fed"
  shows "settles (P fed) s (flush_full_queues s q)"
  unfolding flush_full_queues_def Let_def
proof (rule settles_then)
  show "settles (P fed) s (if sn_batch_size s \<le> length (q_events q) then flush_events s q else Some (Ready (), s, q))"
    using assms by (simp add: events settles_now)
  fix s1 q1 assume 1: "P fed s1 q1" "same_config s s1"
  then have fit1: "fit s1 fed" using assms(2) fit_config by blast
  show "settles (P fed) s1 (then_await (if sn_batch_size s \<le> length (q_logs q1) then flush_logs s1 q1 else Some (Ready (), s1, q1))
      (\<lambda>s2 q. if sn_batch_size s \<le> length (q_metrics q) then flush_metrics s2 q else Some (Ready (), s2, q)))"
  proof (rule settles_then)
    show "settles (P fed) s1 (if sn_batch_size s \<le> length (q_logs q1) then flush_logs s1 q1 else Some (Ready (), s1, q1))"
      using 1 fit1 by (simp add: logs settles_now)
    fix s2 q2 assume "P fed s2 q2" "same_config s1 s2"
    moreover from this have "fit s2 fed" using fit1 fit_config by blast
    ultimately show "settles (P fed) s2 (if sn_batch_size s \<le> length (q_metrics q2) then flush_metrics s2 q2 else Some (Ready (), s2, q2))"
      by (simp add: metrics settles_now)
  qed
qed

lemma shutdown_settles:
  assumes "P fed s q" "fit s fed"
  shows "\<exists>s' q'. shutdown None s q acks = Some (s', q', acks_order acks) \<and> P fed s' q' \<and> same_config s s'"
proof -
  have id: "t\<lparr>sn_deadline := None\<rparr> = t" if "P fed t p" for t p
    using no_deadline [OF that] by simp
  obtain s1 q1 where f: "flush_all s q = Some (Ready (), s1, q1)" "P fed s1 q1" "same_config s s1"
    using flush_all_settles [OF assms] by (auto simp: settles_def)
  with id [OF assms(1)] id [OF f(2)] close [OF f(2)] show ?thesis
    by (simp add: shutdown_def Let_def same_config_simps)
qed

text \<open>Every branch of the loop that ends without an expired deadline.\<close>

lemma finish_recv_settles:
  assumes "P fed (wk_sender st) queues" "fit (wk_sender st) fed"
  shows "\<exists>st'. finish_recv None queues acks st = Some st' \<and> P fed (wk_sender st') (wk_queues st') \<and>
    same_config (wk_sender st) (wk_sender st')"
  using flush_all_settles [OF assms] flush_full_settles [OF assms] shutdown_settles [OF assms, of acks]
  by (auto simp: finish_recv_def settles_def)

lemma ticks_settle:
  assumes "P fed (wk_sender st) (wk_queues st)" "fit (wk_sender st) fed"
  shows "\<exists>st'. on_flush_tick st = Some st' \<and> P fed (wk_sender st') (wk_queues st') \<and>
      same_config (wk_sender st) (wk_sender st')"
    "\<exists>st'. on_disconnect None st = Some st' \<and> P fed (wk_sender st') (wk_queues st') \<and>
      same_config (wk_sender st) (wk_sender st')"
    "\<exists>st'. flush_sample st = Some st' \<and> P fed (wk_sender st') (wk_queues st') \<and>
      same_config (wk_sender st) (wk_sender st')"
  using flush_all_settles [OF assms] shutdown_settles [OF assms, of no_acks] flush_full_settles [OF assms]
  by (auto simp: on_flush_tick_def on_disconnect_def flush_sample_def settles_def)


end

subsection \<open>The account without a disk buffer\<close>

definition shipped :: "Queues \<Rightarrow> Sender \<Rightarrow> Queues \<Rightarrow> bool" where
  "shipped fed s q \<longleftrightarrow> (\<exists>l. ledger s fed q l)"

lemma shipped_flush:
  assumes "shipped fed s q" "batches_within (2 ^ 32) s fed"
  shows "settles (shipped fed) s (flush_events s q)" "settles (shipped fed) s (flush_logs s q)"
    "settles (shipped fed) s (flush_metrics s q)"
proof -
  obtain l where l: "ledger s fed q l" using assms(1) by (auto simp: shipped_def)
  have ok: "plain s" "sendable s q" using l assms(2) ledger_sendable by (auto simp: ledger_def)
  note fl = events.flush_fates [OF ok(1)] logs.flush_fates [OF ok(1)] metrics.flush_fates [OF ok(1)]
  show "settles (shipped fed) s (flush_events s q)"
    using fl(1) [of "q_events q"] ok(2) ledger_ships(1) [OF l]
    by (fastforce simp: settles_def shipped_def flush_events_def sendable_def ships_def)
  show "settles (shipped fed) s (flush_logs s q)"
    using fl(2) [of "q_logs q"] ok(2) ledger_ships(2) [OF l]
    by (fastforce simp: settles_def shipped_def flush_logs_def sendable_def ships_def)
  show "settles (shipped fed) s (flush_metrics s q)"
    using fl(3) [of "q_metrics q"] ok(2) ledger_ships(3) [OF l]
    by (fastforce simp: settles_def shipped_def flush_metrics_def sendable_def ships_def)
qed

lemma stream_ok_close: "stream_ok (transport_close t)" if "stream_ok t"
  using that by (simp add: stream_ok_def transport_close_def drop_stream_def split: option.split)

interpretation no_disk: accounting shipped "batches_within (2 ^ 32)"
proof
  fix fed s q x
  assume "shipped fed s q"
  then obtain l where l: "ledger s fed q l" by (auto simp: shipped_def)
  then have p: "plain s" by (simp add: ledger_def)
  show "settles (shipped fed) s (do { (r, s) \<leftarrow> drain_disk_buffer s; Some (r, s, q) })"
    using \<open>shipped fed s q\<close> p by (simp add: settles_def drain_disk_buffer_def plain_def)
  show "sn_deadline s = None" using p by (simp add: plain_def)
  have "ledger (s\<lparr>sn_transport := transport_close (sn_transport s)\<rparr>) fed q l"
    using l data_config [of s "s\<lparr>sn_transport := transport_close (sn_transport s)\<rparr>"] stream_ok_close
    by (simp add: ledger_defs plain_def sent_def written_close)
  then show "shipped fed (s\<lparr>sn_transport := transport_close (sn_transport s)\<rparr>) q" by (auto simp: shipped_def)
  have "ledger s (feed x fed) (feed x q) l" using l by (simp add: ledger_defs flip: append_assoc)
  then show "shipped (feed x fed) s (feed x q)" by (auto simp: shipped_def)
qed (simp_all add: shipped_flush batches_within_config batches_within_part)

subsection \<open>The account with a disk buffer\<close>

text \<open>
  The frame of a batch was written whole or is in the log. The disk works; what may go wrong is the
  network, and the log may run full, which is reported. The frames of the log never exceed its
  limit, except for one frame that is larger than the limit by itself.
\<close>

definition base :: "Sender \<Rightarrow> bool" where
  "base s \<longleftrightarrow> sender_ok s \<and> sn_deadline s = None"

definition buffer_error :: "Sender \<Rightarrow> bool" where
  "buffer_error s \<longleftrightarrow> (\<exists>m. BufferError m \<in> set (sn_reports s))"

lemma base_stays: "stays s s' \<Longrightarrow> base s \<Longrightarrow> base s'"
  by (simp add: base_def stays_def)

lemma buffer_error_stays: "stays s s' \<Longrightarrow> buffer_error s \<Longrightarrow> buffer_error s'"
  by (metis buffer_error_def set_mono_prefix stays_def subsetD)

definition tight :: "DiskBuffer \<Rightarrow> bytes list \<Rightarrow> bool" where
  "tight buf c \<longleftrightarrow> total frame_size c \<le> db_max_bytes buf \<or> length c \<le> 1"

definition vault :: "Sender \<Rightarrow> bytes list \<Rightarrow> bool" where
  "vault s c \<longleftrightarrow> sn_on_error s \<and> sn_deadline s = None \<and> stream_ok (sn_transport s) \<and> 0 < sn_batch_size s \<and>
     (\<exists>buf a b. sn_disk_buffer s = Some buf \<and> db_rep buf a b c \<and> tight buf c)"

lemma tight_tl: "tight buf (f # c) \<Longrightarrow> evict_count frame_size (db_max_bytes buf) (frame_size f) c = 0"
  by (auto simp: tight_def evict_count_fits)

text \<open>Draining on any network: each frame is written whole or stays.\<close>

lemma drain_loop_keeps:
  assumes "sn_deadline s = None" "stream_ok (sn_transport s)" "db_rep buf a b c" "tight buf c"
  shows "\<exists>t rep buf' a' b' c'. drain_loop s buf = Some (Ready (), s\<lparr>sn_transport := t, sn_reports := rep\<rparr>, buf') \<and>
    stream_ok t \<and> db_rep buf' a' b' c' \<and> tight buf' c' \<and>
    mset (sent s @ c) \<subseteq># mset (written t @ c')"
  using assms
proof (induction c arbitrary: s buf b)
  case Nil
  then show ?case
    by (intro exI [of _ "sn_transport s"] exI [of _ "sn_reports s"] exI [of _ buf] exI [of _ a] exI [of _ b]
        exI [of _ "[]"], subst drain_loop.simps) (simp add: drain_next_Nil [OF Nil(3)] sent_def)
next
  case (Cons f c)
  obtain buf1 where d: "drain_next buf = (Inr (Some f), buf1)" "db_rep buf1 a (b @ [f]) c"
    "db_max_bytes buf1 = db_max_bytes buf" "frame_ok f"
    by (rule drain_pop [OF Cons.prems(3)])
  obtain r t where t: "await_send f s = (Ready r, s\<lparr>sn_transport := t\<rparr>)" "stream_ok t"
    "written t = sent s @ [f] \<or> written t = sent s \<and> r \<noteq> Inr ()"
    by (rule await_send_live [OF Cons.prems(1,2) frame_ok_sendable [OF d(4)]])
  have tight1: "tight buf1 c" using Cons.prems(4) d(3) by (auto simp: tight_def)
  show ?case
  proof (cases r)
    case (Inr u)
    obtain t2 rep buf2 a2 b2 c2 where IH: "drain_loop (s\<lparr>sn_transport := t\<rparr>) buf1 =
        Some (Ready (), s\<lparr>sn_transport := t2, sn_reports := rep\<rparr>, buf2)" "stream_ok t2" "db_rep buf2 a2 b2 c2"
      "tight buf2 c2" "mset (written t @ c) \<subseteq># mset (written t2 @ c2)"
      using Cons.IH [of "s\<lparr>sn_transport := t\<rparr>" buf1 "b @ [f]"] Cons.prems(1) t(2) d(2) tight1
      by (auto simp: sent_def)
    have "written t = sent s @ [f]" using t(3) Inr by simp
    then have "mset (sent s @ f # c) \<subseteq># mset (written t2 @ c2)" using IH(5) by simp
    moreover have "drain_loop s buf = drain_loop (s\<lparr>sn_transport := t\<rparr>) buf1"
      by (subst drain_loop.simps) (simp add: d(1) t(1) Inr)
    ultimately show ?thesis using IH by (metis (no_types))
  next
    case (Inl e)
    have n: "evict_count frame_size (db_max_bytes buf1) (frame_size f) c = 0"
      using tight_tl [OF Cons.prems(4)] d(3) by simp
    obtain buf2 a2 b2 where p: "append f buf1 = (Inr 0, buf2)" "db_rep buf2 a2 b2 (c @ [f])"
      "db_max_bytes buf2 = db_max_bytes buf1"
      using wal.push [of buf1 "b @ [f]" c f 0] d(2,4) n by (auto split: if_splits)
    have "tight buf2 (c @ [f])" using Cons.prems(4) d(3) p(3) by (auto simp: tight_def)
    moreover have "mset (sent s @ f # c) \<subseteq># mset (written t @ c @ [f])" using t(3) by auto
    moreover have "drain_loop s buf = Some (Ready (), report e (s\<lparr>sn_transport := t\<rparr>), buf2)"
      by (subst drain_loop.simps) (simp add: d(1) t(1) Inl p(1))
    moreover have "report e (s\<lparr>sn_transport := t\<rparr>) =
        s\<lparr>sn_transport := t, sn_reports := sn_reports (report e (s\<lparr>sn_transport := t\<rparr>))\<rparr>"
      by (simp add: report_def)
    ultimately show ?thesis using t(2) p(2) by (metis (no_types))
  qed
qed

lemma drain_keeps:
  assumes "vault s c"
  shows "\<exists>s' c'. drain_disk_buffer s = Some (Ready (), s') \<and> vault s' c' \<and> same_config s s' \<and>
    mset (sent s @ c) \<subseteq># mset (sent s' @ c')"
proof -
  obtain buf a b where v: "sn_on_error s" "sn_deadline s = None" "stream_ok (sn_transport s)" "0 < sn_batch_size s"
    "sn_disk_buffer s = Some buf" "db_rep buf a b c" "tight buf c" using assms by (auto simp: vault_def)
  show ?thesis
  proof (cases "c = []")
    case True
    then show ?thesis using assms v is_empty_rep [OF v(6)]
      by (intro exI [of _ s] exI [of _ c]) (simp add: drain_disk_buffer_def)
  next
    case False
    obtain t rep buf1 a1 b1 c1 where l: "drain_loop s buf = Some (Ready (), s\<lparr>sn_transport := t, sn_reports := rep\<rparr>, buf1)"
      "stream_ok t" "db_rep buf1 a1 b1 c1" "tight buf1 c1" "mset (sent s @ c) \<subseteq># mset (written t @ c1)"
      using drain_loop_keeps [OF v(2,3,6,7)] by blast
    obtain buf2 a2 where c: "commit buf1 = (Inr (), buf2)" "db_rep buf2 a2 [] c1" "db_max_bytes buf2 = db_max_bytes buf1"
      using commit_rep [OF l(3)] by blast
    let ?s = "s\<lparr>sn_transport := t, sn_reports := rep, sn_disk_buffer := Some buf2\<rparr>"
    have "vault ?s c1" using v l(2,4) c(2,3) by (auto simp: vault_def tight_def)
    moreover have "drain_disk_buffer s = Some (Ready (), ?s)"
      using False is_empty_rep [OF v(6)] v(5) l(1) c(1) by (simp add: drain_disk_buffer_def)
    ultimately show ?thesis using l(5) by (intro exI [of _ ?s] exI [of _ c1]) (simp add: sent_def)
  qed
qed

text \<open>One batch: one attempt, then the log. Only an eviction, which is reported, loses anything.\<close>

lemma send_keeps:
  assumes "vault s c" "frame_ok (sn_batch_buf s)"
  shows "\<exists>s'. send_with_fallback s = (Ready (), s') \<and> (c \<noteq> [] \<and> buffer_error s' \<or>
    (\<exists>c'. vault s' c' \<and> same_config s s' \<and> sn_reports s' = sn_reports s \<and>
      mset (sent s @ c @ [sn_batch_buf s]) \<subseteq># mset (sent s' @ c')))"
proof -
  let ?f = "sn_batch_buf s"
  obtain buf a b where v: "sn_on_error s" "sn_deadline s = None" "stream_ok (sn_transport s)" "0 < sn_batch_size s"
    "sn_disk_buffer s = Some buf" "db_rep buf a b c" "tight buf c" using assms(1) by (auto simp: vault_def)
  obtain r t where t: "await_send ?f s = (Ready r, s\<lparr>sn_transport := t\<rparr>)" "stream_ok t"
    "written t = sent s @ [?f] \<or> written t = sent s \<and> r \<noteq> Inr ()"
    by (rule await_send_live [OF v(2,3) frame_ok_sendable [OF assms(2)]])
  let ?s1 = "s\<lparr>sn_transport := t\<rparr>"
  have once: "unat (attempts s) = Suc 0" using v(5) by (simp add: attempts_def)
  show ?thesis
  proof (cases r)
    case (Inr u)
    have "vault ?s1 c" using assms(1) t(2) by (simp add: vault_def)
    moreover have "send_with_fallback s = (Ready (), ?s1)"
      using t(1) Inr once by (simp add: send_with_fallback_def)
    moreover have "sent ?s1 = sent s @ [?f]" using t(3) Inr by (simp add: sent_def)
    ultimately show ?thesis by (auto intro!: exI [of _ c])
  next
    case (Inl e)
    let ?n = "evict_count frame_size (db_max_bytes buf) (frame_size ?f) c"
    obtain buf1 a1 b1 where p: "append ?f buf = (Inr (total frame_size (take ?n c)), buf1)" "db_max_bytes buf1 = db_max_bytes buf"
      "db_rep buf1 a1 b1 (drop ?n c @ [?f])"
      using wal.push [of buf b c ?f ?n] v(6) assms(2) by blast
    have send: "send_with_fallback s = (Ready (), append_to_wal ?s1)"
      using t(1) Inl once v(5) by (simp add: send_with_fallback_def)
    show ?thesis
    proof (cases "?n = 0")
      case True
      have "append_to_wal ?s1 = ?s1\<lparr>sn_disk_buffer := Some buf1\<rparr>"
        using p(1) v(5) True by (simp add: append_to_wal_def)
      moreover have "tight buf1 (c @ [?f])"
        using True p(2) by (cases c) (auto simp: tight_def split: if_splits)
      then have "vault (?s1\<lparr>sn_disk_buffer := Some buf1\<rparr>) (c @ [?f])"
        using v t(2) p(3) True by (auto simp: vault_def)
      moreover have "mset (sent s @ c @ [?f]) \<subseteq># mset (written t @ c @ [?f])" using t(3) by auto
      ultimately show ?thesis using send by (auto simp: sent_def intro!: exI [of _ "c @ [?f]"])
    next
      case False
      then have "c \<noteq> []" by (cases c) auto
      then have "0 < total frame_size (take ?n c)"
        using False by (cases c) (auto simp: frame_size_eq take_Cons')
      then have "buffer_error (append_to_wal ?s1)"
        using p(1) v(1,5) by (auto simp: append_to_wal_def report_def buffer_error_def)
      with send \<open>c \<noteq> []\<close> show ?thesis by blast
    qed
  qed
qed

lemma batches_mono: "mset xs \<subseteq># mset ys \<Longrightarrow> mset (batches ty dec xs) \<subseteq># mset (batches ty dec ys)"
proof -
  have "batches ty dec fs = map (the \<circ> collect ty dec) (filter (\<lambda>f. collect ty dec f \<noteq> None) fs)" for fs
    by (induction fs) (auto simp: batches_def)
  then show "mset xs \<subseteq># mset ys \<Longrightarrow> mset (batches ty dec xs) \<subseteq># mset (batches ty dec ys)"
    by (simp add: image_mset_subseteq_mono multiset_filter_mono)
qed

text \<open>\<open>s'\<close> keeps, in the log or among what was written, all that \<open>s\<close> did, and \<open>frames\<close> as well.\<close>

definition keeps_all :: "Sender \<Rightarrow> bytes list \<Rightarrow> Sender \<Rightarrow> bytes list \<Rightarrow> bytes list \<Rightarrow> bool" where
  "keeps_all s c s' c' frames \<longleftrightarrow> vault s' c' \<and> same_config s s' \<and> mset (sent s @ c @ frames) \<subseteq># mset (sent s' @ c')"

lemma keeps_all_trans:
  assumes "keeps_all s c s1 c1 xs" "keeps_all s1 c1 s2 c2 ys"
  shows "keeps_all s c s2 c2 (xs @ ys)"
proof -
  have "mset (sent s @ c @ xs) + mset ys \<subseteq># mset (sent s1 @ c1) + mset ys"
    using assms(1) by (simp add: keeps_all_def)
  also have "\<dots> \<subseteq># mset (sent s2 @ c2)" using assms(2) by (simp add: keeps_all_def ac_simps)
  finally show ?thesis using assms by (auto simp: keeps_all_def ac_simps intro: same_config_trans)
qed

context chunk_encoder
begin

lemma chunk_kept:
  assumes "vault s c" "62 + length (sn_api_key s) + length (data s q) \<le> MAX_FRAME_LEN"
  shows "\<exists>s'. send_with_fallback (encoded s ty (data s q)) = (Ready (), s') \<and> (buffer_error s' \<or>
    (\<exists>c' f. keeps_all s c s' c' [f] \<and> collect ty dec f = Some (map (params s) q)))"
proof -
  let ?s1 = "encoded s ty (data s q)" and ?f = "sn_batch_buf (encoded s ty (data s q))"
  have fit: "fits s (data s q)" using assms(2) by (simp add: fits_def MAX_FRAME_LEN_def)
  have "length ?f \<le> 62 + length (sn_api_key s) + length (data s q)"
    using batch_layout_length [of 0 "batch_of s ty (data s q)"] by (simp add: encoded_def batch_of_def)
  then have ok: "frame_ok ?f" using assms(2) by (simp add: frame_ok_def)
  have s1: "vault ?s1 c" "same_config s ?s1" "sent ?s1 = sent s"
    using assms(1) by (simp_all add: vault_def encoded_def same_config_def sent_def)
  obtain s' where s': "send_with_fallback ?s1 = (Ready (), s')" "buffer_error s' \<or>
    (\<exists>c'. vault s' c' \<and> same_config ?s1 s' \<and> mset (sent s @ c @ [?f]) \<subseteq># mset (sent s' @ c'))"
    using send_keeps [OF s1(1) ok] s1(3) by auto
  then show ?thesis
    using collect_encoded(1) [OF fit] same_config_trans [OF s1(2)] unfolding keeps_all_def by blast
qed

lemma flush_keeps:
  assumes "base s" "vault s c" "list_all (\<lambda>c. 62 + length (sn_api_key s) + length (data s c) \<le> MAX_FRAME_LEN) (chunks (sn_batch_size s) q)"
  shows "\<exists>s'. flush_queue enc s q = Some (Ready (), s', []) \<and> stays s s' \<and> (buffer_error s' \<or>
    (\<exists>c' frames. keeps_all s c s' c' frames \<and>
      map (collect ty dec) frames = map (\<lambda>c. Some (map (params s) c)) (chunks (sn_batch_size s) q)))"
  using assms
proof (induction "length q" arbitrary: q s c rule: less_induct)
  case less
  show ?case
  proof (cases "q = []")
    case True
    moreover have "keeps_all s c s c []" using less.prems(2) by (simp add: keeps_all_def)
    ultimately show ?thesis
      by (intro exI [of _ s], subst flush_queue.simps) (force intro: exI [of _ c] exI [of _ "[]"])
  next
    case False
    let ?n = "sn_batch_size s" and ?c = "take (sn_batch_size s) q"
    have n: "0 < ?n" using less.prems(1) by (simp add: base_def sender_ok_def)
    have ch: "chunks ?n q = ?c # chunks ?n (drop ?n q)" using False n by (rule chunks_step)
    obtain s1 where s1: "send_with_fallback (encoded s ty (data s ?c)) = (Ready (), s1)" "buffer_error s1 \<or>
        (\<exists>c' f. keeps_all s c s1 c' [f] \<and> collect ty dec f = Some (map (params s) ?c))"
      using chunk_kept [OF less.prems(2), of ?c] less.prems(3) by (auto simp: ch)
    have st: "stays s s1" using send_with_fallback_fine [OF s1(1)] stays_trans [OF stays_update(5)] by (auto simp: fine_def)
    have b1: "base s1" by (rule base_stays [OF st less.prems(1)])
    have cfg: "same_config s s1" using st by (simp add: stays_def)
    have step: "flush_queue enc s q = flush_queue enc s1 (drop ?n q)"
      using False by (subst flush_queue.simps) (simp add: Let_def take_min enc s1(1))
    show ?thesis
    proof (cases "buffer_error s1")
      case True
      obtain r s2 q2 where f: "flush_queue enc s1 (drop ?n q) = Some (r, s2, q2)" "fine s1 r s2" "r \<noteq> Expired \<longrightarrow> q2 = []"
        using flush_total [of s1 "drop ?n q"] b1 by (auto simp: base_def)
      then have "r = Ready ()" using b1 by (cases r) (simp_all add: fine_def base_def)
      with f True stays_trans [OF st] buffer_error_stays [of s1 s2] show ?thesis
        unfolding step by (auto simp: fine_def)
    next
      case False
      with s1(2) obtain c1 f where k: "keeps_all s c s1 c1 [f]" "collect ty dec f = Some (map (params s) ?c)" by blast
      then have v1: "vault s1 c1" by (simp add: keeps_all_def)
      have small: "list_all (\<lambda>c. 62 + length (sn_api_key s1) + length (data s1 c) \<le> MAX_FRAME_LEN) (chunks (sn_batch_size s1) (drop ?n q))"
        using less.prems(3) cfg config [OF cfg] by (simp add: ch same_config_def)
      have "length (drop ?n q) < length q" using \<open>q \<noteq> []\<close> n by simp
      from less.hyps [OF this b1 v1 small] obtain s2 where g: "flush_queue enc s1 (drop ?n q) = Some (Ready (), s2, [])"
        "stays s1 s2" "buffer_error s2 \<or> (\<exists>c' frames. keeps_all s1 c1 s2 c' frames \<and>
          map (collect ty dec) frames = map (\<lambda>c. Some (map (params s1) c)) (chunks (sn_batch_size s1) (drop ?n q)))"
        by blast
      have "buffer_error s2 \<or> (\<exists>c' frames. keeps_all s c s2 c' frames \<and>
          map (collect ty dec) frames = map (\<lambda>c. Some (map (params s) c)) (chunks ?n q))"
      proof (rule disjE [OF g(3)])
        assume "\<exists>c' frames. keeps_all s1 c1 s2 c' frames \<and>
          map (collect ty dec) frames = map (\<lambda>c. Some (map (params s1) c)) (chunks (sn_batch_size s1) (drop ?n q))"
        then obtain c2 fs where "keeps_all s1 c1 s2 c2 fs"
          "map (collect ty dec) fs = map (\<lambda>c. Some (map (params s1) c)) (chunks (sn_batch_size s1) (drop ?n q))" by blast
        then have "keeps_all s c s2 c2 ([f] @ fs)"
          "map (collect ty dec) ([f] @ fs) = map (\<lambda>c. Some (map (params s) c)) (chunks ?n q)"
          using keeps_all_trans [OF k(1)] k(2) config [OF cfg] cfg by (simp_all add: ch same_config_def)
        then show ?thesis by blast
      qed simp
      with g(1,2) stays_trans [OF st] show ?thesis unfolding step by blast
    qed
  qed
qed

lemma batches_chunks:
  "map (collect ty dec) frames = map (\<lambda>c. Some (map (params s) c)) cs \<Longrightarrow> batches ty dec frames = map (map (params s)) cs"
proof (induction cs arbitrary: frames)
  case (Cons c cs)
  then show ?case by (cases frames) (auto simp: batches_def)
qed simp

end

subsection \<open>Nothing is lost while the log has room\<close>

text \<open>\<open>c0\<close> is what the log held when the worker started.\<close>

definition stored :: "bytes list \<Rightarrow> Sender \<Rightarrow> bytes list \<Rightarrow> Queues \<Rightarrow> Queues \<Rightarrow> bool" where
  "stored c0 s c fed q \<longleftrightarrow> (\<exists>ecs lcs mcs.
     concat ecs @ q_events q = q_events fed \<and> concat lcs @ q_logs q = q_logs fed \<and> concat mcs @ q_metrics q = q_metrics fed \<and>
     mset (batches SchemaEvent decode_event_data c0 @ map (map (event_params s)) ecs) \<subseteq># mset (batches SchemaEvent decode_event_data (sent s @ c)) \<and>
     mset (batches SchemaLog decode_log_data c0 @ map (map (log_params s)) lcs) \<subseteq># mset (batches SchemaLog decode_log_data (sent s @ c)) \<and>
     mset (batches SchemaMetric decode_metric_data c0 @ map (map (metric_params s)) mcs) \<subseteq># mset (batches SchemaMetric decode_metric_data (sent s @ c)))"

definition secured :: "bytes list \<Rightarrow> Queues \<Rightarrow> Sender \<Rightarrow> Queues \<Rightarrow> bool" where
  "secured c0 fed s q \<longleftrightarrow> base s \<and> part_of q fed \<and> (buffer_error s \<or> (\<exists>c. vault s c \<and> stored c0 s c fed q))"

lemma keeps_all_batches:
  assumes "keeps_all s c s' c' frames"
  shows "mset (batches ty dec (sent s @ c)) + mset (batches ty dec frames) \<subseteq># mset (batches ty dec (sent s' @ c'))"
  using batches_mono [of "sent s @ c @ frames" "sent s' @ c'" ty dec] assms
  by (simp add: keeps_all_def ac_simps)

lemma stored_add:
  assumes "stored c0 s c fed q" "keeps_all s c s' c' frames"
  shows "batches SchemaEvent decode_event_data frames = map (map (event_params s)) cs \<Longrightarrow> concat cs = q_events q \<Longrightarrow>
      stored c0 s' c' fed (q\<lparr>q_events := []\<rparr>)"
    "batches SchemaLog decode_log_data frames = map (map (log_params s)) ds \<Longrightarrow> concat ds = q_logs q \<Longrightarrow>
      stored c0 s' c' fed (q\<lparr>q_logs := []\<rparr>)"
    "batches SchemaMetric decode_metric_data frames = map (map (metric_params s)) es \<Longrightarrow> concat es = q_metrics q \<Longrightarrow>
      stored c0 s' c' fed (q\<lparr>q_metrics := []\<rparr>)"
    "frames = [] \<Longrightarrow> stored c0 s' c' fed q"
proof -
  have cfg: "event_params s' = event_params s" "log_params s' = log_params s" "metric_params s' = metric_params s"
    using data_config [of s s'] assms(2) by (simp_all add: keeps_all_def)
  note more = keeps_all_batches [OF assms(2)]
  note all = subset_mset.order_trans [OF mset_subset_eq_add_left more]
  obtain ecs lcs mcs where q: "concat ecs @ q_events q = q_events fed" "concat lcs @ q_logs q = q_logs fed"
    "concat mcs @ q_metrics q = q_metrics fed"
    "mset (batches SchemaEvent decode_event_data c0 @ map (map (event_params s)) ecs) \<subseteq># mset (batches SchemaEvent decode_event_data (sent s @ c))"
    "mset (batches SchemaLog decode_log_data c0 @ map (map (log_params s)) lcs) \<subseteq># mset (batches SchemaLog decode_log_data (sent s @ c))"
    "mset (batches SchemaMetric decode_metric_data c0 @ map (map (metric_params s)) mcs) \<subseteq># mset (batches SchemaMetric decode_metric_data (sent s @ c))"
    using assms(1) unfolding stored_def by blast
  note old = q(4-6) [THEN subset_mset.order_trans, OF all]
  note new = q(4-6) [THEN subset_mset.add_right_mono, THEN subset_mset.order_trans, OF more]
  show "stored c0 s' c' fed (q\<lparr>q_events := []\<rparr>)"
    if "batches SchemaEvent decode_event_data frames = map (map (event_params s)) cs" "concat cs = q_events q"
    unfolding stored_def cfg
    by (rule exI [of _ "ecs @ cs"], rule exI [of _ lcs], rule exI [of _ mcs]) (use q old new(1) that in \<open>simp add: ac_simps\<close>)
  show "stored c0 s' c' fed (q\<lparr>q_logs := []\<rparr>)"
    if "batches SchemaLog decode_log_data frames = map (map (log_params s)) ds" "concat ds = q_logs q"
    unfolding stored_def cfg
    by (rule exI [of _ ecs], rule exI [of _ "lcs @ ds"], rule exI [of _ mcs]) (use q old new(2) that in \<open>simp add: ac_simps\<close>)
  show "stored c0 s' c' fed (q\<lparr>q_metrics := []\<rparr>)"
    if "batches SchemaMetric decode_metric_data frames = map (map (metric_params s)) es" "concat es = q_metrics q"
    unfolding stored_def cfg
    by (rule exI [of _ ecs], rule exI [of _ lcs], rule exI [of _ "mcs @ es"]) (use q old new(3) that in \<open>simp add: ac_simps\<close>)
  show "stored c0 s' c' fed q" if "frames = []"
    unfolding stored_def cfg using q(1-3) old by blast
qed

text \<open>A step that returns in good order, and keeps the vault unless the log ran full.\<close>

lemma secured_step:
  assumes "secured c0 fed s q" "m = Some (Ready (), s', q')" "stays s s'" "part_of q' q"
    and "\<And>c. vault s c \<Longrightarrow> buffer_error s' \<or> (\<exists>c'. vault s' c' \<and> (stored c0 s c fed q \<longrightarrow> stored c0 s' c' fed q'))"
  shows "settles (secured c0 fed) s m"
proof -
  have "base s'" using assms(1) base_stays [OF assms(3)] by (simp add: secured_def)
  moreover have "part_of q' fed" "same_config s s'"
    using assms(1,3,4) by (auto simp: secured_def part_of_def stays_def)
  moreover have "buffer_error s' \<or> (\<exists>c. vault s' c \<and> stored c0 s' c fed q')"
    using assms(1,5) buffer_error_stays [OF assms(3)] unfolding secured_def by blast
  ultimately show ?thesis using assms(2) by (auto simp: settles_def secured_def)
qed

lemma secured_base: "secured c0 fed s q \<Longrightarrow> sender_ok s \<and> sn_deadline s = None"
  by (simp add: secured_def base_def)

lemma secured_drain:
  assumes "secured c0 fed s q"
  shows "settles (secured c0 fed) s (do { (r, s) \<leftarrow> drain_disk_buffer s; Some (r, s, q) })"
proof -
  obtain r s' where d: "drain_disk_buffer s = Some (r, s')" "fine s r s'"
    using drain_total [of s] secured_base [OF assms] by blast
  have "r = Ready ()" using d(2) secured_base [OF assms] by (cases r) (simp_all add: fine_def)
  with d(1) have m: "do { (r, s) \<leftarrow> drain_disk_buffer s; Some (r, s, q) } = Some (Ready (), s', q)" by simp
  show ?thesis
  proof (rule secured_step [OF assms m])
    show "stays s s'" using d(2) by (simp add: fine_def)
    show "part_of q q" by (simp add: part_of_def)
    fix c assume "vault s c"
    from drain_keeps [OF this] d(1) obtain c' where "keeps_all s c s' c' []" by (auto simp: keeps_all_def)
    then show "buffer_error s' \<or> (\<exists>c'. vault s' c' \<and> (stored c0 s c fed q \<longrightarrow> stored c0 s' c' fed q))"
      using stored_add(4) [of c0 s c fed q s' c' "[]"] by (auto simp: keeps_all_def)
  qed
qed

definition batches_storable :: "Sender \<Rightarrow> Queues \<Rightarrow> bool" where
  "batches_storable s fed \<longleftrightarrow> batches_within (Suc MAX_FRAME_LEN) s fed"

lemma secured_chunks:
  assumes "secured c0 fed s q" "batches_storable s fed"
  shows "list_all (\<lambda>c. 62 + length (sn_api_key s) + length (event_data s c) \<le> MAX_FRAME_LEN) (chunks (sn_batch_size s) (q_events q))"
    "list_all (\<lambda>c. 62 + length (sn_api_key s) + length (log_data s c) \<le> MAX_FRAME_LEN) (chunks (sn_batch_size s) (q_logs q))"
    "list_all (\<lambda>c. 62 + length (sn_api_key s) + length (metric_data s c) \<le> MAX_FRAME_LEN) (chunks (sn_batch_size s) (q_metrics q))"
  using within_chunks [of "Suc MAX_FRAME_LEN" s fed q] assms
  by (simp_all add: secured_def base_def sender_ok_def batches_storable_def less_Suc_eq_le)

lemma secured_flush:
  assumes "secured c0 fed s q" "batches_storable s fed"
  shows "settles (secured c0 fed) s (flush_events s q)" "settles (secured c0 fed) s (flush_logs s q)"
    "settles (secured c0 fed) s (flush_metrics s q)"
proof -
  have b: "base s" using assms(1) by (simp add: secured_def)
  have n: "0 < sn_batch_size s" using b by (simp add: base_def sender_ok_def)
  note small = secured_chunks [OF assms]
  have part: "part_of (q\<lparr>q_events := []\<rparr>) q" "part_of (q\<lparr>q_logs := []\<rparr>) q" "part_of (q\<lparr>q_metrics := []\<rparr>) q"
    by (simp_all add: part_of_def)
  have run: "\<exists>s'. m = Some (Ready (), s', q') \<and> stays s s'" if "completes s m (\<lambda>x. x = q')" for m q'
    using completes_running [OF that] b by (metis base_def)
  note runs = flush_one_completes [of s q, THEN run]
  have sok: "sender_ok s" using b by (simp add: base_def)
  show "settles (secured c0 fed) s (flush_events s q)"
  proof -
    obtain s' where f: "flush_events s q = Some (Ready (), s', q\<lparr>q_events := []\<rparr>)" "stays s s'" using runs(1) sok by blast
    show ?thesis
    proof (rule secured_step [OF assms(1) f part(1)])
      fix c assume "vault s c"
      from events.flush_keeps [OF b this small(1)] f(1)
      show "buffer_error s' \<or> (\<exists>c'. vault s' c' \<and> (stored c0 s c fed q \<longrightarrow> stored c0 s' c' fed (q\<lparr>q_events := []\<rparr>)))"
        using stored_add(1) [OF _ _ events.batches_chunks concat_chunks [OF n]]
        by (fastforce simp: flush_events_def keeps_all_def)
    qed
  qed
  show "settles (secured c0 fed) s (flush_logs s q)"
  proof -
    obtain s' where f: "flush_logs s q = Some (Ready (), s', q\<lparr>q_logs := []\<rparr>)" "stays s s'" using runs(2) sok by blast
    show ?thesis
    proof (rule secured_step [OF assms(1) f part(2)])
      fix c assume "vault s c"
      from logs.flush_keeps [OF b this small(2)] f(1)
      show "buffer_error s' \<or> (\<exists>c'. vault s' c' \<and> (stored c0 s c fed q \<longrightarrow> stored c0 s' c' fed (q\<lparr>q_logs := []\<rparr>)))"
        using stored_add(2) [OF _ _ logs.batches_chunks concat_chunks [OF n]]
        by (fastforce simp: flush_logs_def keeps_all_def)
    qed
  qed
  show "settles (secured c0 fed) s (flush_metrics s q)"
  proof -
    obtain s' where f: "flush_metrics s q = Some (Ready (), s', q\<lparr>q_metrics := []\<rparr>)" "stays s s'" using runs(3) sok by blast
    show ?thesis
    proof (rule secured_step [OF assms(1) f part(3)])
      fix c assume "vault s c"
      from metrics.flush_keeps [OF b this small(3)] f(1)
      show "buffer_error s' \<or> (\<exists>c'. vault s' c' \<and> (stored c0 s c fed q \<longrightarrow> stored c0 s' c' fed (q\<lparr>q_metrics := []\<rparr>)))"
        using stored_add(3) [OF _ _ metrics.batches_chunks concat_chunks [OF n]]
        by (fastforce simp: flush_metrics_def keeps_all_def)
    qed
  qed
qed

lemma stored_feed: "stored c0 s c fed q \<Longrightarrow> stored c0 s c (feed x fed) (feed x q)"
  unfolding stored_def feed_simps append_assoc [symmetric] by blast

interpretation disk: accounting "secured c0" batches_storable for c0
proof
  fix fed s q x
  assume p: "secured c0 fed s q"
  show "settles (secured c0 fed) s (do { (r, s) \<leftarrow> drain_disk_buffer s; Some (r, s, q) })" by (rule secured_drain [OF p])
  show "sn_deadline s = None" using secured_base [OF p] by simp
  let ?s = "s\<lparr>sn_transport := transport_close (sn_transport s)\<rparr>"
  have cfg: "event_params ?s = event_params s" "log_params ?s = log_params s" "metric_params ?s = metric_params s"
    using data_config [of s ?s] by simp_all
  have "vault s c \<Longrightarrow> vault ?s c" for c by (simp add: vault_def stream_ok_close)
  moreover have "stored c0 s c fed q \<Longrightarrow> stored c0 ?s c fed q" for c
    unfolding stored_def cfg by (simp add: sent_def written_close)
  moreover have "base ?s = base s" "buffer_error ?s = buffer_error s"
    by (simp_all add: base_def sender_ok_def buffer_error_def)
  ultimately show "secured c0 fed ?s q" using p unfolding secured_def by metis
  show "secured c0 (feed x fed) s (feed x q)"
    using p stored_feed by (auto simp: secured_def part_of_def)
next
  fix s s' fed
  assume "same_config s s'"
  then show "batches_storable s fed = batches_storable s' fed"
    unfolding batches_storable_def by (rule batches_within_config)
qed (simp_all add: secured_flush batches_storable_def batches_within_part)

subsection \<open>The account of batch ids\<close>

text \<open>
  \<open>n\<close> ids were taken from the counter since it stood at \<open>start\<close>, by this worker or by others;
  each frame that was written has one of them, and there is one frame for each number.
\<close>

definition batch_id_of :: "bytes \<Rightarrow> u64 option" where
  "batch_id_of f = map_option bp_batch_id (decode_batch f 0)"

definition numbered :: "u64 \<Rightarrow> nat \<Rightarrow> Sender \<Rightarrow> bool" where
  "numbered start n s \<longleftrightarrow> plain s \<and> bc_next (sn_batch_counter s) = start + of_nat n \<and>
     (\<exists>frame_no. \<forall>f\<in>set (sent s). \<exists>k<n. f = frame_no k \<and> batch_id_of f = Some (start + of_nat k))"

definition others_left :: "Sender \<Rightarrow> nat" where
  "others_left s = sum_list (bc_others (sn_batch_counter s))"

lemma others_left_step: "others_left (snd (next_batch_id s)) + foreign_ids (bc_others (sn_batch_counter s)) = others_left s"
  by (cases "bc_others (sn_batch_counter s)") (simp_all add: others_left_def next_batch_id_def Let_def)

lemma numbered_send:
  assumes "numbered start n s" "fits s d"
  shows "\<exists>s' g. send_with_fallback (encoded s ty d) = (Ready (), s') \<and> numbered start (Suc (n + g)) s' \<and>
    g + others_left s' = others_left s \<and> same_config s s'"
proof -
  let ?s1 = "encoded s ty d" and ?f = "sn_batch_buf (encoded s ty d)"
  let ?g = "foreign_ids (bc_others (sn_batch_counter s))"
  let ?m = "n + ?g"
  have s1: "plain ?s1" "same_config s ?s1" "sent ?s1 = sent s" "bc_next (sn_batch_counter ?s1) = start + of_nat (Suc ?m)"
    using assms(1) by (simp_all add: numbered_def encoded_def plain_def same_config_def sent_def next_batch_id_def Let_def)
  have len: "length ?f < 2 ^ 32"
    using batch_layout_length [of 0 "batch_of s ty d"] assms(2) by (simp add: encoded_def fits_def batch_of_def)
  then have "decode_batch ?f 0 = Some (batch_of s ty d)" using batch_reads(1) [of s ty d] by (simp add: encoded_def)
  then have id: "batch_id_of ?f = Some (start + of_nat ?m)"
    using assms(1) by (simp add: batch_id_of_def batch_of_def numbered_def next_batch_id_def Let_def)
  obtain s' k where s': "send_with_fallback ?s1 = (Ready (), s')" "plain s'" "same_config ?s1 s'"
    "sent s' = sent s @ replicate k ?f" "sn_batch_counter s' = sn_batch_counter ?s1"
    using send_fate [OF s1(1) len] unfolding s1(3) by blast
  obtain frame_no where no: "\<forall>f\<in>set (sent s). \<exists>k<n. f = frame_no k \<and> batch_id_of f = Some (start + of_nat k)"
    using assms(1) by (auto simp: numbered_def)
  have "\<exists>k<Suc ?m. f = (frame_no(?m := ?f)) k \<and> batch_id_of f = Some (start + of_nat k)" if "f \<in> set (sent s')" for f
  proof (cases "f \<in> set (sent s)")
    case True
    then obtain j where "j < n" "f = frame_no j" "batch_id_of f = Some (start + of_nat j)" using no by blast
    then show ?thesis by (intro exI [of _ j]) simp
  next
    case False
    then have "f = ?f" using that s'(4) by (auto split: if_splits)
    then show ?thesis using id by (intro exI [of _ ?m]) simp
  qed
  then have "numbered start (Suc ?m) s'" using s'(2,5) s1(4) unfolding numbered_def by metis
  moreover have "?g + others_left s' = others_left s"
    using others_left_step [of s] by (simp add: others_left_def s'(5) encoded_def)
  ultimately show ?thesis using s'(1,3) same_config_trans [OF s1(2)] by blast
qed

context chunk_encoder
begin

lemma flush_numbered:
  assumes "numbered start n s" "list_all (\<lambda>c. fits s (data s c)) (chunks (sn_batch_size s) q)"
  shows "\<exists>s' m. flush_queue enc s q = Some (Ready (), s', []) \<and> numbered start (n + m) s' \<and>
    m + others_left s' \<le> length q + others_left s \<and> same_config s s'"
  using assms
proof (induction "length q" arbitrary: q s n rule: less_induct)
  case less
  show ?case
  proof (cases "q = []")
    case True
    then show ?thesis using less.prems(1)
      by (intro exI [of _ s] exI [of _ 0], subst flush_queue.simps) (simp add: same_config_def)
  next
    case False
    let ?n = "sn_batch_size s" and ?c = "take (sn_batch_size s) q"
    have n: "0 < ?n" using less.prems(1) by (simp add: numbered_def plain_def)
    have ch: "chunks ?n q = ?c # chunks ?n (drop ?n q)" using False n by (rule chunks_step)
    obtain s1 g where f: "send_with_fallback (encoded s ty (data s ?c)) = (Ready (), s1)" "numbered start (Suc (n + g)) s1" "same_config s s1"
      "g + others_left s1 = others_left s"
      using numbered_send [OF less.prems(1), of "data s ?c" ty] less.prems(2) by (auto simp: ch)
    have small: "list_all (\<lambda>c. fits s1 (data s1 c)) (chunks (sn_batch_size s1) (drop ?n q))"
      using less.prems(2) f(3) config [OF f(3)] by (simp add: ch same_config_def fits_def)
    have shorter: "length (drop ?n q) < length q" using False n by simp
    from less.hyps [OF this f(2) small] obtain s2 m where
      g: "flush_queue enc s1 (drop ?n q) = Some (Ready (), s2, [])" "numbered start (Suc (n + g) + m) s2"
        "m + others_left s2 \<le> length (drop ?n q) + others_left s1" "same_config s1 s2" by blast
    have "flush_queue enc s q = Some (Ready (), s2, [])"
      using False by (subst flush_queue.simps) (simp add: Let_def take_min enc f(1) g(1))
    moreover have "numbered start (n + Suc (g + m)) s2" using g(2) by (simp add: ac_simps)
    moreover have "Suc (g + m) + others_left s2 \<le> length q + others_left s" using g(3) f(4) shorter by linarith
    ultimately show ?thesis using same_config_trans [OF f(3) g(4)] by blast
  qed
qed

end

definition entry_count :: "Queues \<Rightarrow> nat" where
  "entry_count q = length (q_events q) + length (q_logs q) + length (q_metrics q)"

definition identified :: "u64 \<Rightarrow> nat \<Rightarrow> Queues \<Rightarrow> Sender \<Rightarrow> Queues \<Rightarrow> bool" where
  "identified start others fed s q \<longleftrightarrow> part_of q fed \<and>
     (\<exists>n. numbered start n s \<and> n + entry_count q + others_left s \<le> entry_count fed + others)"

lemma identified_flush:
  assumes "identified start others fed s q" "batches_within (2 ^ 32) s fed"
  shows "settles (identified start others fed) s (flush_events s q)" "settles (identified start others fed) s (flush_logs s q)"
    "settles (identified start others fed) s (flush_metrics s q)"
proof -
  obtain n where n: "numbered start n s" "n + entry_count q + others_left s \<le> entry_count fed + others" "part_of q fed"
    using assms(1) by (auto simp: identified_def)
  have "0 < sn_batch_size s" using n(1) by (simp add: numbered_def plain_def)
  from within_sendable [OF assms(2) this n(3)] have fit: "list_all (\<lambda>c. fits s (event_data s c)) (chunks (sn_batch_size s) (q_events q))"
    "list_all (\<lambda>c. fits s (log_data s c)) (chunks (sn_batch_size s) (q_logs q))"
    "list_all (\<lambda>c. fits s (metric_data s c)) (chunks (sn_batch_size s) (q_metrics q))" by (simp_all add: sendable_def)
  have part: "part_of (q\<lparr>q_events := []\<rparr>) fed" "part_of (q\<lparr>q_logs := []\<rparr>) fed" "part_of (q\<lparr>q_metrics := []\<rparr>) fed"
    using n(3) by (simp_all add: part_of_def)
  show "settles (identified start others fed) s (flush_events s q)"
    using events.flush_numbered [OF n(1) fit(1)] n(2) part(1)
    by (fastforce simp: settles_def flush_events_def identified_def entry_count_def)
  show "settles (identified start others fed) s (flush_logs s q)"
    using logs.flush_numbered [OF n(1) fit(2)] n(2) part(2)
    by (fastforce simp: settles_def flush_logs_def identified_def entry_count_def)
  show "settles (identified start others fed) s (flush_metrics s q)"
    using metrics.flush_numbered [OF n(1) fit(3)] n(2) part(3)
    by (fastforce simp: settles_def flush_metrics_def identified_def entry_count_def)
qed

interpretation ids: accounting "identified start others" "batches_within (2 ^ 32)" for start others
proof
  fix fed s q x
  assume a: "identified start others fed s q"
  then obtain n where n: "numbered start n s" "n + entry_count q + others_left s \<le> entry_count fed + others" "part_of q fed"
    by (auto simp: identified_def)
  then have p: "plain s" by (simp add: numbered_def)
  show "settles (identified start others fed) s (do { (r, s) \<leftarrow> drain_disk_buffer s; Some (r, s, q) })"
    using a p by (simp add: settles_def drain_disk_buffer_def plain_def)
  show "sn_deadline s = None" using p by (simp add: plain_def)
  have "numbered start n (s\<lparr>sn_transport := transport_close (sn_transport s)\<rparr>)"
    using n(1) stream_ok_close by (simp add: numbered_def plain_def sent_def written_close)
  moreover have "others_left (s\<lparr>sn_transport := t\<rparr>) = others_left s" for t by (simp add: others_left_def)
  ultimately show "identified start others fed (s\<lparr>sn_transport := transport_close (sn_transport s)\<rparr>) q"
    using n(2,3) by (auto simp: identified_def)
  show "identified start others (feed x fed) s (feed x q)"
    using n by (auto simp: identified_def part_of_def entry_count_def)
qed (simp_all add: identified_flush batches_within_config batches_within_part)

text \<open>While the counter has not come round, a number names one frame.\<close>

lemma numbered_unique:
  assumes "numbered start n s" "n < 2 ^ 64" "f \<in> set (sent s)" "g \<in> set (sent s)" "batch_id_of f = batch_id_of g"
  shows "f = g"
proof -
  obtain frame_no j k where "j < n" "f = frame_no j" "batch_id_of f = Some (start + of_nat j)"
    "k < n" "g = frame_no k" "batch_id_of g = Some (start + of_nat k)"
    using assms(1,3,4) unfolding numbered_def by meson
  moreover from this have "(of_nat j :: u64) = of_nat k" using assms(5) by simp
  moreover have "unat (of_nat i :: u64) = i" if "i < n" for i
    using that assms(2) by (simp add: unat_of_nat take_bit_nat_eq_self)
  ultimately show ?thesis by metis
qed

end
