(* ===== verification/Client.thy ===== *)
theory Client
  imports Config Props_Builder Worker Instruments
begin

section \<open>The client (\<open>client/\<close>, \<open>constants.rs\<close>)\<close>

text \<open>
  The \<open>Tell\<close> handle: super properties, sessions, queueing, and every method that queues an
  event, a log entry or a metric. \<open>serde_json\<close> is third-party code: the functions of it that
  the client calls are the fields of \<open>Serde\<close>, over its own type of maps. A reading of the
  clock and a fresh UUID are arguments, and so is what became of a wait on the channel.
\<close>

subsection \<open>Standard event names\<close>

text \<open>The associated constants of \<open>Events\<close>, by name.\<close>

definition Events :: "(string \<times> string) list" where
  "Events =
    [(''USER_SIGNED_UP'', ''User Signed Up''),
     (''USER_SIGNED_IN'', ''User Signed In''),
     (''USER_SIGNED_OUT'', ''User Signed Out''),
     (''USER_INVITED'', ''User Invited''),
     (''USER_ONBOARDED'', ''User Onboarded''),
     (''AUTHENTICATION_FAILED'', ''Authentication Failed''),
     (''PASSWORD_RESET'', ''Password Reset''),
     (''TWO_FACTOR_ENABLED'', ''Two Factor Enabled''),
     (''TWO_FACTOR_DISABLED'', ''Two Factor Disabled''),
     (''ORDER_COMPLETED'', ''Order Completed''),
     (''ORDER_REFUNDED'', ''Order Refunded''),
     (''ORDER_CANCELED'', ''Order Canceled''),
     (''PAYMENT_FAILED'', ''Payment Failed''),
     (''PAYMENT_METHOD_ADDED'', ''Payment Method Added''),
     (''PAYMENT_METHOD_UPDATED'', ''Payment Method Updated''),
     (''PAYMENT_METHOD_REMOVED'', ''Payment Method Removed''),
     (''SUBSCRIPTION_STARTED'', ''Subscription Started''),
     (''SUBSCRIPTION_RENEWED'', ''Subscription Renewed''),
     (''SUBSCRIPTION_PAUSED'', ''Subscription Paused''),
     (''SUBSCRIPTION_RESUMED'', ''Subscription Resumed''),
     (''SUBSCRIPTION_CHANGED'', ''Subscription Changed''),
     (''SUBSCRIPTION_CANCELED'', ''Subscription Canceled''),
     (''TRIAL_STARTED'', ''Trial Started''),
     (''TRIAL_ENDING_SOON'', ''Trial Ending Soon''),
     (''TRIAL_ENDED'', ''Trial Ended''),
     (''TRIAL_CONVERTED'', ''Trial Converted''),
     (''CART_VIEWED'', ''Cart Viewed''),
     (''CART_UPDATED'', ''Cart Updated''),
     (''CART_ABANDONED'', ''Cart Abandoned''),
     (''CHECKOUT_STARTED'', ''Checkout Started''),
     (''CHECKOUT_COMPLETED'', ''Checkout Completed''),
     (''PAGE_VIEWED'', ''Page Viewed''),
     (''FEATURE_USED'', ''Feature Used''),
     (''SEARCH_PERFORMED'', ''Search Performed''),
     (''FILE_UPLOADED'', ''File Uploaded''),
     (''NOTIFICATION_SENT'', ''Notification Sent''),
     (''NOTIFICATION_CLICKED'', ''Notification Clicked''),
     (''EMAIL_SENT'', ''Email Sent''),
     (''EMAIL_OPENED'', ''Email Opened''),
     (''EMAIL_CLICKED'', ''Email Clicked''),
     (''EMAIL_BOUNCED'', ''Email Bounced''),
     (''EMAIL_UNSUBSCRIBED'', ''Email Unsubscribed''),
     (''SUPPORT_TICKET_CREATED'', ''Support Ticket Created''),
     (''SUPPORT_TICKET_RESOLVED'', ''Support Ticket Resolved'')]"

definition ORDER_COMPLETED :: str where "ORDER_COMPLETED = str_of ''Order Completed''"

subsection \<open>State\<close>

record 'm Serde =
  sd_empty :: 'm
  sd_extend :: "'m \<Rightarrow> 'm \<Rightarrow> 'm"
  sd_remove :: "str \<Rightarrow> 'm \<Rightarrow> 'm option"
  sd_to_vec :: "'m \<Rightarrow> bytes option"
  sd_from_slice :: "bytes \<Rightarrow> 'm option"
  sd_str :: "str \<Rightarrow> bytes"
  sd_f64 :: "f64 \<Rightarrow> bytes"

text \<open>\<open>Inner\<close>; \<open>tl_connected\<close> says whether the worker still holds the receiving end.\<close>

record 'm SuperProps =
  sp_map :: 'm
  sp_fragment :: bytes

record ('w, 'm) Tell =
  tl_device_id :: bytes
  tl_session_id :: "bytes option"
  tl_super_props :: "'m SuperProps"
  tl_on_error :: bool
  tl_reports :: "TellError list"
  tl_channel :: "WorkerMessage list"
  tl_capacity :: nat
  tl_connected :: bool
  tl_close_timeout :: duration
  tl_metrics :: "'w Metrics"
  tl_queue_full :: bool

definition ACK_GRACE :: duration where "ACK_GRACE = from_secs 1"

definition rebuild :: "'m Serde \<Rightarrow> 'm SuperProps \<Rightarrow> 'm SuperProps" where
  "rebuild sd sp =
    (let bytes = unwrap_or (sd_to_vec sd (sp_map sp)) [] in
     sp\<lparr>sp_fragment := (case object_inner (Some bytes) of Some inner \<Rightarrow> inner | None \<Rightarrow> [])\<rparr>)"

text \<open>
  Starting the worker: on the runtime of the caller, or on a thread of its own. The arguments
  say what happened: whether a runtime was found, how creating the thread and its runtime
  ended. The result says whether a worker runs, and what was reported; without one the
  receiving end of the channel is gone.
\<close>

definition spawn_dedicated_thread :: "io_error + unit \<Rightarrow> io_error + unit \<Rightarrow> TellError + (bool \<times> TellError list)" where
  "spawn_dedicated_thread thread runtime =
    (case thread of
       Inl e \<Rightarrow> Inl (IoError e)
     | Inr _ \<Rightarrow> (case runtime of Inr _ \<Rightarrow> Inr (True, []) | Inl e \<Rightarrow> Inr (False, [IoError e])))"

definition spawn_worker :: "bool \<Rightarrow> io_error + unit \<Rightarrow> io_error + unit \<Rightarrow> TellError + (bool \<times> TellError list)" where
  "spawn_worker in_runtime thread runtime =
    (if in_runtime then Inr (True, []) else spawn_dedicated_thread thread runtime)"

definition tell_new ::
  "'m Serde \<Rightarrow> TellConfig \<Rightarrow> bool \<Rightarrow> bytes \<Rightarrow> bytes \<Rightarrow> TellError + (bool \<times> TellError list) \<Rightarrow> TellError + ('w, 'm) Tell" where
  "tell_new sd config on_error session_uuid device_uuid spawned =
    (case spawned of
       Inl e \<Rightarrow> Inl e
     | Inr (running, reports) \<Rightarrow> Inr
        \<lparr>tl_device_id = device_uuid,
         tl_session_id = (if tc_enable_session config then Some session_uuid else None),
         tl_super_props = \<lparr>sp_map = sd_empty sd, sp_fragment = []\<rparr>,
         tl_on_error = on_error, tl_reports = (if on_error then reports else []), tl_channel = [],
         tl_capacity = tc_queue_capacity config, tl_connected = running,
         tl_close_timeout = tc_close_timeout config, tl_metrics = metrics_new, tl_queue_full = False\<rparr>)"

definition report_error :: "TellError \<Rightarrow> ('w, 'm) Tell \<Rightarrow> ('w, 'm) Tell" where
  "report_error e c = (if tl_on_error c then c\<lparr>tl_reports := tl_reports c @ [e]\<rparr> else c)"

definition register :: "'m Serde \<Rightarrow> payload_arg \<Rightarrow> ('w, 'm) Tell \<Rightarrow> ('w, 'm) Tell" where
  "register sd properties c =
    (case into_payload properties of
       Some bytes \<Rightarrow>
         (case sd_from_slice sd bytes of
            Some m \<Rightarrow> let sp = tl_super_props c in
              c\<lparr>tl_super_props := rebuild sd (sp\<lparr>sp_map := sd_extend sd (sp_map sp) m\<rparr>)\<rparr>
          | None \<Rightarrow> c)
     | None \<Rightarrow> c)"

definition unregister :: "'m Serde \<Rightarrow> str \<Rightarrow> ('w, 'm) Tell \<Rightarrow> ('w, 'm) Tell" where
  "unregister sd key c =
    (let sp = tl_super_props c in
     case sd_remove sd key (sp_map sp) of
       Some m \<Rightarrow> c\<lparr>tl_super_props := rebuild sd (sp\<lparr>sp_map := m\<rparr>)\<rparr>
     | None \<Rightarrow> c)"

definition super_fragment :: "('w, 'm) Tell \<Rightarrow> bytes option" where
  "super_fragment c =
    (if sp_fragment (tl_super_props c) = [] then None else Some (sp_fragment (tl_super_props c)))"

definition reset_session :: "bytes \<Rightarrow> ('w, 'm) Tell \<Rightarrow> ('w, 'm) Tell" where
  "reset_session uuid c =
    (case tl_session_id c of
       Some _ \<Rightarrow> c\<lparr>tl_session_id := Some uuid\<rparr>
     | None \<Rightarrow> report_error (Validation ''session'' ''is disabled; call .enable_session() on the builder'') c)"

definition tell_dropped :: "('w, 'm) Tell \<Rightarrow> u64" where
  "tell_dropped c = metrics_dropped (tl_metrics c)"

definition tell_metrics :: "('w, 'm) Tell \<Rightarrow> 'w Metrics" where "tell_metrics c = tl_metrics c"
definition device_id :: "('w, 'm) Tell \<Rightarrow> bytes" where "device_id c = tl_device_id c"
definition read_session_id :: "('w, 'm) Tell \<Rightarrow> bytes option" where "read_session_id c = tl_session_id c"

subsection \<open>Queueing\<close>

definition try_send :: "WorkerMessage \<Rightarrow> ('w, 'm) Tell \<Rightarrow> (('w, 'm) Tell) option" where
  "try_send msg c =
    (if tl_connected c \<and> length (tl_channel c) < tl_capacity c
     then Some (c\<lparr>tl_channel := tl_channel c @ [msg]\<rparr>) else None)"

definition enqueue :: "WorkerMessage \<Rightarrow> ('w, 'm) Tell \<Rightarrow> bool \<times> ('w, 'm) Tell" where
  "enqueue msg c =
    (case try_send msg c of
       Some c \<Rightarrow> (True, if tl_queue_full c then c\<lparr>tl_queue_full := False\<rparr> else c)
     | None \<Rightarrow>
         let (dropped, m) = record_drop (tl_metrics c); c = c\<lparr>tl_metrics := m\<rparr> in
         (False, if \<not> tl_queue_full c then report_error (QueueFull dropped) (c\<lparr>tl_queue_full := True\<rparr>) else c))"

subsection \<open>Flush and close\<close>

text \<open>
  What became of the wait for room in the channel, at most \<open>close_timeout\<close>, and of the wait
  for the worker's answer, at most \<open>ACK_GRACE\<close> more.
\<close>

datatype send_outcome = Accepted | SendTimeout | SendDisconnected
datatype ack_outcome = Acked | AckTimeout | AckDropped

definition send_control :: "send_outcome \<Rightarrow> WorkerMessage \<Rightarrow> ('w, 'm) Tell \<Rightarrow> (TellError + unit) \<times> ('w, 'm) Tell" where
  "send_control out msg c =
    (case out of
       Accepted \<Rightarrow> (Inr (), c\<lparr>tl_channel := tl_channel c @ [msg]\<rparr>)
     | SendTimeout \<Rightarrow> (Inl (Network ''queue full: control message could not be enqueued''), c)
     | SendDisconnected \<Rightarrow> (Inl Closed, c))"

definition await_ack :: "ack_outcome \<Rightarrow> string \<Rightarrow> TellError + unit" where
  "await_ack ack what =
    (case ack of
       Acked \<Rightarrow> Inr ()
     | AckTimeout \<Rightarrow> Inl (Network (what @ '' timed out''))
     | AckDropped \<Rightarrow> Inl Closed)"

definition control :: "send_outcome \<Rightarrow> TellError + unit \<Rightarrow> WorkerMessage \<Rightarrow> ('w, 'm) Tell \<Rightarrow> (TellError + unit) \<times> ('w, 'm) Tell" where
  "control out answer msg c =
    (case send_control out msg c of
       (Inl e, c) \<Rightarrow> (Inl e, c)
     | (Inr _, c) \<Rightarrow> (answer, c))"

definition tell_flush :: "send_outcome \<Rightarrow> ack_outcome \<Rightarrow> nat \<Rightarrow> ('w, 'm) Tell \<Rightarrow> (TellError + unit) \<times> ('w, 'm) Tell" where
  "tell_flush out ack k c = control out (await_ack ack ''flush'') (FlushMsg k) c"

definition tell_close :: "send_outcome \<Rightarrow> ack_outcome \<Rightarrow> nat \<Rightarrow> ('w, 'm) Tell \<Rightarrow> (TellError + unit) \<times> ('w, 'm) Tell" where
  "tell_close out ack k c = control out (await_ack ack ''close'') (CloseMsg k) c"

text \<open>
  The blocking variants refuse to run inside a Tokio runtime, and wait for the answer without
  a limit: it is answered or dropped.
\<close>

definition send_control_blocking ::
  "bool \<Rightarrow> send_outcome \<Rightarrow> WorkerMessage \<Rightarrow> ('w, 'm) Tell \<Rightarrow> (TellError + unit) \<times> ('w, 'm) Tell" where
  "send_control_blocking in_runtime out msg c =
    (if in_runtime
     then (Inl (Configuration ''blocking flush/close called inside a Tokio runtime; use the async variant''), c)
     else send_control out msg c)"

definition control_blocking ::
  "bool \<Rightarrow> send_outcome \<Rightarrow> bool \<Rightarrow> WorkerMessage \<Rightarrow> ('w, 'm) Tell \<Rightarrow> (TellError + unit) \<times> ('w, 'm) Tell" where
  "control_blocking in_runtime out answered msg c =
    (case send_control_blocking in_runtime out msg c of
       (Inl e, c) \<Rightarrow> (Inl e, c)
     | (Inr _, c) \<Rightarrow> (if answered then Inr () else Inl Closed, c))"

definition flush_blocking ::
  "bool \<Rightarrow> send_outcome \<Rightarrow> bool \<Rightarrow> nat \<Rightarrow> ('w, 'm) Tell \<Rightarrow> (TellError + unit) \<times> ('w, 'm) Tell" where
  "flush_blocking in_runtime out answered k c = control_blocking in_runtime out answered (FlushMsg k) c"

definition close_blocking ::
  "bool \<Rightarrow> send_outcome \<Rightarrow> bool \<Rightarrow> nat \<Rightarrow> ('w, 'm) Tell \<Rightarrow> (TellError + unit) \<times> ('w, 'm) Tell" where
  "close_blocking in_runtime out answered k c = control_blocking in_runtime out answered (CloseMsg k) c"

subsection \<open>Events (\<open>client/events.rs\<close>)\<close>

text \<open>A literal like \<^verbatim>\<open>b"\"user_id\":"\<close>.\<close>

definition key_colon :: "string \<Rightarrow> bytes" where
  "key_colon name = [0x22] @ str_of name @ [0x22, 0x3A]"

definition event_payload :: "'m Serde \<Rightarrow> ('w, 'm) Tell \<Rightarrow> str \<Rightarrow> bytes option \<Rightarrow> bytes" where
  "event_payload sd c user_id props =
    json_finish (json_object (json_fragment
      (json_field json_new (key_colon ''user_id'') (sd_str sd user_id))
      (unwrap_or (super_fragment c) [])) props)"

definition queued :: "('w, 'm) Tell \<Rightarrow> u64 \<Rightarrow> EventType \<Rightarrow> bytes option \<Rightarrow> str option \<Rightarrow> bytes \<Rightarrow> QueuedEvent" where
  "queued c now event_type session_id event_name payload =
    \<lparr>qe_event_type = event_type, qe_timestamp = now, qe_device_id = tl_device_id c, qe_session_id = session_id,
     qe_event_name = event_name, qe_payload = Some payload\<rparr>"

definition track_inner ::
  "'m Serde \<Rightarrow> u64 \<Rightarrow> bytes option \<Rightarrow> str \<Rightarrow> str \<Rightarrow> payload_arg \<Rightarrow> ('w, 'm) Tell \<Rightarrow> bool \<times> ('w, 'm) Tell" where
  "track_inner sd now session_id user_id event_name properties c =
    (case validate_user_id user_id of
       Inl e \<Rightarrow> (True, report_error e c)
     | Inr _ \<Rightarrow>
         (case validate_event_name event_name of
            Inl e \<Rightarrow> (True, report_error e c)
          | Inr _ \<Rightarrow>
              let payload = event_payload sd c user_id (into_payload properties) in
              enqueue (EventMsg (queued c now Track session_id (Some event_name) payload)) c))"

definition try_track :: "'m Serde \<Rightarrow> u64 \<Rightarrow> str \<Rightarrow> str \<Rightarrow> payload_arg \<Rightarrow> ('w, 'm) Tell \<Rightarrow> bool \<times> ('w, 'm) Tell" where
  "try_track sd now user_id event_name properties c =
     track_inner sd now (tl_session_id c) user_id event_name properties c"

definition track :: "'m Serde \<Rightarrow> u64 \<Rightarrow> str \<Rightarrow> str \<Rightarrow> payload_arg \<Rightarrow> ('w, 'm) Tell \<Rightarrow> ('w, 'm) Tell" where
  "track sd now user_id event_name properties c = snd (try_track sd now user_id event_name properties c)"

definition track_static :: "'m Serde \<Rightarrow> u64 \<Rightarrow> str \<Rightarrow> str \<Rightarrow> payload_arg \<Rightarrow> ('w, 'm) Tell \<Rightarrow> ('w, 'm) Tell" where
  "track_static sd now user_id event_name properties c =
     snd (track_inner sd now (tl_session_id c) user_id event_name properties c)"

definition track_with_session ::
  "'m Serde \<Rightarrow> u64 \<Rightarrow> bytes \<Rightarrow> str \<Rightarrow> str \<Rightarrow> payload_arg \<Rightarrow> ('w, 'm) Tell \<Rightarrow> ('w, 'm) Tell" where
  "track_with_session sd now sid user_id event_name properties c =
     snd (track_inner sd now (Some sid) user_id event_name properties c)"

definition identify :: "'m Serde \<Rightarrow> u64 \<Rightarrow> str \<Rightarrow> payload_arg \<Rightarrow> ('w, 'm) Tell \<Rightarrow> ('w, 'm) Tell" where
  "identify sd now user_id traits c =
    (case validate_user_id user_id of
       Inl e \<Rightarrow> report_error e c
     | Inr _ \<Rightarrow>
         let payload = json_finish (json_object
           (json_field json_new (key_colon ''user_id'') (sd_str sd user_id)) (into_payload traits)) in
         snd (enqueue (EventMsg (queued c now Identify None None payload)) c))"

definition group :: "'m Serde \<Rightarrow> u64 \<Rightarrow> str \<Rightarrow> str \<Rightarrow> payload_arg \<Rightarrow> ('w, 'm) Tell \<Rightarrow> ('w, 'm) Tell" where
  "group sd now user_id group_id properties c =
    (case validate_user_id user_id of
       Inl e \<Rightarrow> report_error e c
     | Inr _ \<Rightarrow>
         if group_id = [] then report_error (Validation ''groupId'' ''is required'') c
         else
           let payload = json_finish (json_object (json_fragment
             (json_field (json_field json_new (key_colon ''group_id'') (sd_str sd group_id))
               (key_colon ''user_id'') (sd_str sd user_id))
             (unwrap_or (super_fragment c) [])) (into_payload properties)) in
           snd (enqueue (EventMsg (queued c now Group None None payload)) c))"

definition validate_revenue :: "str \<Rightarrow> f64 \<Rightarrow> str \<Rightarrow> str \<Rightarrow> TellError + unit" where
  "validate_revenue user_id amount currency order_id =
    (case validate_user_id user_id of
       Inl e \<Rightarrow> Inl e
     | Inr _ \<Rightarrow>
         if f64_le amount 0 then Inl (Validation ''amount'' ''must be positive'')
         else if currency = [] then Inl (Validation ''currency'' ''is required'')
         else if order_id = [] then Inl (Validation ''orderId'' ''is required'')
         else Inr ())"

definition revenue_inner ::
  "'m Serde \<Rightarrow> u64 \<Rightarrow> bytes option \<Rightarrow> str \<Rightarrow> f64 \<Rightarrow> str \<Rightarrow> str \<Rightarrow> payload_arg \<Rightarrow> ('w, 'm) Tell \<Rightarrow> ('w, 'm) Tell" where
  "revenue_inner sd now session_id user_id amount currency order_id properties c =
    (case validate_revenue user_id amount currency order_id of
       Inl e \<Rightarrow> report_error e c
     | Inr _ \<Rightarrow>
         let payload = json_finish (json_object (json_fragment
           (json_field (json_field (json_field (json_field json_new
             (key_colon ''user_id'') (sd_str sd user_id))
             (key_colon ''amount'') (sd_f64 sd amount))
             (key_colon ''currency'') (sd_str sd currency))
             (key_colon ''order_id'') (sd_str sd order_id))
           (unwrap_or (super_fragment c) [])) (into_payload properties)) in
         snd (enqueue (EventMsg (queued c now Track session_id (Some ORDER_COMPLETED) payload)) c))"

definition revenue ::
  "'m Serde \<Rightarrow> u64 \<Rightarrow> str \<Rightarrow> f64 \<Rightarrow> str \<Rightarrow> str \<Rightarrow> payload_arg \<Rightarrow> ('w, 'm) Tell \<Rightarrow> ('w, 'm) Tell" where
  "revenue sd now user_id amount currency order_id properties c =
     revenue_inner sd now (tl_session_id c) user_id amount currency order_id properties c"

definition revenue_with_session ::
  "'m Serde \<Rightarrow> u64 \<Rightarrow> bytes \<Rightarrow> str \<Rightarrow> f64 \<Rightarrow> str \<Rightarrow> str \<Rightarrow> payload_arg \<Rightarrow> ('w, 'm) Tell \<Rightarrow> ('w, 'm) Tell" where
  "revenue_with_session sd now sid user_id amount currency order_id properties c =
     revenue_inner sd now (Some sid) user_id amount currency order_id properties c"

definition tell_alias :: "'m Serde \<Rightarrow> u64 \<Rightarrow> str \<Rightarrow> str \<Rightarrow> ('w, 'm) Tell \<Rightarrow> ('w, 'm) Tell" where
  "tell_alias sd now previous_id user_id c =
    (if previous_id = [] then report_error (Validation ''previousId'' ''is required'') c
     else
       (case validate_user_id user_id of
          Inl e \<Rightarrow> report_error e c
        | Inr _ \<Rightarrow>
            let payload = json_finish (json_field (json_field json_new
              (key_colon ''previous_id'') (sd_str sd previous_id))
              (key_colon ''user_id'') (sd_str sd user_id)) in
            snd (enqueue (EventMsg (queued c now Alias None None payload)) c)))"

subsection \<open>Logs (\<open>client/logs.rs\<close>)\<close>

definition try_log_inner ::
  "'m Serde \<Rightarrow> u64 \<Rightarrow> bytes option \<Rightarrow> LogLevel \<Rightarrow> str \<Rightarrow> str option \<Rightarrow> str option \<Rightarrow> payload_arg \<Rightarrow>
   ('w, 'm) Tell \<Rightarrow> bool \<times> ('w, 'm) Tell" where
  "try_log_inner sd now session_id level message component service data c =
    (case validate_log_message message of
       Inl e \<Rightarrow> (True, report_error e c)
     | Inr _ \<Rightarrow>
         let service = (case service of Some s \<Rightarrow> if s = [] then None else Some s | None \<Rightarrow> None);
             payload = json_finish (json_object
               (json_field json_new (key_colon ''message'') (sd_str sd message)) (into_payload data)) in
         enqueue (LogMsg \<lparr>ql_level = level, ql_timestamp = now, ql_session_id = session_id,
           ql_component = component, ql_service = service, ql_payload = Some payload\<rparr>) c)"

definition try_log_with_service ::
  "'m Serde \<Rightarrow> u64 \<Rightarrow> LogLevel \<Rightarrow> str \<Rightarrow> str option \<Rightarrow> str option \<Rightarrow> payload_arg \<Rightarrow> ('w, 'm) Tell \<Rightarrow> bool \<times> ('w, 'm) Tell" where
  "try_log_with_service sd now level message component service data c =
     try_log_inner sd now (tl_session_id c) level message component service data c"

definition try_log ::
  "'m Serde \<Rightarrow> u64 \<Rightarrow> LogLevel \<Rightarrow> str \<Rightarrow> str option \<Rightarrow> payload_arg \<Rightarrow> ('w, 'm) Tell \<Rightarrow> bool \<times> ('w, 'm) Tell" where
  "try_log sd now level message component data c = try_log_with_service sd now level message component None data c"

definition log_with_session ::
  "'m Serde \<Rightarrow> u64 \<Rightarrow> bytes \<Rightarrow> LogLevel \<Rightarrow> str \<Rightarrow> str option \<Rightarrow> payload_arg \<Rightarrow> ('w, 'm) Tell \<Rightarrow> bool \<times> ('w, 'm) Tell" where
  "log_with_session sd now sid level message component data c =
     try_log_inner sd now (Some sid) level message component None data c"

definition log_with_service ::
  "'m Serde \<Rightarrow> u64 \<Rightarrow> LogLevel \<Rightarrow> str \<Rightarrow> str option \<Rightarrow> str option \<Rightarrow> payload_arg \<Rightarrow> ('w, 'm) Tell \<Rightarrow> ('w, 'm) Tell" where
  "log_with_service sd now level message component service data c =
     snd (try_log_with_service sd now level message component service data c)"

definition tell_log ::
  "'m Serde \<Rightarrow> u64 \<Rightarrow> LogLevel \<Rightarrow> str \<Rightarrow> str option \<Rightarrow> payload_arg \<Rightarrow> ('w, 'm) Tell \<Rightarrow> ('w, 'm) Tell" where
  "tell_log sd now level message component data c = snd (try_log sd now level message component data c)"

type_synonym ('w, 'm) logger = "'m Serde \<Rightarrow> u64 \<Rightarrow> str \<Rightarrow> str option \<Rightarrow> payload_arg \<Rightarrow> ('w, 'm) Tell \<Rightarrow> ('w, 'm) Tell"

definition log_emergency :: "('w, 'm) logger" where "log_emergency sd now = tell_log sd now Emergency"
definition log_alert :: "('w, 'm) logger" where "log_alert sd now = tell_log sd now Alert"
definition log_critical :: "('w, 'm) logger" where "log_critical sd now = tell_log sd now Critical"
definition log_error :: "('w, 'm) logger" where "log_error sd now = tell_log sd now Error"
definition log_warning :: "('w, 'm) logger" where "log_warning sd now = tell_log sd now Warning"
definition log_notice :: "('w, 'm) logger" where "log_notice sd now = tell_log sd now Notice"
definition log_info :: "('w, 'm) logger" where "log_info sd now = tell_log sd now Info"
definition log_debug :: "('w, 'm) logger" where "log_debug sd now = tell_log sd now Debug"
definition log_trace :: "('w, 'm) logger" where "log_trace sd now = tell_log sd now Trace"

subsection \<open>Metrics (\<open>client/metrics.rs\<close>)\<close>

type_synonym labels = "(str \<times> str) list"

definition static_labels :: "labels \<Rightarrow> labels" where "static_labels labels = map (\<lambda>(k, v). (k, v)) labels"
definition dyn_labels :: "labels \<Rightarrow> labels" where "dyn_labels labels = map (\<lambda>(k, v). (k, v)) labels"

definition send_metric ::
  "u64 \<Rightarrow> MetricType \<Rightarrow> str \<Rightarrow> f64 \<Rightarrow> labels \<Rightarrow> Temporality \<Rightarrow> HistogramParams option \<Rightarrow> ('w, 'm) Tell \<Rightarrow> ('w, 'm) Tell" where
  "send_metric now metric_type name value labels temporality hist c =
    (if name = [] then report_error (Validation ''name'' ''metric name is required'') c
     else snd (enqueue (MetricMsg \<lparr>qm_metric_type = metric_type, qm_timestamp = now * 1000000, qm_name = name,
       qm_value = value, qm_labels = labels, qm_temporality = temporality, qm_histogram = hist\<rparr>) c))"

definition gauge :: "u64 \<Rightarrow> str \<Rightarrow> f64 \<Rightarrow> labels \<Rightarrow> ('w, 'm) Tell \<Rightarrow> ('w, 'm) Tell" where
  "gauge now name value labels c =
     send_metric now MetricType.Gauge name value (static_labels labels) Unspecified None c"

definition counter :: "u64 \<Rightarrow> str \<Rightarrow> f64 \<Rightarrow> labels \<Rightarrow> ('w, 'm) Tell \<Rightarrow> ('w, 'm) Tell" where
  "counter now name value labels c =
     send_metric now MetricType.Counter name value (static_labels labels) Delta None c"

definition counter_with_temporality ::
  "u64 \<Rightarrow> str \<Rightarrow> f64 \<Rightarrow> labels \<Rightarrow> Temporality \<Rightarrow> ('w, 'm) Tell \<Rightarrow> ('w, 'm) Tell" where
  "counter_with_temporality now name value labels temporality c =
     send_metric now MetricType.Counter name value (static_labels labels) temporality None c"

definition histogram :: "u64 \<Rightarrow> str \<Rightarrow> HistogramParams \<Rightarrow> labels \<Rightarrow> ('w, 'm) Tell \<Rightarrow> ('w, 'm) Tell" where
  "histogram now name hist labels c =
     send_metric now MetricType.Histogram name 0 (static_labels labels) Cumulative (Some hist) c"

definition gauge_dyn :: "u64 \<Rightarrow> str \<Rightarrow> f64 \<Rightarrow> labels \<Rightarrow> ('w, 'm) Tell \<Rightarrow> ('w, 'm) Tell" where
  "gauge_dyn now name value labels c =
     send_metric now MetricType.Gauge name value (dyn_labels labels) Unspecified None c"

definition counter_dyn :: "u64 \<Rightarrow> str \<Rightarrow> f64 \<Rightarrow> labels \<Rightarrow> ('w, 'm) Tell \<Rightarrow> ('w, 'm) Tell" where
  "counter_dyn now name value labels c =
     send_metric now MetricType.Counter name value (dyn_labels labels) Delta None c"

definition counter_dyn_with_temporality ::
  "u64 \<Rightarrow> str \<Rightarrow> f64 \<Rightarrow> labels \<Rightarrow> Temporality \<Rightarrow> ('w, 'm) Tell \<Rightarrow> ('w, 'm) Tell" where
  "counter_dyn_with_temporality now name value labels temporality c =
     send_metric now MetricType.Counter name value (dyn_labels labels) temporality None c"

end
