(* ===== verification/Client_Props.thy ===== *)
theory Client_Props
  imports Client
begin

section \<open>What the client queues\<close>

text \<open>
  The accounting of \<open>enqueue\<close> with a worker that takes messages at any time, the payload that
  \<open>track\<close> writes, and the shape of every message that any sequence of calls can queue.
\<close>

subsection \<open>Nothing is lost silently\<close>

text \<open>
  Clients send, the worker takes, and at some point it goes away. The run keeps the messages
  that were accepted, those the worker took, and the answers of \<open>enqueue\<close>.
\<close>

datatype chan_op = Enqueue WorkerMessage | Take nat | Disconnect

record ('w, 'm) chan =
  ch_client :: "('w, 'm) Tell"
  ch_accepted :: "WorkerMessage list"
  ch_taken :: "WorkerMessage list"
  ch_answers :: "bool list"

fun chan_step :: "chan_op \<Rightarrow> ('w, 'm) chan \<Rightarrow> ('w, 'm) chan" where
  "chan_step (Enqueue msg) s =
     (case enqueue msg (ch_client s) of (ok, c) \<Rightarrow>
        s\<lparr>ch_client := c, ch_answers := ch_answers s @ [ok],
          ch_accepted := ch_accepted s @ (if ok then [msg] else [])\<rparr>)"
| "chan_step (Take n) s =
     s\<lparr>ch_client := (ch_client s)\<lparr>tl_channel := drop n (tl_channel (ch_client s))\<rparr>,
       ch_taken := ch_taken s @ take n (tl_channel (ch_client s))\<rparr>"
| "chan_step Disconnect s = s\<lparr>ch_client := (ch_client s)\<lparr>tl_connected := False\<rparr>\<rparr>"

definition chan_start :: "('w, 'm) Tell \<Rightarrow> ('w, 'm) chan" where
  "chan_start c = \<lparr>ch_client = c, ch_accepted = [], ch_taken = [], ch_answers = []\<rparr>"

text \<open>The reports that the answers call for: one at the start of every run of drops.\<close>

fun episodes :: "bool \<Rightarrow> u64 \<Rightarrow> bool list \<Rightarrow> TellError list" where
  "episodes full d [] = []"
| "episodes full d (True # oks) = episodes False d oks"
| "episodes full d (False # oks) = (if full then [] else [QueueFull (d + 1)]) @ episodes True (d + 1) oks"

definition drops :: "bool list \<Rightarrow> nat" where
  "drops oks = length (filter Not oks)"

lemma episodes_snoc:
  "episodes full d (oks @ [ok]) = episodes full d oks @
     (if ok \<or> (if oks = [] then full else \<not> last oks) then [] else [QueueFull (d + of_nat (drops oks) + 1)])"
  by (induction full d oks rule: episodes.induct) (cases ok, auto simp: drops_def)+

definition fresh :: "('w, 'm) Tell \<Rightarrow> bool" where
  "fresh c \<longleftrightarrow> tl_channel c = [] \<and> tl_reports c = [] \<and> tl_on_error c \<and> \<not> tl_queue_full c \<and> tell_dropped c = 0"

definition chan_inv :: "('w, 'm) chan \<Rightarrow> bool" where
  "chan_inv s \<longleftrightarrow> ch_taken s @ tl_channel (ch_client s) = ch_accepted s \<and>
     length (tl_channel (ch_client s)) \<le> tl_capacity (ch_client s) \<and>
     tell_dropped (ch_client s) = of_nat (drops (ch_answers s)) \<and> tl_on_error (ch_client s) \<and>
     tl_reports (ch_client s) = episodes False 0 (ch_answers s) \<and>
     tl_queue_full (ch_client s) = (ch_answers s \<noteq> [] \<and> \<not> last (ch_answers s))"

lemma chan_step_inv: "chan_inv s \<Longrightarrow> chan_inv (chan_step op s)"
proof (cases op)
  case (Enqueue msg)
  moreover assume "chan_inv s"
  ultimately show ?thesis
    by (auto simp: chan_inv_def enqueue_def try_send_def Let_def record_drop_def report_error_def tell_dropped_def
        metrics_dropped_def episodes_snoc drops_def split: if_splits)
qed (auto simp: chan_inv_def tell_dropped_def)

text \<open>
  C23: no message is lost silently. However sends and the worker's receives interleave, and
  also after the worker has gone, every message is either accepted, and then taken by the
  worker or still in the channel, in order and once, or refused and counted by \<open>dropped\<close>; the
  callback hears of each run of drops once, when it starts, with the count so far; and the
  channel never holds more than its capacity.
\<close>

theorem enqueue_accounts:
  assumes "fresh c" "s = fold chan_step ops (chan_start c)"
  shows "ch_taken s @ tl_channel (ch_client s) = ch_accepted s \<and>
    length (ch_accepted s) + drops (ch_answers s) = length (ch_answers s) \<and>
    tell_dropped (ch_client s) = of_nat (drops (ch_answers s)) \<and>
    tl_reports (ch_client s) = episodes False 0 (ch_answers s) \<and>
    length (tl_channel (ch_client s)) \<le> tl_capacity c"
proof -
  have start: "chan_inv (chan_start c)"
    using assms(1) by (simp add: fresh_def chan_inv_def chan_start_def drops_def)
  have inv: "chan_inv s \<and> tl_capacity (ch_client s) = tl_capacity c \<and>
      length (ch_accepted s) + drops (ch_answers s) = length (ch_answers s)"
    unfolding assms(2)
  proof (induction ops rule: rev_induct)
    case Nil
    then show ?case using start by (simp add: chan_start_def drops_def)
  next
    case (snoc op ops)
    let ?s = "fold chan_step ops (chan_start c)"
    have "chan_inv (chan_step op ?s)" using snoc chan_step_inv by blast
    moreover have "tl_capacity (ch_client (chan_step op ?s)) = tl_capacity c \<and>
        length (ch_accepted (chan_step op ?s)) + drops (ch_answers (chan_step op ?s)) = length (ch_answers (chan_step op ?s))"
      using snoc by (cases op) (auto simp: enqueue_def try_send_def Let_def record_drop_def report_error_def drops_def
          split: if_splits)
    ultimately show ?case by simp
  qed
  then show ?thesis by (simp add: chan_inv_def)
qed

definition sample_serde :: "(str \<times> bytes) list Serde" where
  "sample_serde = \<lparr>sd_empty = [], sd_extend = (\<lambda>m m'. filter (\<lambda>kv. fst kv \<notin> fst ` set m') m @ m'),
     sd_remove = (\<lambda>k m. if k \<in> fst ` set m then Some (filter (\<lambda>kv. fst kv \<noteq> k) m) else None),
     sd_to_vec = (\<lambda>m. Some (object_text (map (member_text id) m))), sd_from_slice = (\<lambda>_. None),
     sd_str = (\<lambda>s. [0x22] @ s @ [0x22]), sd_f64 = (\<lambda>_. [0x30])\<rparr>"

definition sample_client :: "(unit, (str \<times> bytes) list) Tell" where
  "sample_client = \<lparr>tl_device_id = zeros 16, tl_session_id = None,
     tl_super_props = \<lparr>sp_map = [], sp_fragment = []\<rparr>, tl_on_error = True, tl_reports = [], tl_channel = [],
     tl_capacity = 1, tl_connected = True, tl_close_timeout = 5, tl_metrics = metrics_new, tl_queue_full = False\<rparr>"

theorem enqueue_accounts_witness:
  "\<exists>s. s = fold chan_step [Enqueue (FlushMsg 1), Enqueue (FlushMsg 2), Enqueue (FlushMsg 3), Take 1, Enqueue (FlushMsg 4)]
      (chan_start sample_client) \<and>
    tell_dropped (ch_client s) = 2 \<and> tl_reports (ch_client s) = [QueueFull 1] \<and> ch_accepted s = [FlushMsg 1, FlushMsg 4]"
proof -
  let ?ops = "[Enqueue (FlushMsg 1), Enqueue (FlushMsg 2), Enqueue (FlushMsg 3), Take 1, Enqueue (FlushMsg 4)]"
  let ?s = "fold chan_step ?ops (chan_start sample_client)"
  have fresh: "fresh sample_client"
    by (simp add: fresh_def sample_client_def tell_dropped_def metrics_dropped_def metrics_new_def)
  have run: "ch_answers ?s = [True, False, False, True]" "ch_accepted ?s = [FlushMsg 1, FlushMsg 4]"
    by (simp_all add: chan_start_def sample_client_def enqueue_def try_send_def record_drop_def report_error_def
        metrics_new_def Let_def)
  show ?thesis
    using enqueue_accounts [OF fresh refl, of ?ops] run by (intro exI [of _ ?s]) (simp add: drops_def)
qed

subsection \<open>Payloads\<close>

text \<open>
  What the client relies on in \<open>serde_json\<close>: a map is written as an object over the texts of
  its members, none of them empty, and the empty map as the empty object.
\<close>

definition serde_ok :: "'m Serde \<Rightarrow> ('m \<Rightarrow> bytes list) \<Rightarrow> bool" where
  "serde_ok sd members \<longleftrightarrow> members (sd_empty sd) = [] \<and>
     (\<forall>m. sd_to_vec sd m = Some (object_text (members m)) \<and> [] \<notin> set (members m))"

text \<open>The fragment kept beside the map is the text of its members.\<close>

definition super_ok :: "('m \<Rightarrow> bytes list) \<Rightarrow> ('w, 'm) Tell \<Rightarrow> bool" where
  "super_ok members c \<longleftrightarrow>
     sp_fragment (tl_super_props c) = join_members (members (sp_map (tl_super_props c)))"

lemma rebuild_ok:
  assumes "serde_ok sd members"
  shows "sp_fragment (rebuild sd sp) = join_members (members (sp_map sp))" "sp_map (rebuild sd sp) = sp_map sp"
proof -
  have m: "sd_to_vec sd (sp_map sp) = Some (object_text (members (sp_map sp)))" "[] \<notin> set (members (sp_map sp))"
    using assms by (auto simp: serde_ok_def)
  from object_inner_text [OF m(2)] m(1) show "sp_fragment (rebuild sd sp) = join_members (members (sp_map sp))"
    by (simp add: rebuild_def unwrap_or_def)
  show "sp_map (rebuild sd sp) = sp_map sp" by (simp add: rebuild_def Let_def)
qed

lemma super_ok_kept:
  assumes "serde_ok sd members" "super_ok members c"
  shows "super_ok members (register sd p c)" "super_ok members (unregister sd k c)"
  using assms rebuild_ok [OF assms(1)]
  by (auto simp: super_ok_def register_def unregister_def Let_def split: option.split)

lemma super_ok_new:
  "serde_ok sd members \<Longrightarrow> tell_new sd config on_error u v spawned = Inr c \<Longrightarrow> super_ok members c"
  by (auto simp: tell_new_def super_ok_def serde_ok_def split: sum.splits)

text \<open>When the thread's runtime could not be built, the client exists and every message is refused.\<close>

lemma no_worker_refuses:
  assumes "tell_new sd config on_error u v (spawn_worker False (Inr ()) (Inl e)) = Inr c"
  shows "fst (enqueue msg c) = False \<and> tl_reports c = (if on_error then [IoError e] else [])"
  using assms by (auto simp: tell_new_def spawn_worker_def spawn_dedicated_thread_def enqueue_def try_send_def Let_def
      split: prod.split)

lemma fragment_eq: "super_ok members c \<Longrightarrow> unwrap_or (super_fragment c) [] = join_members (members (sp_map (tl_super_props c)))"
  by (simp add: super_fragment_def super_ok_def unwrap_or_def)

lemma field_fragment_object:
  assumes "json_rep b ms" "serde_ok sd members" "super_ok members c"
  shows "json_finish (json_object (json_fragment b (unwrap_or (super_fragment c) []))
      (into_payload (PProps (add_all esc kvs)))) =
    object_text (ms @ members (sp_map (tl_super_props c)) @ map (member_text esc) kvs)"
proof -
  let ?xs = "members (sp_map (tl_super_props c))" and ?ys = "map (member_text esc) kvs"
  have "[] \<notin> set ?xs" using assms(2) by (simp add: serde_ok_def)
  from json_fragment_rep [OF assms(1) this] have "json_rep (json_fragment b (join_members ?xs)) (ms @ ?xs)" .
  from json_object_rep [OF this member_text_not_Nil, of esc kvs] show ?thesis
    using json_finish_rep props_finish_rep [OF add_all_rep [of esc kvs]] fragment_eq [OF assms(3)]
    by simp
qed

lemma user_id_field: "json_rep (json_field json_new (key_colon name) v) [key_colon name @ v]"
  using json_field_rep [OF json_new_rep, of "key_colon name" v] by (simp add: key_colon_def)

lemma track_queues:
  assumes "serde_ok sd members" "super_ok members c" "user_id \<noteq> []" "name \<noteq> []" "length name \<le> 256"
    and "tl_connected c" "length (tl_channel c) < tl_capacity c"
  shows "try_track sd now user_id name (PProps (add_all esc kvs)) c =
    (True, c\<lparr>tl_channel := tl_channel c @ [EventMsg
       \<lparr>qe_event_type = Track, qe_timestamp = now, qe_device_id = tl_device_id c, qe_session_id = tl_session_id c,
        qe_event_name = Some name, qe_payload = Some (object_text ((key_colon ''user_id'' @ sd_str sd user_id) #
          members (sp_map (tl_super_props c)) @ map (member_text esc) kvs))\<rparr>], tl_queue_full := False\<rparr>)"
  using assms(3-7) field_fragment_object [OF user_id_field assms(1,2), of "''user_id''" "sd_str sd user_id" esc kvs]
  by (simp add: try_track_def track_inner_def validate_user_id_def validate_event_name_def event_payload_def
      queued_def enqueue_def try_send_def Let_def)

text \<open>
  A valid \<open>track\<close> with room in the channel queues one event. Its payload is one object:
  the user id, then the super properties, then the caller's properties, each in its own order.
  A key both give is there twice, the caller's last.
\<close>

theorem track_queues_payload:
  assumes "serde_ok sd members" "super_ok members c" "user_id \<noteq> []" "name \<noteq> []" "length name \<le> 256"
    and "tl_connected c" "length (tl_channel c) < tl_capacity c"
  shows "try_track sd now user_id name (PProps (add_all esc kvs)) c =
    (True, c\<lparr>tl_channel := tl_channel c @ [EventMsg
       \<lparr>qe_event_type = Track, qe_timestamp = now, qe_device_id = tl_device_id c, qe_session_id = tl_session_id c,
        qe_event_name = Some name, qe_payload = Some (object_text ((key_colon ''user_id'' @ sd_str sd user_id) #
          members (sp_map (tl_super_props c)) @ map (member_text esc) kvs))\<rparr>], tl_queue_full := False\<rparr>)"
  by (rule track_queues [OF assms])

lemma sample_serde_ok: "serde_ok sample_serde (map (member_text id))"
  by (auto simp: serde_ok_def sample_serde_def member_text_def)

theorem track_queues_payload_witness:
  "\<exists>c. try_track sample_serde 5 [117] [80] (PProps (add_all id [([97], [49])])) sample_client = (True, c) \<and>
    map (\<lambda>m. case m of EventMsg e \<Rightarrow> qe_payload e | _ \<Rightarrow> None) (tl_channel c) =
      [Some (object_text [key_colon ''user_id'' @ [0x22, 117, 0x22], [0x22, 97, 0x22, 0x3A, 49]])]"
  by (subst track_queues_payload [OF sample_serde_ok])
    (simp_all add: super_ok_def sample_client_def, simp add: sample_serde_def member_text_def key_text_def)

text \<open>
  An amount that is not a number passes the check, which only refuses amounts that compare
  below or equal to zero.
\<close>

theorem revenue_accepts_nan:
  "user_id \<noteq> [] \<Longrightarrow> currency \<noteq> [] \<Longrightarrow> order_id \<noteq> [] \<Longrightarrow> is_nan amount \<Longrightarrow>
   validate_revenue user_id amount currency order_id = Inr ()"
  by (simp add: validate_revenue_def validate_user_id_def f64_le_def)

subsection \<open>The shape of every queued message\<close>

text \<open>One constructor per method of the client, with its arguments and readings.\<close>

datatype client_op =
    OpRegister payload_arg
  | OpUnregister str
  | OpResetSession bytes
  | OpTrack u64 str str payload_arg
  | OpTrackStatic u64 str str payload_arg
  | OpTrackWithSession u64 bytes str str payload_arg
  | OpIdentify u64 str payload_arg
  | OpGroup u64 str str payload_arg
  | OpRevenue u64 str f64 str str payload_arg
  | OpRevenueWithSession u64 bytes str f64 str str payload_arg
  | OpAlias u64 str str
  | OpLog u64 LogLevel str "str option" payload_arg
  | OpLogWithService u64 LogLevel str "str option" "str option" payload_arg
  | OpLogWithSession u64 bytes LogLevel str "str option" payload_arg
  | OpGauge u64 str f64 labels
  | OpCounter u64 str f64 labels
  | OpCounterWithTemporality u64 str f64 labels Temporality
  | OpHistogram u64 str HistogramParams labels
  | OpFlush send_outcome ack_outcome nat
  | OpClose send_outcome ack_outcome nat
  | OpFlushBlocking bool send_outcome bool nat
  | OpCloseBlocking bool send_outcome bool nat

fun apply_op :: "'m Serde \<Rightarrow> client_op \<Rightarrow> ('w, 'm) Tell \<Rightarrow> ('w, 'm) Tell" where
  "apply_op sd (OpRegister p) = register sd p"
| "apply_op sd (OpUnregister k) = unregister sd k"
| "apply_op sd (OpResetSession u) = reset_session u"
| "apply_op sd (OpTrack now u n p) = track sd now u n p"
| "apply_op sd (OpTrackStatic now u n p) = track_static sd now u n p"
| "apply_op sd (OpTrackWithSession now sid u n p) = track_with_session sd now sid u n p"
| "apply_op sd (OpIdentify now u p) = identify sd now u p"
| "apply_op sd (OpGroup now u g p) = group sd now u g p"
| "apply_op sd (OpRevenue now u a cur ord p) = revenue sd now u a cur ord p"
| "apply_op sd (OpRevenueWithSession now sid u a cur ord p) = revenue_with_session sd now sid u a cur ord p"
| "apply_op sd (OpAlias now prev u) = tell_alias sd now prev u"
| "apply_op sd (OpLog now l m cmp p) = tell_log sd now l m cmp p"
| "apply_op sd (OpLogWithService now l m cmp svc p) = log_with_service sd now l m cmp svc p"
| "apply_op sd (OpLogWithSession now sid l m cmp p) = (\<lambda>c. snd (log_with_session sd now sid l m cmp p c))"
| "apply_op sd (OpGauge now n v ls) = gauge now n v ls"
| "apply_op sd (OpCounter now n v ls) = counter now n v ls"
| "apply_op sd (OpCounterWithTemporality now n v ls t) = counter_with_temporality now n v ls t"
| "apply_op sd (OpHistogram now n h ls) = histogram now n h ls"
| "apply_op sd (OpFlush out ack k) = (\<lambda>c. snd (tell_flush out ack k c))"
| "apply_op sd (OpClose out ack k) = (\<lambda>c. snd (tell_close out ack k c))"
| "apply_op sd (OpFlushBlocking rt out ans k) = (\<lambda>c. snd (flush_blocking rt out ans k c))"
| "apply_op sd (OpCloseBlocking rt out ans k) = (\<lambda>c. snd (close_blocking rt out ans k c))"

lemmas call_defs = track_def try_track_def track_static_def track_with_session_def revenue_def
  revenue_with_session_def tell_log_def try_log_def try_log_with_service_def log_with_service_def
  log_with_session_def gauge_def counter_def counter_with_temporality_def histogram_def tell_flush_def
  tell_close_def flush_blocking_def close_blocking_def

text \<open>Session ids are \<open>[u8; 16]\<close> in the code: fresh ones and those a caller passes.\<close>

fun op_ok :: "client_op \<Rightarrow> bool" where
  "op_ok (OpResetSession u) = (length u = 16)"
| "op_ok (OpTrackWithSession now sid u n p) = (length sid = 16)"
| "op_ok (OpRevenueWithSession now sid u a cur ord p) = (length sid = 16)"
| "op_ok (OpLogWithSession now sid l m cmp p) = (length sid = 16)"
| "op_ok _ = True"

definition id_ok :: "bytes option \<Rightarrow> bool" where
  "id_ok sid \<longleftrightarrow> (\<forall>x. sid = Some x \<longrightarrow> length x = 16)"

definition braced :: "bytes option \<Rightarrow> bool" where
  "braced p \<longleftrightarrow> (\<exists>xs. p = Some ([0x7B] @ xs @ [0x7D]))"

fun msg_ok :: "WorkerMessage \<Rightarrow> bool" where
  "msg_ok (EventMsg e) \<longleftrightarrow> qe_event_type e \<in> {Track, Identify, Group, Alias} \<and> length (qe_device_id e) = 16 \<and>
     id_ok (qe_session_id e) \<and> (qe_session_id e \<noteq> None \<longrightarrow> qe_event_type e = Track) \<and>
     (case qe_event_name e of None \<Rightarrow> qe_event_type e \<noteq> Track
      | Some n \<Rightarrow> qe_event_type e = Track \<and> n \<noteq> [] \<and> length n \<le> 256) \<and> braced (qe_payload e)"
| "msg_ok (LogMsg l) \<longleftrightarrow> id_ok (ql_session_id l) \<and> ql_service l \<noteq> Some [] \<and> braced (ql_payload l)"
| "msg_ok (MetricMsg m) \<longleftrightarrow> qm_name m \<noteq> []"
| "msg_ok _ \<longleftrightarrow> True"

definition client_ok :: "('w, 'm) Tell \<Rightarrow> bool" where
  "client_ok c \<longleftrightarrow> length (tl_device_id c) = 16 \<and> id_ok (tl_session_id c) \<and> list_all msg_ok (tl_channel c)"

lemma enqueue_ok: "client_ok c \<Longrightarrow> msg_ok msg \<Longrightarrow> client_ok (snd (enqueue msg c))"
  by (auto simp: enqueue_def try_send_def client_ok_def report_error_def record_drop_def Let_def)

lemma report_ok: "client_ok c \<Longrightarrow> client_ok (report_error e c)"
  by (simp add: client_ok_def report_error_def)

lemma client_device: "client_ok c \<Longrightarrow> length (tl_device_id c) = 16"
  by (simp add: client_ok_def)

lemma opened:
  "\<exists>xs. json_new = [0x7B] @ xs" "\<exists>xs. b = [0x7B] @ xs \<Longrightarrow> \<exists>xs. json_field b k v = [0x7B] @ xs"
  "\<exists>xs. b = [0x7B] @ xs \<Longrightarrow> \<exists>xs. json_fragment b fr = [0x7B] @ xs"
  "\<exists>xs. b = [0x7B] @ xs \<Longrightarrow> \<exists>xs. json_object b obj = [0x7B] @ xs"
  by (auto simp: json_new_def json_field_def json_fragment_def json_object_def json_separator_def split: option.split)

lemma braced_finish: "\<exists>xs. b = [0x7B] @ xs \<Longrightarrow> braced (Some (json_finish b))"
  by (auto simp: braced_def json_finish_def)

lemmas payload_intros = braced_finish opened(2-4) opened(1)

lemma name_ok: "validate_event_name n = Inr x \<Longrightarrow> n \<noteq> [] \<and> length n \<le> 256"
  by (auto simp: validate_event_name_def split: if_splits)

lemma track_inner_ok: "client_ok c \<Longrightarrow> id_ok sid \<Longrightarrow> client_ok (snd (track_inner sd now sid u n p c))"
  by (auto simp: track_inner_def report_ok queued_def event_payload_def Let_def split: sum.split
      intro!: enqueue_ok payload_intros dest: name_ok simp: client_device)

lemma order_name: "ORDER_COMPLETED \<noteq> []" "length ORDER_COMPLETED \<le> 256"
  by (simp_all add: ORDER_COMPLETED_def str_of_def)

lemma revenue_inner_ok: "client_ok c \<Longrightarrow> id_ok sid \<Longrightarrow> client_ok (snd (True, revenue_inner sd now sid u a cur ord p c))"
  by (auto simp: revenue_inner_def report_ok queued_def Let_def order_name split: sum.split
      intro!: enqueue_ok payload_intros simp: client_device)

lemma identity_ok:
  assumes "client_ok c"
  shows "client_ok (identify sd now u p c)" "client_ok (group sd now u g p c)" "client_ok (tell_alias sd now prev u c)"
  using assms
  by (auto simp: identify_def group_def tell_alias_def report_ok queued_def Let_def id_ok_def split: sum.split
      intro!: enqueue_ok payload_intros simp: client_device)

lemma log_inner_ok: "client_ok c \<Longrightarrow> id_ok sid \<Longrightarrow> client_ok (snd (try_log_inner sd now sid l m cmp svc p c))"
  by (auto simp: try_log_inner_def report_ok Let_def split: sum.split option.split intro!: enqueue_ok payload_intros)

lemma metric_ok: "client_ok c \<Longrightarrow> client_ok (send_metric now t n v ls temp h c)"
  by (auto simp: send_metric_def report_ok intro!: enqueue_ok)

lemma control_ok:
  assumes "client_ok c" "msg_ok msg"
  shows "client_ok (snd (control out ans msg c))" "client_ok (snd (control_blocking rt out answered msg c))"
  using assms
  by (auto simp: control_def control_blocking_def send_control_def send_control_blocking_def client_ok_def
      split: send_outcome.split sum.split)

lemma apply_op_ok:
  assumes "client_ok c" "op_ok op"
  shows "client_ok (apply_op sd op c)"
proof -
  have sid: "id_ok (tl_session_id c)" using assms(1) by (simp add: client_ok_def)
  have super: "client_ok (register sd p c)" "client_ok (unregister sd k c)" for p k
    using assms(1) by (auto simp: client_ok_def register_def unregister_def Let_def split: option.split)
  have reset: "length u = 16 \<Longrightarrow> client_ok (reset_session u c)" for u
    using assms(1) by (auto simp: reset_session_def client_ok_def report_error_def id_ok_def split: option.split)
  have some: "length x = 16 \<Longrightarrow> id_ok (Some x)" for x by (simp add: id_ok_def)
  note intros = super reset sid some assms(1) track_inner_ok identity_ok log_inner_ok metric_ok control_ok
    revenue_inner_ok [unfolded snd_conv]
  show ?thesis
    using assms(2)
    by (cases op) (simp_all add: intros call_defs)
qed

text \<open>
  C20: every message any sequence of calls puts into the channel is well-formed. An event has
  a 16-byte device id, a 16-byte session id at most on a track, a name of 1 to 256 bytes
  exactly when it is a track, and a payload in braces; a log has no empty service and a
  payload in braces; a metric has a name.
\<close>

theorem messages_well_formed:
  assumes "tell_new sd config on_error session_uuid device_uuid (spawn_worker in_runtime thread runtime) = Inr c"
    and "length session_uuid = 16" "length device_uuid = 16" "list_all op_ok ops"
  shows "list_all msg_ok (tl_channel (fold (apply_op sd) ops c))"
proof -
  have start: "client_ok c"
    using assms(1-3) by (auto simp: tell_new_def client_ok_def id_ok_def split: sum.splits if_splits)
  have "client_ok (fold (apply_op sd) ops c)"
    using assms(4) start by (induction ops arbitrary: c) (simp_all add: apply_op_ok)
  then show ?thesis by (simp add: client_ok_def)
qed

theorem messages_well_formed_witness:
  "\<exists>c :: (unit, (str \<times> bytes) list) Tell.
    tell_new sample_serde sample_config True (zeros 16) (zeros 16)
      (spawn_worker True (Inr ()) (Inr ())) = Inr c \<and>
    list_all msg_ok (tl_channel (fold (apply_op sample_serde)
      [OpTrack 5 [117] [80] PUnit, OpLog 6 Info [104] None PUnit] c)) \<and>
    length (tl_channel (fold (apply_op sample_serde) [OpTrack 5 [117] [80] PUnit, OpLog 6 Info [104] None PUnit] c)) = 2"
proof -
  let ?ops = "[OpTrack 5 [117] [80] PUnit, OpLog 6 Info [104] None PUnit]"
  obtain c :: "(unit, (str \<times> bytes) list) Tell" where
    c: "tell_new sample_serde sample_config True (zeros 16) (zeros 16)
      (spawn_worker True (Inr ()) (Inr ())) = Inr c"
    by (simp add: tell_new_def spawn_worker_def)
  have "list_all msg_ok (tl_channel (fold (apply_op sample_serde) ?ops c))"
    by (rule messages_well_formed [OF c]) simp_all
  moreover have "length (tl_channel (fold (apply_op sample_serde) ?ops c)) = 2"
    using c by (auto simp: tell_new_def spawn_worker_def track_def try_track_def track_inner_def validate_user_id_def validate_event_name_def
        enqueue_def try_send_def sample_config_def tell_log_def try_log_def try_log_with_service_def try_log_inner_def
        validate_log_message_def Let_def)
  ultimately show ?thesis using c by blast
qed

subsection \<open>Sessions\<close>

fun msg_session :: "WorkerMessage \<Rightarrow> bytes option" where
  "msg_session (EventMsg e) = qe_session_id e"
| "msg_session (LogMsg l) = ql_session_id l"
| "msg_session _ = None"

text \<open>The session a call stamps, given the one in force, and the one in force after the call.\<close>

fun stamped :: "client_op \<Rightarrow> bytes option \<Rightarrow> bytes option" where
  "stamped (OpTrack now u n p) cur = cur"
| "stamped (OpTrackStatic now u n p) cur = cur"
| "stamped (OpTrackWithSession now sid u n p) cur = Some sid"
| "stamped (OpRevenue now u a c oid p) cur = cur"
| "stamped (OpRevenueWithSession now sid u a c oid p) cur = Some sid"
| "stamped (OpLog now l m cmp p) cur = cur"
| "stamped (OpLogWithService now l m cmp svc p) cur = cur"
| "stamped (OpLogWithSession now sid l m cmp p) cur = Some sid"
| "stamped _ cur = None"

fun session_after :: "client_op \<Rightarrow> bytes option \<Rightarrow> bytes option" where
  "session_after (OpResetSession uuid) cur = map_option (\<lambda>_. uuid) cur"
| "session_after _ cur = cur"

definition adds_only :: "(WorkerMessage \<Rightarrow> bool) \<Rightarrow> ('w, 'm) Tell \<Rightarrow> ('w, 'm) Tell \<Rightarrow> bool" where
  "adds_only P c c' \<longleftrightarrow> (\<forall>m. tl_channel c' = tl_channel c @ [m] \<longrightarrow> P m)"

lemma adds_enqueue: "P msg \<Longrightarrow> adds_only P c (snd (enqueue msg c))"
  by (auto simp: adds_only_def enqueue_def try_send_def record_drop_def report_error_def Let_def)

lemma adds_quiet [simp]: "adds_only P c c" "adds_only P c (report_error e c)"
  by (simp_all add: adds_only_def report_error_def)

lemma adds_inner:
  "adds_only (\<lambda>m. msg_session m = sid) c (snd (track_inner sd now sid u n p c))"
  "adds_only (\<lambda>m. msg_session m = None) c (identify sd now u p c)"
  "adds_only (\<lambda>m. msg_session m = None) c (group sd now u g p c)"
  "adds_only (\<lambda>m. msg_session m = sid) c (revenue_inner sd now sid u a cur oid p c)"
  "adds_only (\<lambda>m. msg_session m = None) c (tell_alias sd now prev u c)"
  "adds_only (\<lambda>m. msg_session m = sid) c (snd (try_log_inner sd now sid l m cmp svc p c))"
  "adds_only (\<lambda>m. msg_session m = None) c (send_metric now t n v ls temp h c)"
  by (auto simp: track_inner_def identify_def group_def revenue_inner_def tell_alias_def try_log_inner_def send_metric_def
      queued_def Let_def adds_enqueue split: sum.split option.split)

lemma adds_rest:
  "adds_only P c (register sd p c)" "adds_only P c (unregister sd k c)" "adds_only P c (reset_session x c)"
  "P msg \<Longrightarrow> adds_only P c (snd (control out ans msg c))" "P msg \<Longrightarrow> adds_only P c (snd (control_blocking rt out b msg c))"
  by (auto simp: adds_only_def register_def unregister_def reset_session_def report_error_def control_def control_blocking_def
      send_control_def send_control_blocking_def Let_def split: option.splits send_outcome.splits)

lemma call_stamps: "adds_only (\<lambda>m. msg_session m = stamped op (tl_session_id c)) c (apply_op sd op c)"
  by (cases op) (simp_all add: call_defs adds_inner adds_rest)

text \<open>What a client is apart from its channel and counts: session, super properties, device.\<close>

definition same_identity :: "('w, 'm) Tell \<Rightarrow> ('w, 'm) Tell \<Rightarrow> bool" where
  "same_identity c c' \<longleftrightarrow> tl_session_id c' = tl_session_id c \<and> tl_super_props c' = tl_super_props c \<and>
     tl_device_id c' = tl_device_id c"

lemma same_identity_calls:
  "same_identity c (snd (enqueue msg c))" "same_identity c (report_error e c)" "same_identity c c"
  "same_identity c (snd (control out ans msg c))" "same_identity c (snd (control_blocking rt out b msg c))"
  by (auto simp: same_identity_def enqueue_def try_send_def record_drop_def report_error_def Let_def control_def
      control_blocking_def send_control_def send_control_blocking_def split: send_outcome.splits)

lemma same_identity_inner:
  "same_identity c (snd (track_inner sd now sid u n p c))" "same_identity c (identify sd now u p c)"
  "same_identity c (group sd now u g p c)" "same_identity c (revenue_inner sd now sid u a cur oid p c)"
  "same_identity c (tell_alias sd now prev u c)" "same_identity c (snd (try_log_inner sd now sid l m cmp svc p c))"
  "same_identity c (send_metric now t n v ls temp h c)"
  by (auto simp: track_inner_def identify_def group_def revenue_inner_def tell_alias_def try_log_inner_def send_metric_def
      queued_def Let_def same_identity_calls split: sum.split option.split)

text \<open>The super properties in force after a call.\<close>

fun supers_after :: "'m Serde \<Rightarrow> client_op \<Rightarrow> 'm \<Rightarrow> 'm" where
  "supers_after sd (OpRegister p) m =
     (case Option.bind (into_payload p) (sd_from_slice sd) of Some m' \<Rightarrow> sd_extend sd m m' | None \<Rightarrow> m)"
| "supers_after sd (OpUnregister k) m = (case sd_remove sd k m of Some m' \<Rightarrow> m' | None \<Rightarrow> m)"
| "supers_after sd _ m = m"

lemma call_keeps:
  "(\<exists>p. op = OpRegister p) \<or> (\<exists>k. op = OpUnregister k) \<or> (\<exists>uuid. op = OpResetSession uuid) \<or>
   same_identity c (apply_op sd op c) \<and> session_after op = id \<and> supers_after sd op = id"
  by (cases op) (simp_all add: fun_eq_iff call_defs same_identity_calls same_identity_inner)

lemma identity_call:
  "tl_session_id (apply_op sd op c) = session_after op (tl_session_id c) \<and>
   sp_map (tl_super_props (apply_op sd op c)) = supers_after sd op (sp_map (tl_super_props c)) \<and>
   tl_device_id (apply_op sd op c) = tl_device_id c"
  using call_keeps [of op c sd]
  by (auto simp: same_identity_def reset_session_def report_error_def register_def unregister_def rebuild_def Let_def
      split: option.split)

lemma super_ok_call: "serde_ok sd members \<Longrightarrow> super_ok members c \<Longrightarrow> super_ok members (apply_op sd op c)"
  using call_keeps [of op c sd] super_ok_kept [of sd members c]
  by (auto simp: same_identity_def super_ok_def reset_session_def report_error_def split: option.split)

lemma identity_calls:
  fixes sd :: "'m Serde" and c0 :: "('w, 'm) Tell"
  assumes "tell_new sd config on_error u v spawned = Inr c0" "c = fold (apply_op sd) ops c0"
  shows "tl_session_id c = fold session_after ops (if tc_enable_session config then Some u else None)"
    "sp_map (tl_super_props c) = fold (supers_after sd) ops (sd_empty sd)" "tl_device_id c = v"
    "serde_ok sd members \<Longrightarrow> super_ok members c"
proof -
  have "tl_session_id (fold (apply_op sd) ops c') = fold session_after ops (tl_session_id c') \<and>
      sp_map (tl_super_props (fold (apply_op sd) ops c')) = fold (supers_after sd) ops (sp_map (tl_super_props c')) \<and>
      tl_device_id (fold (apply_op sd) ops c') = tl_device_id c'" for c' :: "('w, 'm) Tell"
    by (induction ops arbitrary: c') (simp_all add: identity_call)
  moreover have "tl_session_id c0 = (if tc_enable_session config then Some u else None)" "tl_device_id c0 = v"
    "sp_map (tl_super_props c0) = sd_empty sd"
    using assms(1) by (auto simp: tell_new_def split: sum.splits prod.splits)
  ultimately show "tl_session_id c = fold session_after ops (if tc_enable_session config then Some u else None)"
    "sp_map (tl_super_props c) = fold (supers_after sd) ops (sd_empty sd)" "tl_device_id c = v"
    using assms(2) by simp_all
  have "super_ok members c' \<Longrightarrow> super_ok members (fold (apply_op sd) ops c')" if "serde_ok sd members" for c' :: "('w, 'm) Tell"
    by (induction ops arbitrary: c') (simp_all add: super_ok_call [OF that])
  then show "serde_ok sd members \<Longrightarrow> super_ok members c"
    using super_ok_new [OF _ assms(1)] assms(2) by blast
qed

text \<open>
  C22: sessions. Whatever calls came before, a message a call queues carries the session it
  should: a track, a revenue or a log the one in force, or the one it was given; an identify, a
  group, an alias, a metric none. In force is the session of the last reset, or the one made at
  the start, and none at all when sessions are not enabled: then a reset changes nothing.
\<close>

theorem sessions_stamped:
  fixes sd :: "'m Serde" and c0 :: "('w, 'm) Tell"
  assumes "tell_new sd config on_error u v spawned = Inr c0" "c = fold (apply_op sd) ops c0"
    and "tl_channel (apply_op sd op c) = tl_channel c @ [m]"
  shows "msg_session m = stamped op (fold session_after ops (if tc_enable_session config then Some u else None))"
  using call_stamps [of op c sd] identity_calls(1) [OF assms(1,2)] assms(3) by (simp add: adds_only_def)

theorem sessions_stamped_witness:
  "\<exists>c0 m. tell_new sample_serde (sample_config\<lparr>tc_enable_session := True\<rparr>) True (replicate 16 1) (zeros 16) (spawn_worker True (Inr ()) (Inr ())) =
      Inr (c0 :: (unit, (str \<times> bytes) list) Tell) \<and>
    tl_channel (apply_op sample_serde (OpTrack 5 [117] [80] PUnit) (fold (apply_op sample_serde) [OpResetSession (replicate 16 2)] c0)) = [m] \<and>
    msg_session m = Some (replicate 16 2)"
proof -
  let ?config = "sample_config\<lparr>tc_enable_session := True\<rparr>"
  obtain c0 :: "(unit, (str \<times> bytes) list) Tell" where c0: "tell_new sample_serde ?config True (replicate 16 1) (zeros 16)
      (spawn_worker True (Inr ()) (Inr ())) = Inr c0"
    by (simp add: tell_new_def spawn_worker_def)
  let ?c = "fold (apply_op sample_serde) [OpResetSession (replicate 16 2)] c0"
  have ch: "tl_channel ?c = [] \<and> (\<exists>m. tl_channel (apply_op sample_serde (OpTrack 5 [117] [80] PUnit) ?c) = [m])"
    using c0 by (auto simp: tell_new_def spawn_worker_def sample_config_def reset_session_def track_def try_track_def track_inner_def
        validate_user_id_def validate_event_name_def queued_def enqueue_def try_send_def report_error_def Let_def split: option.splits)
  then obtain m where m: "tl_channel (apply_op sample_serde (OpTrack 5 [117] [80] PUnit) ?c) = tl_channel ?c @ [m]" by auto
  from sessions_stamped [OF c0 refl m] c0 m ch show ?thesis by auto
qed

text \<open>
  What a tracked event carries, whatever calls came before. A valid \<open>track\<close> with room in
  the channel queues one event with the client's device and the session in force. Its payload is
  one object: the user id, then the super properties as the registrations and removals so far
  left them, then the caller's properties, each in its own order. A key both give is there twice,
  the caller's last.
\<close>

theorem track_carries_history:
  fixes sd :: "'m Serde" and c0 :: "('w, 'm) Tell"
  assumes "serde_ok sd members" "tell_new sd config on_error u v spawned = Inr c0" "c = fold (apply_op sd) ops c0"
    and "user_id \<noteq> []" "name \<noteq> []" "length name \<le> 256" "tl_connected c" "length (tl_channel c) < tl_capacity c"
  shows "try_track sd now user_id name (PProps (add_all esc kvs)) c =
    (True, c\<lparr>tl_channel := tl_channel c @ [EventMsg
       \<lparr>qe_event_type = Track, qe_timestamp = now, qe_device_id = v,
        qe_session_id = fold session_after ops (if tc_enable_session config then Some u else None),
        qe_event_name = Some name, qe_payload = Some (object_text ((key_colon ''user_id'' @ sd_str sd user_id) #
          members (fold (supers_after sd) ops (sd_empty sd)) @ map (member_text esc) kvs))\<rparr>], tl_queue_full := False\<rparr>)"
  unfolding identity_calls(1-3) [OF assms(2,3), symmetric]
  by (rule track_queues [OF assms(1) identity_calls(4) [OF assms(2,3,1)] assms(4-8)])

theorem track_carries_history_witness:
  "\<exists>c0 m. tell_new sample_serde (sample_config\<lparr>tc_enable_session := True\<rparr>) True (replicate 16 1) (zeros 16) (spawn_worker True (Inr ()) (Inr ())) =
      Inr (c0 :: (unit, (str \<times> bytes) list) Tell) \<and>
    try_track sample_serde 5 [117] [80] (PProps (add_all id [([97], [49])])) (fold (apply_op sample_serde) [OpResetSession (replicate 16 2)] c0) = (True, m) \<and>
    map msg_session (tl_channel m) = [Some (replicate 16 2)]"
proof -
  let ?config = "sample_config\<lparr>tc_enable_session := True\<rparr>"
  obtain c0 :: "(unit, (str \<times> bytes) list) Tell" where c0: "tell_new sample_serde ?config True (replicate 16 1) (zeros 16)
      (spawn_worker True (Inr ()) (Inr ())) = Inr c0"
    by (simp add: tell_new_def spawn_worker_def)
  let ?c = "fold (apply_op sample_serde) [OpResetSession (replicate 16 2)] c0"
  have room: "tl_channel ?c = []" "tl_connected ?c" "length (tl_channel ?c) < tl_capacity ?c"
    using c0 by (auto simp: tell_new_def spawn_worker_def sample_config_def reset_session_def)
  from track_carries_history [OF sample_serde_ok c0 refl _ _ _ room(2,3), of "[117]" "[80]" 5 id "[([97], [49])]"] c0 room(1)
  show ?thesis by auto
qed

end
