(* ===== verification/Whole_System.thy ===== *)
theory Whole_System
  imports Worker_Account Client_Props
begin

section \<open>The whole system: clients and worker on one channel\<close>

text \<open>
  The joint state machine. The clients share one \<open>Inner\<close>, whose channel and instruments the
  worker holds too. A receive is not atomic: \<open>recv\<close> takes one message, each \<open>try_recv\<close> of the
  bulk drain another, and clients may move between any two of them. A flush touches neither
  channel nor instruments and never adds to a queue; it is one step, so a state in the middle of
  one, with some of the chunks gone, is not a state here. The points of a sample go into the
  queue in one step and are flushed in another. A request is answered in a step after the flush,
  each by itself, and after a shutdown the receiver is dropped in a step of its own. A call of a
  client is one step; the theory of \<open>enqueue\<close> opens up its races. Two fields are history
  only: the messages the channel ever accepted, and the entries that were ever put into the
  queues.
\<close>

datatype phase = Waiting | Draining nat Acks | Closing bool | Stopped bool

record ('w, 'm) System =
  sy_client :: "('w, 'm) Tell"
  sy_worker :: "'w WorkerState"
  sy_phase :: phase
  sy_accepted :: "WorkerMessage list"
  sy_fed :: Queues

definition put_client :: "('w, 'm) Tell \<Rightarrow> ('w, 'm) System \<Rightarrow> ('w, 'm) System" where
  "put_client c sy = sy\<lparr>sy_client := c,
     sy_worker := (sy_worker sy)\<lparr>wk_channel := tl_channel c, wk_metrics := tl_metrics c\<rparr>,
     sy_accepted := sy_accepted sy @ drop (length (tl_channel (sy_client sy))) (tl_channel c)\<rparr>"

definition put_worker :: "'w WorkerState \<Rightarrow> ('w, 'm) System \<Rightarrow> ('w, 'm) System" where
  "put_worker w sy = sy\<lparr>sy_worker := w,
     sy_client := (sy_client sy)\<lparr>tl_channel := wk_channel w, tl_metrics := wk_metrics w\<rparr>\<rparr>"

text \<open>The acknowledgement a request carries, by its id; every request has its own.\<close>

definition requests :: "WorkerMessage list \<Rightarrow> nat list" where
  "requests msgs = concat (map (\<lambda>m. case m of FlushMsg k \<Rightarrow> [k] | CloseMsg k \<Rightarrow> [k] | _ \<Rightarrow> []) msgs)"

lemma requests_simps [simp]:
  "requests [] = []" "requests (xs @ ys) = requests xs @ requests ys"
  by (simp_all add: requests_def)

text \<open>A wait for room ends with the message accepted only when there is room.\<close>

definition send_possible :: "send_outcome \<Rightarrow> nat \<Rightarrow> ('w, 'm) System \<Rightarrow> bool" where
  "send_possible out k sy \<longleftrightarrow>
     (case out of
        Accepted \<Rightarrow> tl_connected (sy_client sy) \<and> length (tl_channel (sy_client sy)) < tl_capacity (sy_client sy) \<and>
          k \<notin> set (requests (sy_accepted sy))
      | SendTimeout \<Rightarrow> True
      | SendDisconnected \<Rightarrow> \<not> tl_connected (sy_client sy))"

fun possible :: "client_op \<Rightarrow> ('w, 'm) System \<Rightarrow> bool" where
  "possible (OpFlush out ack k) sy = send_possible out k sy"
| "possible (OpClose out ack k) sy = send_possible out k sy"
| "possible (OpFlushBlocking rt out ans k) sy = (rt \<or> send_possible out k sy)"
| "possible (OpCloseBlocking rt out ans k) sy = (rt \<or> send_possible out k sy)"
| "possible _ sy = True"

definition system_start ::
  "'m Serde \<Rightarrow> TellConfig \<Rightarrow> bool \<Rightarrow> bytes \<Rightarrow> bytes \<Rightarrow> bool \<Rightarrow> outcome list \<Rightarrow> disk \<Rightarrow> BatchCounter \<Rightarrow> clock \<Rightarrow>
   ('w, 'm) System option" where
  "system_start sd config on_error session_uuid device_uuid in_runtime net d batch_id ck =
    (case tell_new sd config on_error session_uuid device_uuid (spawn_worker in_runtime (Inr ()) (Inr ())) of
       Inl _ \<Rightarrow> None
     | Inr c \<Rightarrow> map_option (\<lambda>w. \<lparr>sy_client = c, sy_worker = w, sy_phase = Waiting, sy_accepted = [], sy_fed = no_queues\<rparr>)
         (worker_start config on_error net d batch_id ck))"

inductive sys_step :: "'m Serde \<Rightarrow> ('w, 'm) System \<Rightarrow> ('w, 'm) System \<Rightarrow> bool" for sd where
  client_call: "wk_clients (sy_worker sy) \<Longrightarrow> op_ok op \<Longrightarrow> possible op sy \<Longrightarrow>
    sys_step sd sy (put_client (apply_op sd op (sy_client sy)) sy)"
| instrument: "metrics_dropped m = metrics_dropped (wk_metrics (sy_worker sy)) \<Longrightarrow>
    sys_step sd sy (put_worker ((sy_worker sy)\<lparr>wk_metrics := m\<rparr>) sy)"
| handles_dropped: "sys_step sd sy (put_worker ((sy_worker sy)\<lparr>wk_clients := False\<rparr>) sy)"
| first_message: "sy_phase sy = Waiting \<Longrightarrow> at_select (sy_worker sy) \<Longrightarrow> wk_channel (sy_worker sy) = msg # ch \<Longrightarrow>
    absorb (wk_queues (sy_worker sy), no_acks) msg = (q, acks) \<Longrightarrow>
    sys_step sd sy ((put_worker ((sy_worker sy)\<lparr>wk_channel := ch, wk_queues := q\<rparr>) sy)
      \<lparr>sy_phase := Draining (wk_drain_limit (sy_worker sy)) acks, sy_fed := absorbed [msg] (sy_fed sy)\<rparr>)"
| next_message: "sy_phase sy = Draining (Suc n) acks \<Longrightarrow> wk_channel (sy_worker sy) = msg # ch \<Longrightarrow>
    absorb (wk_queues (sy_worker sy), acks) msg = (q, acks') \<Longrightarrow>
    sys_step sd sy ((put_worker ((sy_worker sy)\<lparr>wk_channel := ch, wk_queues := q\<rparr>) sy)
      \<lparr>sy_phase := Draining n acks', sy_fed := absorbed [msg] (sy_fed sy)\<rparr>)"
| drained: "sy_phase sy = Draining n acks \<Longrightarrow> n = 0 \<or> wk_channel (sy_worker sy) = [] \<Longrightarrow>
    finish_recv deadline (wk_queues (sy_worker sy)) acks (sy_worker sy) = Some w \<Longrightarrow>
    sys_step sd sy ((put_worker w sy)\<lparr>sy_phase := (if ak_close acks = [] then Waiting else Closing (deadline \<noteq> None))\<rparr>)"
| answer: "wk_answering (sy_worker sy) \<noteq> [] \<Longrightarrow> sys_step sd sy (put_worker (answer_next (sy_worker sy)) sy)"
| all_gone: "sy_phase sy = Waiting \<Longrightarrow> at_select (sy_worker sy) \<Longrightarrow> wk_channel (sy_worker sy) = [] \<Longrightarrow> \<not> wk_clients (sy_worker sy) \<Longrightarrow>
    on_disconnect deadline (sy_worker sy) = Some w \<Longrightarrow>
    sys_step sd sy ((put_worker w sy)\<lparr>sy_phase := Closing (deadline \<noteq> None)\<rparr>)"
| tick_flush: "sy_phase sy = Waiting \<Longrightarrow> at_select (sy_worker sy) \<Longrightarrow> on_flush_tick (sy_worker sy) = Some w \<Longrightarrow>
    sys_step sd sy (put_worker w sy)"
| tick_resync: "sy_phase sy = Waiting \<Longrightarrow> at_select (sy_worker sy) \<Longrightarrow> sys_step sd sy (put_worker (on_resync_tick epoch_ms d (sy_worker sy)) sy)"
| tick_sample: "sy_phase sy = Waiting \<Longrightarrow> at_select (sy_worker sy) \<Longrightarrow>
    wk_queues (take_sample d r (sy_worker sy)) = feed x (wk_queues (sy_worker sy)) \<Longrightarrow>
    sys_step sd sy ((put_worker (take_sample d r (sy_worker sy)) sy)\<lparr>sy_fed := feed x (sy_fed sy)\<rparr>)"
| sample_flushed: "wk_sampled (sy_worker sy) \<noteq> None \<Longrightarrow> flush_sample (sy_worker sy) = Some w \<Longrightarrow>
    sys_step sd sy (put_worker w sy)"
| receiver_dropped: "sy_phase sy = Closing late \<Longrightarrow> wk_answering (sy_worker sy) = [] \<Longrightarrow>
    sys_step sd sy (sy\<lparr>sy_phase := Stopped late, sy_client := (sy_client sy)\<lparr>tl_connected := False\<rparr>\<rparr>)"

inductive sys_run :: "'m Serde \<Rightarrow> ('w, 'm) System \<Rightarrow> ('w, 'm) System \<Rightarrow> bool" for sd s0 where
  here: "sys_run sd s0 s0"
| then_step: "sys_run sd s0 s \<Longrightarrow> sys_step sd s s' \<Longrightarrow> sys_run sd s0 s'"

inductive_cases sys_stepE: "sys_step sd s s'"

lemma put_simps [simp]:
  "sy_client (put_client c sy) = c" "sy_phase (put_client c sy) = sy_phase sy" "sy_fed (put_client c sy) = sy_fed sy"
  "sy_worker (put_client c sy) = (sy_worker sy)\<lparr>wk_channel := tl_channel c, wk_metrics := tl_metrics c\<rparr>"
  "sy_worker (put_worker w sy) = w" "sy_phase (put_worker w sy) = sy_phase sy" "sy_fed (put_worker w sy) = sy_fed sy"
  "sy_client (put_worker w sy) = (sy_client sy)\<lparr>tl_channel := wk_channel w, tl_metrics := wk_metrics w\<rparr>"
  "sy_accepted (put_worker w sy) = sy_accepted sy"
  by (simp_all add: put_client_def put_worker_def)

text \<open>A sample only appends points, so the step for it can always be taken.\<close>

lemma sample_counters_appends: "\<exists>ps. snd (sample_counters ts cs out) = out @ ps"
proof (induction cs arbitrary: out)
  case (Cons c cs)
  obtain c' o1 where c: "counter_sample ts c out = (c', o1)" by (rule prod.exhaust)
  then obtain ps where "o1 = out @ ps" by (auto simp: counter_sample_def split: prod.splits)
  with Cons [of o1] c show ?case by (auto split: prod.splits)
qed simp

lemma fold_appends: "(\<And>x ys. \<exists>ps. f x ys = ys @ ps) \<Longrightarrow> \<exists>ps. fold f xs out = out @ ps"
proof (induction xs arbitrary: out)
  case (Cons x xs)
  obtain ps where "f x out = out @ ps" using Cons.prems by blast
  with Cons.IH [OF Cons.prems, of "f x out"] show ?case by auto
qed simp

lemma sample_instruments_feeds: "\<exists>x. snd (sample_instruments ck d w m q) = feed x q"
proof -
  obtain cs o1 where c: "sample_counters (now_ms ck d * 1000000) (me_counters m) (q_metrics q) = (cs, o1)" by (rule prod.exhaust)
  then obtain ps where 1: "o1 = q_metrics q @ ps" using sample_counters_appends [of _ "me_counters m" "q_metrics q"] by (metis snd_conv)
  obtain hs where 2: "fold (histogram_sample (now_ms ck d * 1000000)) (me_histograms m) o1 = o1 @ hs"
    using fold_appends [of "histogram_sample (now_ms ck d * 1000000)" "me_histograms m" o1] by (auto simp: histogram_sample_def)
  obtain gs where 3: "fold (gauge_sample (now_ms ck d * 1000000) w) (me_gauges m) (o1 @ hs) = (o1 @ hs) @ gs"
    using fold_appends [of "gauge_sample (now_ms ck d * 1000000) w" "me_gauges m" "o1 @ hs"] by (auto simp: gauge_sample_def)
  have "\<exists>ms. snd (sample_instruments ck d w m q) = q\<lparr>q_metrics := q_metrics q @ ms\<rparr>"
    using 1 2 3 c by (auto simp: sample_instruments_def metrics_sample_def Let_def intro: exI [of _ "[]"])
  then obtain ms where "snd (sample_instruments ck d w m q) = q\<lparr>q_metrics := q_metrics q @ ms\<rparr>" ..
  then show ?thesis by (intro exI [of _ "no_queues\<lparr>q_metrics := ms\<rparr>"]) (simp add: feed_def no_queues_def)
qed

lemma sample_feeds: "\<exists>x. wk_queues (take_sample d r w) = feed x (wk_queues w)"
  using sample_instruments_feeds [of "wk_clock w" d r "wk_metrics w" "wk_queues w"]
  by (auto simp: take_sample_def split: prod.split)

lemma take_sample_simps [simp]:
  "wk_sender (take_sample d r w) = wk_sender w" "wk_channel (take_sample d r w) = wk_channel w"
  "wk_drain_limit (take_sample d r w) = wk_drain_limit w" "wk_clients (take_sample d r w) = wk_clients w"
  "wk_acked (take_sample d r w) = wk_acked w" "wk_answering (take_sample d r w) = wk_answering w"
  by (simp_all add: take_sample_def split: prod.split)

lemma sample_held:
  "wk_queues (take_sample d r w) = feed x (wk_queues w) \<Longrightarrow> wk_sampled (take_sample d r w) = Some (length (q_metrics x))"
  by (auto simp: take_sample_def split: prod.splits)

subsection \<open>One call of a client\<close>

text \<open>A call puts at most one message into the channel, into a free slot; \<open>ks\<close> are its requests.\<close>

definition one_more :: "nat list \<Rightarrow> ('w, 'm) Tell \<Rightarrow> ('w, 'm) Tell \<Rightarrow> bool" where
  "one_more ks c c' \<longleftrightarrow> tl_capacity c' = tl_capacity c \<and> tl_connected c' = tl_connected c \<and>
     (tl_channel c' = tl_channel c \<or> (\<exists>m. tl_channel c' = tl_channel c @ [m] \<and> tl_connected c \<and>
        length (tl_channel c) < tl_capacity c \<and> requests [m] = ks))"

lemma one_more_quiet [simp]:
  "one_more ks c c" "one_more ks c (report_error e c)" "one_more ks c (c\<lparr>tl_super_props := sp\<rparr>)"
  "one_more ks c (c\<lparr>tl_session_id := sid\<rparr>)"
  by (simp_all add: one_more_def report_error_def)

lemma one_more_enqueue: "requests [msg] = ks \<Longrightarrow> one_more ks c (snd (enqueue msg c))"
  by (auto simp: one_more_def enqueue_def try_send_def record_drop_def report_error_def Let_def)

lemma requests_data [simp]:
  "requests [EventMsg e] = []" "requests [LogMsg l] = []" "requests [MetricMsg m] = []"
  "requests [FlushMsg k] = [k]" "requests [CloseMsg k] = [k]"
  by (simp_all add: requests_def)

lemma one_more_data:
  "one_more [] c (snd (track_inner sd now sid u n p c))" "one_more [] c (identify sd now u p c)"
  "one_more [] c (group sd now u g p c)" "one_more [] c (revenue_inner sd now sid u a cur ord p c)"
  "one_more [] c (tell_alias sd now prev u c)" "one_more [] c (snd (try_log_inner sd now sid l m cmp svc p c))"
  "one_more [] c (send_metric now t n v ls temp h c)" "one_more [] c (register sd p c)" "one_more [] c (unregister sd k c)"
  "one_more [] c (reset_session uuid c)"
  by (auto simp: track_inner_def identify_def group_def revenue_inner_def tell_alias_def try_log_inner_def send_metric_def
      register_def unregister_def reset_session_def Let_def one_more_enqueue split: sum.split option.split)

lemma one_more_control:
  assumes "send_possible out k sy" "c = sy_client sy" "msg = FlushMsg k \<or> msg = CloseMsg k"
  shows "one_more [k] c (snd (control out ans msg c))" "one_more [k] c (snd (control_blocking False out b msg c))"
  using assms
  by (auto simp: control_def control_blocking_def send_control_def send_control_blocking_def one_more_def send_possible_def
      split: send_outcome.splits)

lemma control_in_runtime: "control_blocking True out b msg c = (Inl (Configuration ''blocking flush/close called inside a Tokio runtime; use the async variant''), c)"
  by (simp add: control_blocking_def send_control_blocking_def)

fun call_request :: "client_op \<Rightarrow> nat list" where
  "call_request (OpFlush out ack k) = [k]"
| "call_request (OpClose out ack k) = [k]"
| "call_request (OpFlushBlocking rt out ans k) = [k]"
| "call_request (OpCloseBlocking rt out ans k) = [k]"
| "call_request _ = []"

lemma call_sends:
  assumes "possible op sy" "c = sy_client sy"
  shows "one_more (call_request op) c (apply_op sd op c)"
proof -
  have blocking: "one_more [k] c (snd (control_blocking rt out b msg c))"
    if "rt \<or> send_possible out k sy" "msg = FlushMsg k \<or> msg = CloseMsg k" for rt out b k msg
    using that one_more_control(2) [OF _ assms(2)] by (cases rt) (simp_all add: control_in_runtime)
  have waiting: "one_more [k] c (snd (control out ans msg c))"
    if "send_possible out k sy" "msg = FlushMsg k \<or> msg = CloseMsg k" for out k msg ans
    using that one_more_control(1) [OF _ assms(2)] by blast
  show ?thesis
    using assms(1) waiting blocking unfolding assms(2)
    by (cases op) (simp_all add: one_more_data call_defs)
qed

lemma call_fresh:
  assumes "possible op sy" "tl_channel (apply_op sd op (sy_client sy)) \<noteq> tl_channel (sy_client sy)"
  shows "set (call_request op) \<inter> set (requests (sy_accepted sy)) = {}"
  using assms
  by (cases op) (auto simp: send_possible_def tell_flush_def tell_close_def flush_blocking_def close_blocking_def
      control_def send_control_def control_blocking_def send_control_blocking_def split: send_outcome.splits if_splits)

subsection \<open>The invariant\<close>

fun pending :: "phase \<Rightarrow> nat list" where
  "pending (Draining n acks) = acks_order acks"
| "pending _ = []"

fun live :: "phase \<Rightarrow> bool" where
  "live Waiting = True"
| "live (Draining n acks) = True"
| "live _ = False"

text \<open>
  How much room the queues may take: a part of a batch, and one bulk drain; for metrics also the
  points of the sample that is being flushed, which the size of a batch does not bound.
\<close>

definition sampled_points :: "'w WorkerState \<Rightarrow> nat" where
  "sampled_points w = (case wk_sampled w of None \<Rightarrow> 0 | Some n \<Rightarrow> n)"

fun within :: "nat \<Rightarrow> nat \<Rightarrow> phase \<Rightarrow> nat \<Rightarrow> bool" where
  "within batch limit Waiting n = (n < batch)"
| "within batch limit (Draining left acks) n = (left \<le> limit \<and> n + left \<le> batch + limit)"
| "within batch limit _ n = True"

definition queues_within :: "('w, 'm) System \<Rightarrow> bool" where
  "queues_within sy \<longleftrightarrow> (let w = sy_worker sy; ok = \<lambda>more. within (sn_batch_size (wk_sender w) + more) (wk_drain_limit w) (sy_phase sy) in
     ok 0 (length (q_events (wk_queues w))) \<and> ok 0 (length (q_logs (wk_queues w))) \<and>
     ok (sampled_points w) (length (q_metrics (wk_queues w))))"

text \<open>A drain begins and goes on with nothing else under way, and a sample is flushed before anything else.\<close>

definition one_branch :: "('w, 'm) System \<Rightarrow> bool" where
  "one_branch sy \<longleftrightarrow> (\<forall>n acks. sy_phase sy = Draining n acks \<longrightarrow> at_select (sy_worker sy)) \<and>
     (wk_sampled (sy_worker sy) \<noteq> None \<longrightarrow> sy_phase sy = Waiting \<and> wk_answering (sy_worker sy) = []) \<and>
     (\<forall>l. sy_phase sy = Stopped l \<longrightarrow> wk_answering (sy_worker sy) = [])"

definition shared_ok :: "('w, 'm) System \<Rightarrow> bool" where
  "shared_ok sy \<longleftrightarrow> tl_channel (sy_client sy) = wk_channel (sy_worker sy) \<and> tl_metrics (sy_client sy) = wk_metrics (sy_worker sy) \<and>
     tl_capacity (sy_client sy) = wk_drain_limit (sy_worker sy) \<and>
     length (wk_channel (sy_worker sy)) \<le> wk_drain_limit (sy_worker sy) \<and>
     tl_connected (sy_client sy) = (\<forall>late. sy_phase sy \<noteq> Stopped late) \<and> client_ok (sy_client sy)"

definition worker_fine :: "('w, 'm) System \<Rightarrow> bool" where
  "worker_fine sy \<longleftrightarrow> (live (sy_phase sy) \<longrightarrow> base (wk_sender (sy_worker sy))) \<and> queues_within sy \<and> one_branch sy"

text \<open>The messages taken from the channel so far: what was accepted and is no longer in it.\<close>

definition taken :: "('w, 'm) System \<Rightarrow> WorkerMessage list" where
  "taken sy = take (length (sy_accepted sy) - length (wk_channel (sy_worker sy))) (sy_accepted sy)"

text \<open>The requests that were answered or are about to be.\<close>

definition answers :: "'w WorkerState \<Rightarrow> nat list" where
  "answers w = wk_acked w @ wk_answering w"

lemma answers_simps [simp]:
  "answers (answer_next w) = answers w" "answers (take_sample d r w) = answers w"
  "answers (w\<lparr>wk_channel := ch\<rparr>) = answers w" "answers (w\<lparr>wk_queues := q\<rparr>) = answers w"
  "answers (w\<lparr>wk_metrics := m\<rparr>) = answers w" "answers (w\<lparr>wk_clients := b\<rparr>) = answers w"
  "answers (on_resync_tick e n w) = answers w" "answers (w\<lparr>wk_running := b\<rparr>) = answers w"
  "answers (w\<lparr>wk_sender := s\<rparr>) = answers w" "answers (w\<lparr>wk_clock := c\<rparr>) = answers w"
  by (simp_all add: answers_def answer_next_def on_resync_tick_def)

lemma answer_next_simps [simp]:
  "wk_sender (answer_next w) = wk_sender w" "wk_channel (answer_next w) = wk_channel w"
  "wk_queues (answer_next w) = wk_queues w" "wk_metrics (answer_next w) = wk_metrics w"
  "wk_drain_limit (answer_next w) = wk_drain_limit w" "wk_clients (answer_next w) = wk_clients w"
  "wk_sampled (answer_next w) = wk_sampled w" "sampled_points (answer_next w) = sampled_points w"
  "wk_running (answer_next w) = wk_running w"
  by (simp_all add: answer_next_def sampled_points_def)

definition accounted :: "('w, 'm) System \<Rightarrow> bool" where
  "accounted sy \<longleftrightarrow> (\<exists>tk. sy_accepted sy = tk @ wk_channel (sy_worker sy) \<and> list_all msg_ok (sy_accepted sy) \<and>
     distinct (requests (sy_accepted sy)) \<and>
     mset (requests tk) = mset (answers (sy_worker sy)) + mset (pending (sy_phase sy)) \<and>
     q_events (sy_fed sy) = q_events (absorbed tk no_queues) \<and> q_logs (sy_fed sy) = q_logs (absorbed tk no_queues) \<and>
     subseq (q_metrics (absorbed tk no_queues)) (q_metrics (sy_fed sy)))"

definition sys_inv :: "('w, 'm) System \<Rightarrow> bool" where
  "sys_inv sy \<longleftrightarrow> shared_ok sy \<and> worker_fine sy \<and> accounted sy"

lemma taken_eq: "sy_accepted sy = tk @ wk_channel (sy_worker sy) \<Longrightarrow> taken sy = tk"
  by (simp add: taken_def)

lemma absorb_step: "absorb (q, a) msg = (absorbed [msg] q,
    \<lparr>ak_flush = ak_flush a @ (case msg of FlushMsg k \<Rightarrow> [k] | _ \<Rightarrow> []), ak_close = ak_close a @ (case msg of CloseMsg k \<Rightarrow> [k] | _ \<Rightarrow> [])\<rparr>)"
  using absorb_all [of "[msg]" q a] by (simp split: WorkerMessage.split)

lemma absorb_requests:
  "absorb (q, a) msg = (q', a') \<Longrightarrow> mset (acks_order a') = mset (acks_order a) + mset (requests [msg])"
  by (cases msg) (auto simp: acks_order_def)

lemma absorb_lengths:
  assumes "absorb (q, a) msg = (q', a')"
  shows "length (q_events q') \<le> Suc (length (q_events q))" "length (q_logs q') \<le> Suc (length (q_logs q))"
    "length (q_metrics q') \<le> Suc (length (q_metrics q))"
  using assms by (cases msg; auto)+

lemma absorbed_append:
  "q_events (absorbed (xs @ ys) q) = q_events (absorbed xs q) @ q_events (absorbed ys no_queues)"
  "q_logs (absorbed (xs @ ys) q) = q_logs (absorbed xs q) @ q_logs (absorbed ys no_queues)"
  "q_metrics (absorbed (xs @ ys) q) = q_metrics (absorbed xs q) @ q_metrics (absorbed ys no_queues)"
  "absorbed xs q = feed (absorbed xs no_queues) q"
  by (simp_all add: absorbed_def no_queues_def feed_def)

subsection \<open>Every step keeps it\<close>

text \<open>What the branches of the loop leave alone, and what they answer.\<close>

lemma branch_frame:
  "finish_recv dl q acks w = Some w' \<Longrightarrow> wk_channel w' = wk_channel w \<and> wk_drain_limit w' = wk_drain_limit w \<and>
    wk_metrics w' = wk_metrics w \<and> wk_clients w' = wk_clients w \<and> wk_sampled w' = wk_sampled w"
  "on_disconnect dl w = Some w' \<Longrightarrow> wk_channel w' = wk_channel w \<and> wk_drain_limit w' = wk_drain_limit w \<and>
    wk_metrics w' = wk_metrics w \<and> wk_clients w' = wk_clients w \<and> wk_sampled w' = wk_sampled w"
  "on_flush_tick w = Some w' \<Longrightarrow> wk_channel w' = wk_channel w \<and> wk_drain_limit w' = wk_drain_limit w \<and>
    wk_metrics w' = wk_metrics w \<and> wk_clients w' = wk_clients w \<and> answers w' = answers w \<and>
    wk_sampled w' = wk_sampled w \<and> wk_answering w' = wk_answering w"
  "flush_sample w = Some w' \<Longrightarrow> wk_channel w' = wk_channel w \<and> wk_drain_limit w' = wk_drain_limit w \<and>
    wk_metrics w' = wk_metrics w \<and> wk_clients w' = wk_clients w \<and> answers w' = answers w \<and> wk_sampled w' = None \<and>
    wk_answering w' = wk_answering w"
  by (auto simp: finish_recv_def on_disconnect_def on_flush_tick_def flush_sample_def answers_def Let_def bind_eq_Some_conv
      split: if_splits prod.splits)

lemma branch_live:
  assumes "base (wk_sender w)"
  shows "finish_recv dl q acks w = Some w' \<Longrightarrow> at_select w \<Longrightarrow> answers w' = answers w @ acks_order acks"
    "finish_recv dl q acks w = Some w' \<Longrightarrow> at_select w \<Longrightarrow> wk_answering w' = acks_order acks"
    "finish_recv dl q acks w = Some w' \<Longrightarrow> ak_close acks = [] \<Longrightarrow> base (wk_sender w') \<and>
      queues_below (sn_batch_size (wk_sender w')) (wk_queues w')"
    "on_disconnect dl w = Some w' \<Longrightarrow> at_select w \<Longrightarrow> answers w' = answers w \<and> wk_answering w' = []"
    "on_flush_tick w = Some w' \<Longrightarrow> base (wk_sender w') \<and> queues_below (sn_batch_size (wk_sender w')) (wk_queues w')"
    "flush_sample w = Some w' \<Longrightarrow> base (wk_sender w') \<and> queues_below (sn_batch_size (wk_sender w')) (wk_queues w')"
proof -
  have b: "sender_ok (wk_sender w)" "sn_deadline (wk_sender w) = None" using assms by (simp_all add: base_def)
  have n: "0 < sn_batch_size (wk_sender w)" using b(1) by (simp add: sender_ok_def)
  have all: "\<exists>s'. flush_all (wk_sender w) p = Some (Ready (), s', no_queues) \<and> base s' \<and> 0 < sn_batch_size s'" for p
    using completes_running [OF flush_all_completes [OF b(1), of p] b] n by (metis base_def)
  have full: "\<exists>s' q'. flush_full_queues (wk_sender w) p = Some (Ready (), s', q') \<and> base s' \<and>
      queues_below (sn_batch_size s') q'" for p
    using completes_running [OF flush_full_completes [OF b(1), of p] b] by (metis base_def)
  have shut: "\<exists>s' q'. shutdown dl (wk_sender w) p a = Some (s', q', acks_order a)" for p a
    using shutdown_total [OF b(1)] by blast
  have below: "0 < m \<Longrightarrow> queues_below m no_queues" for m by (simp add: queues_below_def no_queues_def)
  show ans: "wk_answering w' = acks_order acks" if "finish_recv dl q acks w = Some w'" "at_select w"
    using that shut [of q acks] all [of q] full [of q]
    by (auto simp: finish_recv_def acks_order_def at_select_def split: if_splits)
  show "answers w' = answers w @ acks_order acks" if "finish_recv dl q acks w = Some w'" "at_select w"
    using ans [OF that] that shut [of q acks] all [of q] full [of q]
    by (auto simp: finish_recv_def answers_def at_select_def split: if_splits)
  show "base (wk_sender w') \<and> queues_below (sn_batch_size (wk_sender w')) (wk_queues w')"
    if "finish_recv dl q acks w = Some w'" "ak_close acks = []"
    using that all [of q] full [of q] below by (auto simp: finish_recv_def split: if_splits)
  show "answers w' = answers w \<and> wk_answering w' = []" if "on_disconnect dl w = Some w'" "at_select w"
    using that shut [of "wk_queues w" no_acks]
    by (auto simp: on_disconnect_def acks_order_def no_acks_def answers_def at_select_def)
  show "base (wk_sender w') \<and> queues_below (sn_batch_size (wk_sender w')) (wk_queues w')" if "on_flush_tick w = Some w'"
    using that all [of "wk_queues w"] below by (auto simp: on_flush_tick_def)
  show "base (wk_sender w') \<and> queues_below (sn_batch_size (wk_sender w')) (wk_queues w')"
    if "flush_sample w = Some w'"
    using that full [of "wk_queues w"] by (auto simp: flush_sample_def)
qed

lemma sample_only_metrics:
  "wk_queues (take_sample d r w) = feed x (wk_queues w) \<Longrightarrow> q_events x = [] \<and> q_logs x = []"
  by (auto simp: take_sample_def sample_instruments_def Let_def feed_def split: if_splits prod.splits)
    (metis Queues.select_convs(1,2) Queues.surjective Queues.update_convs(3) append_self_conv)+

lemma within_below: "queues_below n q \<longleftrightarrow> within n limit Waiting (length (q_events q)) \<and>
    within n limit Waiting (length (q_logs q)) \<and> within n limit Waiting (length (q_metrics q))"
  by (simp add: queues_below_def)

lemma shared_step: "sys_step sd sy sy' \<Longrightarrow> shared_ok sy \<Longrightarrow> shared_ok sy'"
proof (induction rule: sys_step.induct)
  case (client_call sy op)
  have "client_ok (apply_op sd op (sy_client sy))"
    using client_call by (intro apply_op_ok) (simp_all add: shared_ok_def)
  then show ?case
    using client_call.prems call_sends [OF client_call(3) refl, of sd] by (auto simp: shared_ok_def one_more_def)
qed (auto simp: shared_ok_def client_ok_def on_resync_tick_def dest: branch_frame)

lemma fine_step: "sys_step sd sy sy' \<Longrightarrow> worker_fine sy \<Longrightarrow> worker_fine sy'"
proof (induction rule: sys_step.induct)
  case (first_message sy msg ch q acks)
  then show ?case using absorb_lengths [OF first_message(4)]
    by (auto simp: worker_fine_def queues_within_def one_branch_def at_select_def sampled_points_def Let_def)
next
  case (next_message sy n acks msg ch q acks')
  then show ?case using absorb_lengths [OF next_message(3)]
    by (auto simp: worker_fine_def queues_within_def one_branch_def at_select_def sampled_points_def Let_def)
next
  case (drained sy n acks deadline w)
  then have "base (wk_sender (sy_worker sy))" "at_select (sy_worker sy)" by (auto simp: worker_fine_def one_branch_def)
  with branch_live(3) [OF this(1) drained(3)] branch_frame(1) [OF drained(3)] show ?case
    by (auto simp: worker_fine_def queues_within_def one_branch_def at_select_def sampled_points_def Let_def queues_below_def)
next
  case (tick_flush sy w)
  then have "base (wk_sender (sy_worker sy))" by (simp add: worker_fine_def)
  from branch_live(5) [OF this tick_flush(3)] branch_frame(3) [OF tick_flush(3)] tick_flush(1,2) show ?case
    by (auto simp: worker_fine_def queues_within_def one_branch_def at_select_def sampled_points_def Let_def queues_below_def)
next
  case (tick_sample sy d r x)
  note held = sample_held [OF tick_sample(3)]
  have "q_events x = [] \<and> q_logs x = []" by (rule sample_only_metrics [OF tick_sample(3)])
  with tick_sample held show ?case
    by (auto simp: worker_fine_def queues_within_def one_branch_def at_select_def sampled_points_def Let_def)
next
  case (sample_flushed sy w)
  then have w: "sy_phase sy = Waiting" "base (wk_sender (sy_worker sy))" "wk_answering (sy_worker sy) = []"
    by (auto simp: worker_fine_def one_branch_def)
  from branch_live(6) [OF w(2) sample_flushed(2)] branch_frame(4) [OF sample_flushed(2)] w show ?case
    by (auto simp: worker_fine_def queues_within_def one_branch_def sampled_points_def Let_def queues_below_def)
next
  case (answer sy)
  then show ?case by (auto simp: worker_fine_def queues_within_def one_branch_def at_select_def Let_def)
next
  case (all_gone sy deadline w)
  then have "base (wk_sender (sy_worker sy))" by (simp add: worker_fine_def)
  with branch_frame(2) [OF all_gone(5)] all_gone show ?case
    by (auto simp: worker_fine_def queues_within_def one_branch_def at_select_def Let_def)
qed (auto simp: worker_fine_def queues_within_def one_branch_def at_select_def sampled_points_def Let_def on_resync_tick_def)

text \<open>Taking one message moves it, and its request, from the channel to the worker.\<close>

lemma accounted_take:
  assumes "accounted sy" "wk_channel (sy_worker sy) = msg # ch" "absorb (q0, a) msg = (q, a')"
    and "mset (pending (sy_phase sy)) = mset (acks_order a)"
  shows "accounted ((put_worker ((sy_worker sy)\<lparr>wk_channel := ch, wk_queues := q\<rparr>) sy)
    \<lparr>sy_phase := Draining n a', sy_fed := absorbed [msg] (sy_fed sy)\<rparr>)"
proof -
  obtain tk where tk: "sy_accepted sy = tk @ msg # ch" "list_all msg_ok (sy_accepted sy)" "distinct (requests (sy_accepted sy))"
    "mset (requests tk) = mset (answers (sy_worker sy)) + mset (pending (sy_phase sy))"
    "q_events (sy_fed sy) = q_events (absorbed tk no_queues)" "q_logs (sy_fed sy) = q_logs (absorbed tk no_queues)"
    "subseq (q_metrics (absorbed tk no_queues)) (q_metrics (sy_fed sy))"
    using assms(1,2) by (auto simp: accounted_def)
  have fed: "q_events (absorbed [msg] (sy_fed sy)) = q_events (absorbed (tk @ [msg]) no_queues)"
    "q_logs (absorbed [msg] (sy_fed sy)) = q_logs (absorbed (tk @ [msg]) no_queues)"
    "subseq (q_metrics (absorbed (tk @ [msg]) no_queues)) (q_metrics (absorbed [msg] (sy_fed sy)))"
    using tk(5-7) absorbed_append(4) [of "[msg]" "sy_fed sy"] by (simp_all add: absorbed_append(1-3) list_emb_append_mono)
  have "mset (requests (tk @ [msg])) = mset (answers (sy_worker sy)) + mset (acks_order a')"
    using tk(4) assms(4) absorb_requests [OF assms(3)] by simp
  with tk(1-3) fed show ?thesis unfolding accounted_def by (intro exI [of _ "tk @ [msg]"]) simp
qed

lemma accounted_step:
  assumes "sys_step sd sy sy'" "sys_inv sy"
  shows "accounted sy'"
  using assms
proof (induction rule: sys_step.induct)
  case (client_call sy op)
  let ?c = "sy_client sy" and ?c' = "apply_op sd op (sy_client sy)"
  have inv: "shared_ok sy" "accounted sy" using client_call.prems by (simp_all add: sys_inv_def)
  have ch: "tl_channel ?c = wk_channel (sy_worker sy)" "client_ok ?c" using inv(1) by (simp_all add: shared_ok_def)
  have ok: "list_all msg_ok (tl_channel ?c')"
    using apply_op_ok [OF ch(2) client_call(2)] by (simp add: client_ok_def)
  consider (same) "tl_channel ?c' = tl_channel ?c"
    | (more) m where "tl_channel ?c' = tl_channel ?c @ [m]" "requests [m] = call_request op"
    using call_sends [OF client_call(3) refl, of sd] by (auto simp: one_more_def)
  then show ?case
  proof cases
    case same
    with inv(2) ch show ?thesis by (simp add: accounted_def put_client_def)
  next
    case more
    have "set (requests [m]) \<inter> set (requests (sy_accepted sy)) = {}"
      using call_fresh [OF client_call(3), of sd] more by simp
    moreover have "distinct (requests [m])" by (cases m) simp_all
    moreover have "msg_ok m" using ok more by simp
    ultimately show ?thesis
      using inv(2) more ch unfolding accounted_def put_client_def by (elim exE) (force intro: exI)
  qed
next
  case (first_message sy msg ch q acks)
  then show ?case by (intro accounted_take [where a = no_acks]) (simp_all add: sys_inv_def acks_order_def no_acks_def)
next
  case (next_message sy n acks msg ch q acks')
  then show ?case by (intro accounted_take [where a = acks]) (simp_all add: sys_inv_def)
next
  case (drained sy n acks deadline w)
  then have b: "base (wk_sender (sy_worker sy))" "at_select (sy_worker sy)"
    by (auto simp: sys_inv_def worker_fine_def one_branch_def)
  from branch_live(1) [OF b(1) drained(3) b(2)] branch_frame(1) [OF drained(3)] drained(1,4) show ?case
    by (auto simp: sys_inv_def accounted_def ac_simps)
next
  case (all_gone sy deadline w)
  then have "base (wk_sender (sy_worker sy))" by (simp add: sys_inv_def worker_fine_def)
  from branch_live(4) [OF this all_gone(5,2)] branch_frame(2) [OF all_gone(5)] all_gone(1,6) show ?case
    by (auto simp: sys_inv_def accounted_def)
next
  case (tick_sample sy d r x)
  have sub: "subseq a b \<Longrightarrow> subseq a (b @ q_metrics x)" for a b
    using list_emb_append_mono [of "(=)" a b "[]" "q_metrics x"] by simp
  show ?case
    using sample_only_metrics [OF tick_sample(3)] tick_sample(1,4)
    unfolding sys_inv_def accounted_def by (elim conjE exE) (rule exI, auto simp: sub)
qed (auto simp: sys_inv_def accounted_def on_resync_tick_def dest: branch_frame)

lemma sys_inv_step: "sys_step sd sy sy' \<Longrightarrow> sys_inv sy \<Longrightarrow> sys_inv sy'"
  using shared_step fine_step accounted_step unfolding sys_inv_def by blast

lemma sys_inv_start:
  assumes "system_start sd config on_error u v in_runtime net d batch_id ck = Some sy" "length u = 16" "length v = 16"
  shows "sys_inv sy"
proof -
  obtain c w where c: "tell_new sd config on_error u v (spawn_worker in_runtime (Inr ()) (Inr ())) = Inr c"
    "worker_start config on_error net d batch_id ck = Some w"
    "sy = \<lparr>sy_client = c, sy_worker = w, sy_phase = Waiting, sy_accepted = [], sy_fed = no_queues\<rparr>"
    using assms(1) by (auto simp: system_start_def split: sum.splits)
  have w: "wk_running w" "wk_channel w = []" "wk_metrics w = metrics_new" "wk_drain_limit w = tc_queue_capacity config"
    "wk_queues w = no_queues" "wk_acked w = []" "wk_answering w = []" "wk_sampled w = None"
    using c(2) by (auto simp: worker_start_def Let_def split: if_splits)
  have "worker_inv w" by (rule worker_start_inv [OF c(2)])
  then have "base (wk_sender w)" "queues_below (sn_batch_size (wk_sender w)) (wk_queues w)"
    using w(1,8) by (simp_all add: worker_inv_def base_def)
  moreover have "shared_ok sy"
    using c(1) w assms(2,3)
    by (auto simp: c(3) shared_ok_def tell_new_def spawn_worker_def spawn_dedicated_thread_def client_ok_def id_ok_def
        split: if_splits)
  moreover have "accounted sy" using w by (simp add: c(3) accounted_def answers_def absorbed_def no_queues_def)
  ultimately show ?thesis
    using w(7,8) by (simp add: sys_inv_def worker_fine_def queues_within_def queues_below_def one_branch_def sampled_points_def c(3))
qed

lemma sys_inv_run: "sys_run sd s0 sy \<Longrightarrow> sys_inv s0 \<Longrightarrow> sys_inv sy"
  by (induction rule: sys_run.induct) (auto intro: sys_inv_step)

subsection \<open>Accounts in every reachable state\<close>

text \<open>The deadline of a shutdown may have expired.\<close>

fun late :: "phase \<Rightarrow> bool" where
  "late (Closing b) = b"
| "late (Stopped b) = b"
| "late _ = False"

lemma late_step: "sys_step sd sy sy' \<Longrightarrow> late (sy_phase sy) \<Longrightarrow> late (sy_phase sy')"
  by (induction rule: sys_step.induct) auto

lemma fed_step: "sys_step sd sy sy' \<Longrightarrow> part_of (sy_fed sy) (sy_fed sy')"
  by (induction rule: sys_step.induct) (auto simp: part_of_def absorbed_def)

lemma finish_no_deadline: "ak_close acks = [] \<Longrightarrow> finish_recv dl q acks w = finish_recv None q acks w"
  by (simp add: finish_recv_def)

context accounting
begin

lemma step_settles:
  assumes "sys_step sd sy sy'" "P (sy_fed sy) (wk_sender (sy_worker sy)) (wk_queues (sy_worker sy))"
    and "fit (wk_sender (sy_worker sy)) (sy_fed sy')" "\<not> late (sy_phase sy')"
  shows "P (sy_fed sy') (wk_sender (sy_worker sy')) (wk_queues (sy_worker sy')) \<and>
    same_config (wk_sender (sy_worker sy)) (wk_sender (sy_worker sy'))"
  using assms
proof (induction rule: sys_step.induct)
  case (first_message sy msg ch q acks)
  then have "q = feed (absorbed [msg] no_queues) (wk_queues (sy_worker sy))"
    using absorbed_append(4) [of "[msg]" "wk_queues (sy_worker sy)"] by (simp add: absorb_step)
  with more [OF first_message(5), of "absorbed [msg] no_queues"] show ?case
    using absorbed_append(4) [of "[msg]" "sy_fed sy"] by simp
next
  case (next_message sy n acks msg ch q acks')
  then have "q = feed (absorbed [msg] no_queues) (wk_queues (sy_worker sy))"
    using absorbed_append(4) [of "[msg]" "wk_queues (sy_worker sy)"] by (simp add: absorb_step)
  with more [OF next_message(4), of "absorbed [msg] no_queues"] show ?case
    using absorbed_append(4) [of "[msg]" "sy_fed sy"] by simp
next
  case (drained sy n acks deadline w)
  have "deadline = None \<or> ak_close acks = []" using drained(6) by (cases deadline) (auto split: if_splits)
  then have "finish_recv None (wk_queues (sy_worker sy)) acks (sy_worker sy) = Some w"
    using drained(3) by (elim disjE) (simp_all flip: finish_no_deadline [of acks deadline])
  then show ?case using finish_recv_settles [of "sy_fed sy" "sy_worker sy" "wk_queues (sy_worker sy)" acks] drained by auto
next
  case (all_gone sy deadline w)
  then have "deadline = None" by (cases deadline) simp_all
  with all_gone show ?case using ticks_settle(2) [of "sy_fed sy" "sy_worker sy"] by auto
next
  case (tick_flush sy w)
  then show ?case using ticks_settle(1) [of "sy_fed sy" "sy_worker sy"] by auto
next
  case (tick_sample sy d r x)
  with more [OF tick_sample(4), of x] show ?case by simp
next
  case (sample_flushed sy w)
  then show ?case using ticks_settle(3) [of "sy_fed sy" "sy_worker sy"] by auto
qed (simp_all add: on_resync_tick_def)

lemma run_settles:
  assumes "sys_run sd s0 sy" "P (sy_fed s0) (wk_sender (sy_worker s0)) (wk_queues (sy_worker s0))"
    and "fit (wk_sender (sy_worker s0)) (sy_fed sy)" "\<not> late (sy_phase sy)"
  shows "P (sy_fed sy) (wk_sender (sy_worker sy)) (wk_queues (sy_worker sy)) \<and>
    same_config (wk_sender (sy_worker s0)) (wk_sender (sy_worker sy))"
  using assms
proof (induction rule: sys_run.induct)
  case (then_step s s')
  have "fit (wk_sender (sy_worker s0)) (sy_fed s)" by (rule fit_part [OF fed_step [OF then_step(2)] then_step(5)])
  then have s: "P (sy_fed s) (wk_sender (sy_worker s)) (wk_queues (sy_worker s))"
    "same_config (wk_sender (sy_worker s0)) (wk_sender (sy_worker s))"
    using then_step late_step [OF then_step(2)] by blast+
  have "fit (wk_sender (sy_worker s)) (sy_fed s')" using then_step(5) fit_config [OF s(2)] by simp
  from step_settles [OF then_step(2) s(1) this then_step(6)] show ?case
    using same_config_trans [OF s(2)] by blast
qed simp

end

subsection \<open>A flush is a barrier\<close>

text \<open>
  What has left the queues never comes back, and when a request is answered, all that was
  accepted before it has left them.
\<close>

definition emptied :: "Queues \<Rightarrow> Queues \<Rightarrow> bool" where
  "emptied q q' \<longleftrightarrow> (q_events q' = q_events q \<or> q_events q' = []) \<and> (q_logs q' = q_logs q \<or> q_logs q' = []) \<and>
     (q_metrics q' = q_metrics q \<or> q_metrics q' = [])"

lemma emptied_simps [simp]: "emptied q q" "emptied q no_queues"
  by (simp_all add: emptied_def no_queues_def)

lemma emptied_trans: "emptied q q' \<Longrightarrow> emptied q' q'' \<Longrightarrow> emptied q q''"
  by (auto simp: emptied_def)

lemma flush_full_empties:
  assumes "sender_ok s"
  shows "completes s (flush_full_queues s q) (emptied q)"
proof -
  have id: "completes t (Some (Ready (), t, p)) (emptied p)" for t p by (simp add: completes_def fine_Ready)
  have one: "completes t (if b then flush_events t p else Some (Ready (), t, p)) (emptied p)"
    "completes t (if b then flush_logs t p else Some (Ready (), t, p)) (emptied p)"
    "completes t (if b then flush_metrics t p else Some (Ready (), t, p)) (emptied p)" if "sender_ok t" for t p b
    using flush_one_completes [OF that, of p, THEN completes_mono, of "emptied p"] id by (auto simp: emptied_def)
  note after = completes_mono [OF one(1) emptied_trans] completes_mono [OF one(2) emptied_trans]
    completes_mono [OF one(3) emptied_trans]
  show ?thesis
    unfolding flush_full_queues_def Let_def
    by (rule completes_then [OF one(1) assms], rule assms, rule completes_then [OF after(2)])
      (assumption+, rule after(3))
qed

definition gone_before :: "Queues \<Rightarrow> WorkerMessage list \<Rightarrow> bool" where
  "gone_before g pre \<longleftrightarrow> prefix (q_events (absorbed pre no_queues)) (q_events g) \<and>
     prefix (q_logs (absorbed pre no_queues)) (q_logs g) \<and> subseq (q_metrics (absorbed pre no_queues)) (q_metrics g)"

text \<open>\<open>barrier sy g\<close>: \<open>g\<close> is what has left the queues, and it covers
  all that was accepted before a request that was answered or is about to be.\<close>

definition barrier :: "('w, 'm) System \<Rightarrow> Queues \<Rightarrow> bool" where
  "barrier sy g \<longleftrightarrow> sy_fed sy = feed (wk_queues (sy_worker sy)) g \<and>
     (\<forall>pre m post. sy_accepted sy = pre @ m # post \<and> set (requests [m]) \<inter> set (answers (sy_worker sy)) \<noteq> {} \<longrightarrow>
       gone_before g pre)"

lemma gone_before_more: "gone_before g pre \<Longrightarrow> gone_before (feed x g) pre"
  using list_emb_append_mono [of "(=)" "q_metrics (absorbed pre no_queues)" "q_metrics g" "[]" "q_metrics x"]
  by (auto simp: gone_before_def)

text \<open>What a flush took out of the queues.\<close>

lemma emptied_feed:
  assumes "emptied q q'"
  obtains x where "feed q g = feed q' (feed x g)"
proof (rule that)
  show "feed q g = feed q' (feed \<lparr>q_events = (if q_events q' = [] then q_events q else []),
      q_logs = (if q_logs q' = [] then q_logs q else []), q_metrics = (if q_metrics q' = [] then q_metrics q else [])\<rparr> g)"
    using assms by (auto simp: emptied_def feed_def)
qed

lemma split_request:
  assumes "xs @ ys = pre @ m # post" "distinct (requests (xs @ ys))" "k \<in> set (requests [m])" "k \<in> set (requests xs)"
  shows "prefix pre xs"
proof -
  have "prefix xs pre \<or> prefix pre xs"
    using assms(1) by (metis prefixI prefix_same_cases)
  moreover have "xs = pre" if "prefix xs pre"
  proof (rule ccontr)
    assume "xs \<noteq> pre"
    with that obtain zs where "pre = xs @ zs" by (auto simp: prefix_def)
    with assms(1) have "ys = zs @ m # post" by simp
    then have "requests ys = requests zs @ requests [m] @ requests post" by (simp add: requests_def)
    with assms(2-4) show False by auto
  qed
  ultimately show ?thesis by auto
qed

text \<open>The work after a drain without an expired deadline: queues are emptied, all of them for a request.\<close>

lemma branch_empties:
  assumes "base (wk_sender w)" "finish_recv dl (wk_queues w) acks w = Some w'" "ak_close acks = [] \<or> dl = None"
  shows "emptied (wk_queues w) (wk_queues w')" "acks_order acks \<noteq> [] \<Longrightarrow> wk_queues w' = no_queues"
proof -
  have b: "sender_ok (wk_sender w)" "sn_deadline (wk_sender w) = None" using assms(1) by (simp_all add: base_def)
  have all: "\<exists>s'. flush_all (wk_sender w) p = Some (Ready (), s', no_queues)" for p
    using completes_running [OF flush_all_completes [OF b(1), of p] b] by metis
  have full: "\<exists>s' q'. flush_full_queues (wk_sender w) p = Some (Ready (), s', q') \<and> emptied p q'" for p
    using completes_running [OF flush_full_empties [OF b(1), of p] b] by metis
  have id: "(wk_sender w)\<lparr>sn_deadline := None\<rparr> = wk_sender w" using b(2) by simp
  have "emptied (wk_queues w) (wk_queues w') \<and> (acks_order acks \<noteq> [] \<longrightarrow> wk_queues w' = no_queues)"
  proof (cases "ak_close acks = []")
    case True
    with assms(2) all [of "wk_queues w"] full [of "wk_queues w"] show ?thesis
      by (auto simp: finish_recv_def acks_order_def split: if_splits)
  next
    case False
    with assms(2,3) all [of "wk_queues w"] id show ?thesis
      by (auto simp: finish_recv_def shutdown_def Let_def)
  qed
  then show "emptied (wk_queues w) (wk_queues w')" "acks_order acks \<noteq> [] \<Longrightarrow> wk_queues w' = no_queues" by auto
qed

lemma disconnect_empties:
  assumes "base (wk_sender w)" "on_disconnect None w = Some w'"
  shows "wk_queues w' = no_queues"
proof -
  have b: "sender_ok (wk_sender w)" "sn_deadline (wk_sender w) = None" using assms(1) by (simp_all add: base_def)
  obtain s' where "flush_all (wk_sender w) (wk_queues w) = Some (Ready (), s', no_queues)"
    using completes_running [OF flush_all_completes [OF b(1), of "wk_queues w"] b] by metis
  moreover have "(wk_sender w)\<lparr>sn_deadline := None\<rparr> = wk_sender w" using b(2) by simp
  ultimately show ?thesis using assms(2) by (auto simp: on_disconnect_def shutdown_def Let_def)
qed

lemma tick_empties:
  assumes "base (wk_sender w)"
  shows "on_flush_tick w = Some w' \<Longrightarrow> wk_queues w' = no_queues"
    "flush_sample w = Some w' \<Longrightarrow> emptied (wk_queues w) (wk_queues w')"
proof -
  have b: "sender_ok (wk_sender w)" "sn_deadline (wk_sender w) = None" using assms by (simp_all add: base_def)
  obtain s' where f: "flush_all (wk_sender w) (wk_queues w) = Some (Ready (), s', no_queues)"
    using completes_running [OF flush_all_completes [OF b(1), of "wk_queues w"] b] by metis
  then show "on_flush_tick w = Some w' \<Longrightarrow> wk_queues w' = no_queues" by (auto simp: on_flush_tick_def)
  obtain s'' q' where "flush_full_queues (wk_sender w) (wk_queues w) = Some (Ready (), s'', q')" "emptied (wk_queues w) q'"
    using completes_running [OF flush_full_empties [OF b(1), of "wk_queues w"] b] by metis
  then show "flush_sample w = Some w' \<Longrightarrow> emptied (wk_queues w) (wk_queues w')"
    by (auto simp: flush_sample_def)
qed

text \<open>A branch of the loop after which the barrier holds, given what it does to the queues and the answers.\<close>

lemma barrier_branch:
  assumes "barrier sy g" "accounted sy" "emptied (wk_queues (sy_worker sy)) (wk_queues w)"
    and "answers w = answers (sy_worker sy) @ ks" "set ks \<subseteq> set (pending (sy_phase sy))"
    and "ks \<noteq> [] \<Longrightarrow> wk_queues w = no_queues"
    and "sy_worker sy' = w" "sy_fed sy' = sy_fed sy" "sy_accepted sy' = sy_accepted sy"
  shows "\<exists>g'. barrier sy' g'"
proof -
  obtain x where x: "feed (wk_queues (sy_worker sy)) g = feed (wk_queues w) (feed x g)"
    by (rule emptied_feed [OF assms(3)])
  obtain tk where tk: "sy_accepted sy = tk @ wk_channel (sy_worker sy)" "distinct (requests (sy_accepted sy))"
    "mset (requests tk) = mset (answers (sy_worker sy)) + mset (pending (sy_phase sy))"
    "q_events (sy_fed sy) = q_events (absorbed tk no_queues)" "q_logs (sy_fed sy) = q_logs (absorbed tk no_queues)"
    "subseq (q_metrics (absorbed tk no_queues)) (q_metrics (sy_fed sy))"
    using assms(2) by (auto simp: accounted_def)
  have "gone_before (feed x g) pre" if pre: "sy_accepted sy = pre @ m # post" "k \<in> set (requests [m])" "k \<in> set (answers w)"
    for pre m post k
  proof (cases "k \<in> set (answers (sy_worker sy))")
    case True
    with assms(1) pre(1,2) show ?thesis by (auto simp: barrier_def intro: gone_before_more)
  next
    case False
    then have k: "k \<in> set ks" using pre(3) assms(4) by simp
    then have "k \<in> set (pending (sy_phase sy))" using assms(5) by blast
    then have "k \<in> set (requests tk)" using tk(3) by (metis Un_iff set_mset_mset set_mset_union)
    from split_request [OF _ _ pre(2) this] tk(1,2) pre(1) obtain zs where zs: "tk = pre @ zs"
      by (metis prefixE)
    have "wk_queues w = no_queues" using assms(6) k by (cases ks) auto
    then have all: "feed x g = sy_fed sy" using x assms(1) by (simp add: barrier_def)
    have "subseq (q_metrics (absorbed pre no_queues)) (q_metrics (absorbed tk no_queues))"
      using list_emb_append_mono [of "(=)" "q_metrics (absorbed pre no_queues)" _ "[]"]
      by (simp add: zs absorbed_append(3))
    with tk(6) have "subseq (q_metrics (absorbed pre no_queues)) (q_metrics (sy_fed sy))"
      using subseq_order.trans by blast
    then show ?thesis
      unfolding all gone_before_def using tk(4,5) by (simp add: zs absorbed_append(1,2))
  qed
  then have "barrier sy' (feed x g)"
    using assms(1,7,8,9) x by (auto simp: barrier_def)
  then show ?thesis ..
qed

lemma feed_absorbed:
  assumes "absorb (q, a) msg = (q', a')"
  shows "absorbed [msg] (feed q g) = feed q' g"
proof -
  have "absorbed [msg] (feed q g) = feed (absorbed [msg] q) g" by (simp add: absorbed_def feed_def)
  with assms show ?thesis by (simp add: absorb_step)
qed

lemma barrier_step:
  assumes "sys_step sd sy sy'" "sys_inv sy" "barrier sy g" "\<not> late (sy_phase sy')"
  shows "\<exists>g'. barrier sy' g'"
  using assms
proof (induction rule: sys_step.induct)
  case (client_call sy op)
  let ?c = "sy_client sy" and ?c' = "apply_op sd op (sy_client sy)"
  have same: "sy_accepted (put_client ?c' sy) = sy_accepted sy \<or>
      (\<exists>m. sy_accepted (put_client ?c' sy) = sy_accepted sy @ [m] \<and> set (requests [m]) \<inter> set (requests (sy_accepted sy)) = {})"
    using call_sends [OF client_call(3) refl, of sd] call_fresh [OF client_call(3), of sd]
    by (auto simp: one_more_def put_client_def)
  have acked: "set (answers (sy_worker sy)) \<subseteq> set (requests (sy_accepted sy))"
    using client_call.prems(1) by (auto simp: sys_inv_def accounted_def) (metis UnI1 set_mset_mset set_mset_union)
  have "gone_before g pre" if pre: "sy_accepted (put_client ?c' sy) = pre @ m # post" "k \<in> set (requests [m])"
      "k \<in> set (answers (sy_worker sy))" for pre m post k
  proof -
    have "post \<noteq> [] \<or> sy_accepted (put_client ?c' sy) = sy_accepted sy"
      using same pre acked by auto
    then have "\<exists>post'. sy_accepted sy = pre @ m # post'"
      using same pre(1) by (cases post rule: rev_cases) (auto, metis+)
    with client_call.prems(2) pre show ?thesis by (auto simp: barrier_def)
  qed
  then have "barrier (put_client ?c' sy) g" using client_call.prems(2) by (auto simp: barrier_def)
  then show ?case ..
next
  case (first_message sy msg ch q acks)
  then show ?case using feed_absorbed [OF first_message(4)] by (auto simp: barrier_def)
next
  case (next_message sy n acks msg ch q acks')
  then show ?case using feed_absorbed [OF next_message(3)] by (auto simp: barrier_def)
next
  case (drained sy n acks deadline w)
  have b: "base (wk_sender (sy_worker sy))" "accounted sy"
    using drained(1,4) by (simp_all add: sys_inv_def worker_fine_def)
  have at: "at_select (sy_worker sy)" using drained(1,4) by (auto simp: sys_inv_def worker_fine_def one_branch_def)
  have "ak_close acks = [] \<or> deadline = None" using drained(6) by (cases deadline) (auto split: if_splits)
  note e = branch_empties [OF b(1) drained(3) this]
  show ?case
    by (rule barrier_branch [OF drained(5) b(2) e(1) branch_live(1) [OF b(1) drained(3) at]]) (use drained(1) e(2) in simp_all)
next
  case (all_gone sy deadline w)
  have b: "base (wk_sender (sy_worker sy))" "accounted sy"
    using all_gone(1,6) by (simp_all add: sys_inv_def worker_fine_def)
  have none: "deadline = None" using all_gone(8) by (cases deadline) simp_all
  have "answers w = answers (sy_worker sy) @ []" using branch_live(4) [OF b(1) all_gone(5,2)] by simp
  then show ?case
    by (rule barrier_branch [OF all_gone(7) b(2), rotated]) (use disconnect_empties [OF b(1)] all_gone(5) none in simp_all)
next
  case (tick_flush sy w)
  have b: "base (wk_sender (sy_worker sy))" "accounted sy"
    using tick_flush(1,4) by (simp_all add: sys_inv_def worker_fine_def)
  have "answers w = answers (sy_worker sy) @ []" using branch_frame(3) [OF tick_flush(3)] by simp
  then show ?case
    by (rule barrier_branch [OF tick_flush(5) b(2), rotated]) (use tick_empties(1) [OF b(1) tick_flush(3)] in simp_all)
next
  case (tick_sample sy d r x)
  have "feed x (sy_fed sy) = feed (feed x (wk_queues (sy_worker sy))) g"
    using tick_sample(5) by (simp add: barrier_def feed_def)
  then have "barrier ((put_worker (take_sample d r (sy_worker sy)) sy)\<lparr>sy_fed := feed x (sy_fed sy)\<rparr>) g"
    using tick_sample(3,5) by (auto simp: barrier_def)
  then show ?case ..
next
  case (sample_flushed sy w)
  have b: "base (wk_sender (sy_worker sy))" "accounted sy"
    using sample_flushed(1,3) by (auto simp: sys_inv_def worker_fine_def one_branch_def)
  have "answers w = answers (sy_worker sy) @ []" using branch_frame(4) [OF sample_flushed(2)] by simp
  then show ?case
    by (rule barrier_branch [OF sample_flushed(4) b(2), rotated])
      (use sample_flushed(1,3) tick_empties(2) [OF b(1) sample_flushed(2)] in \<open>auto simp: sys_inv_def worker_fine_def one_branch_def\<close>)
qed (auto simp: barrier_def on_resync_tick_def)

lemma barrier_run:
  assumes "sys_run sd s0 sy" "sys_inv s0" "barrier s0 g" "\<not> late (sy_phase sy)"
  shows "\<exists>g'. barrier sy g'"
  using assms
proof (induction rule: sys_run.induct)
  case (then_step s s')
  then show ?case using barrier_step sys_inv_run [OF then_step(1)] late_step by blast
qed blast

end
