(* ===== verification/System_Props.thy ===== *)
theory System_Props
  imports Whole_System Disk_Crash
begin

section \<open>What the whole system promises\<close>

text \<open>
  Properties of every state that clients and worker can reach together: requests, barriers and
  bounds, what becomes of every accepted message without a disk buffer and with one, and the
  messages that are lost because the worker is closing.
\<close>

subsection \<open>Requests, barriers, bounds\<close>

text \<open>
  C4: every request to flush or close is answered at most once and never forgotten. The
  requests the channel accepted are, each once, those answered, those the worker is about to
  answer, those it has taken and will answer when the drain in progress and its flush are over,
  and those still in the channel.
\<close>

theorem requests_answered_once:
  assumes "system_start sd config on_error u v in_runtime net d batch_id ck = Some s0" "length u = 16" "length v = 16"
    and "sys_run sd s0 sy"
  shows "mset (requests (sy_accepted sy)) =
      mset (wk_acked (sy_worker sy)) + mset (wk_answering (sy_worker sy)) + mset (pending (sy_phase sy)) +
      mset (requests (wk_channel (sy_worker sy))) \<and>
    distinct (requests (sy_accepted sy)) \<and> distinct (wk_acked (sy_worker sy))"
proof -
  have "accounted sy" using sys_inv_run [OF assms(4) sys_inv_start [OF assms(1-3)]] by (simp add: sys_inv_def)
  then obtain tk where tk: "sy_accepted sy = tk @ wk_channel (sy_worker sy)" "distinct (requests (sy_accepted sy))"
    "mset (requests tk) = mset (wk_acked (sy_worker sy)) + mset (wk_answering (sy_worker sy)) + mset (pending (sy_phase sy))"
    by (auto simp: accounted_def answers_def)
  have "distinct (requests tk)" using tk(1,2) by simp
  then have "distinct (wk_acked (sy_worker sy) @ wk_answering (sy_worker sy) @ pending (sy_phase sy))"
    using tk(3) by (metis mset_append mset_eq_imp_distinct_iff add.assoc)
  with tk show ?thesis by simp
qed

text \<open>
  C12: what bounds memory. However clients and worker interleave, the channel holds no more than
  its capacity, and until the worker has taken a close none of its queues holds more than one
  batch and one full channel. There is one exception: while a sample is being flushed, which the
  network can hold up, the queue of metrics also holds the points of that sample, as many as the
  registered instruments gave; no setting limits them.
\<close>

theorem memory_bounded:
  assumes "system_start sd config on_error u v in_runtime net d batch_id ck = Some s0" "length u = 16" "length v = 16"
    and "sys_run sd s0 sy" "live (sy_phase sy)"
    and "bound = sn_batch_size (wk_sender (sy_worker sy)) + wk_drain_limit (sy_worker sy)"
  shows "length (tl_channel (sy_client sy)) \<le> tl_capacity (sy_client sy) \<and>
    length (q_events (wk_queues (sy_worker sy))) \<le> bound \<and> length (q_logs (wk_queues (sy_worker sy))) \<le> bound \<and>
    length (q_metrics (wk_queues (sy_worker sy))) \<le> bound + sampled_points (sy_worker sy)"
proof -
  have inv: "shared_ok sy" "queues_within sy"
    using sys_inv_run [OF assms(4) sys_inv_start [OF assms(1-3)]] by (simp_all add: sys_inv_def worker_fine_def)
  then show ?thesis using assms(5,6)
    by (cases "sy_phase sy") (auto simp: shared_ok_def queues_within_def Let_def)
qed

subsection \<open>Without a disk buffer\<close>

text \<open>The fields of a freshly started system.\<close>

lemma start_fields:
  assumes "system_start sd config on_error u v in_runtime net d batch_id ck = Some s0"
  shows "wk_sender (sy_worker s0) = sender_new config on_error net d batch_id" "wk_queues (sy_worker s0) = no_queues"
    "sy_fed s0 = no_queues" "sy_phase s0 = Waiting" "sy_accepted s0 = []" "answers (sy_worker s0) = []"
  using assms by (auto simp: system_start_def worker_start_def answers_def Let_def split: sum.splits if_splits)

lemma start_barrier:
  "system_start sd config on_error u v in_runtime net d batch_id ck = Some s0 \<Longrightarrow> barrier s0 no_queues"
  using start_fields [of sd config on_error u v in_runtime net d batch_id ck s0]
  by (simp add: barrier_def no_queues_def feed_def)

lemma start_shipped:
  assumes "system_start sd config True u v in_runtime net d batch_id ck = Some s0"
    and "tc_buffer_path config = None" "tc_max_retries config \<noteq> - 1"
  shows "shipped (sy_fed s0) (wk_sender (sy_worker s0)) (wk_queues (sy_worker s0))"
proof -
  let ?s = "sender_new config True net d batch_id"
  have "plain ?s" "sent ?s = []" "sn_reports ?s = []"
    using assms(2,3)
    by (simp_all add: sender_new_def plain_def Let_def stream_ok_def transport_new_def sent_def written_def connections_def)
  then have "ledger ?s no_queues no_queues \<lparr>lg_events = [], lg_logs = [], lg_metrics = []\<rparr>"
    by (simp add: ledger_defs no_queues_def)
  then show ?thesis using start_fields [OF assms(1)] by (auto simp: shipped_def)
qed


text \<open>
  C7: batch ids tell batches apart. Without a disk buffer, before a shutdown runs into its
  deadline, whatever connects and writes fail and however clients and worker interleave, two
  frames written under the same batch id are the same frame, so a collector can recognise and
  drop the copies a retry makes. Other clients of the process may take ids from the same counter
  at any time. This holds while the entries queued and the ids others took are together fewer
  than \<open>2 ^ 64\<close>, and no batch makes a frame of \<open>2 ^ 32\<close> bytes.
\<close>

theorem batch_ids_identify:
  assumes "system_start sd config True u v in_runtime net d batch_id ck = Some s0" "length u = 16" "length v = 16"
    and "tc_buffer_path config = None" "tc_max_retries config \<noteq> - 1"
    and "sys_run sd s0 sy" "\<not> late (sy_phase sy)" "batches_within (2 ^ 32) (wk_sender (sy_worker s0)) (sy_fed sy)"
    and "entry_count (sy_fed sy) + sum_list (bc_others batch_id) < 2 ^ 64"
    and "f \<in> set (sent (wk_sender (sy_worker sy)))" "g \<in> set (sent (wk_sender (sy_worker sy)))"
  shows "batch_id_of f \<noteq> None \<and> (batch_id_of f = batch_id_of g \<longrightarrow> f = g)"
proof -
  obtain l0 where "ledger (wk_sender (sy_worker s0)) (sy_fed s0) (wk_queues (sy_worker s0)) l0"
    using start_shipped [OF assms(1,4,5)] by (auto simp: shipped_def)
  then have "plain (wk_sender (sy_worker s0))" by (simp add: ledger_def)
  moreover have "sn_batch_counter (wk_sender (sy_worker s0)) = batch_id" "sent (wk_sender (sy_worker s0)) = []"
    using start_fields(1) [OF assms(1)] assms(4)
    by (simp_all add: sender_new_def sent_def transport_new_def written_def connections_def)
  ultimately have "identified (bc_next batch_id) (sum_list (bc_others batch_id)) (sy_fed s0) (wk_sender (sy_worker s0)) (wk_queues (sy_worker s0))"
    using start_fields(2,3) [OF assms(1)]
    by (auto simp: identified_def numbered_def entry_count_def part_of_def no_queues_def others_left_def)
  from ids.run_settles [OF assms(6) this assms(8,7)] obtain n where
    n: "numbered (bc_next batch_id) n (wk_sender (sy_worker sy))" "n \<le> entry_count (sy_fed sy) + sum_list (bc_others batch_id)"
    by (auto simp: identified_def)
  have "batch_id_of f \<noteq> None" using n(1) assms(10) by (auto simp: numbered_def)
  moreover have "n < 2 ^ 64" using n(2) assms(9) by linarith
  ultimately show ?thesis using numbered_unique [OF n(1) _ assms(10,11)] by blast
qed

text \<open>
  C15: what a frame holds. Without a disk buffer, before a shutdown runs into its deadline, every
  frame written whole to a connection decodes as a batch of one of the three schemas, which is
  not empty and has no more entries than \<open>batch_size\<close> asks for, whatever connects and writes fail
  and however clients and worker interleave. No batch makes a frame of \<open>2 ^ 32\<close> bytes.
\<close>

theorem frames_within_batch_size:
  assumes "system_start sd config True u v in_runtime net d batch_id ck = Some s0" "length u = 16" "length v = 16"
    and "tc_buffer_path config = None" "tc_max_retries config \<noteq> - 1" "0 < tc_batch_size config"
    and "sys_run sd s0 sy" "\<not> late (sy_phase sy)" "batches_within (2 ^ 32) (wk_sender (sy_worker s0)) (sy_fed sy)"
    and "f \<in> set (sent (wk_sender (sy_worker sy)))"
  shows "(\<exists>es. collect SchemaEvent decode_event_data f = Some es \<and> 0 < length es \<and> length es \<le> tc_batch_size config) \<or>
    (\<exists>ls. collect SchemaLog decode_log_data f = Some ls \<and> 0 < length ls \<and> length ls \<le> tc_batch_size config) \<or>
    (\<exists>ms. collect SchemaMetric decode_metric_data f = Some ms \<and> 0 < length ms \<and> length ms \<le> tc_batch_size config)"
proof -
  let ?s = "wk_sender (sy_worker sy)"
  note run = no_disk.run_settles [OF assms(7) start_shipped [OF assms(1,4,5)] assms(9,8)]
  obtain l where l: "ledger ?s (sy_fed sy) (wk_queues (sy_worker sy)) l" using run by (auto simp: shipped_def)
  have n: "sn_batch_size ?s = tc_batch_size config"
    using run start_fields(1) [OF assms(1)] assms(4,6) by (simp add: same_config_def sender_new_def Let_def)
  have "readable f" using l assms(10) by (simp add: ledger_def ledger_sent_def list_all_iff)
  moreover have "0 < length es \<and> length es \<le> tc_batch_size config" if "collect SchemaEvent decode_event_data f = Some es" for es
    using copies_sizes [of "sn_batch_size ?s" _ "lg_events l" es] batches_hold [OF assms(10) that] l n
    by (auto simp: ledger_def ledger_sent_def ledger_fates_def)
  moreover have "0 < length ls \<and> length ls \<le> tc_batch_size config" if "collect SchemaLog decode_log_data f = Some ls" for ls
    using copies_sizes [of "sn_batch_size ?s" _ "lg_logs l" ls] batches_hold [OF assms(10) that] l n
    by (auto simp: ledger_def ledger_sent_def ledger_fates_def)
  moreover have "0 < length ms \<and> length ms \<le> tc_batch_size config" if "collect SchemaMetric decode_metric_data f = Some ms" for ms
    using copies_sizes [of "sn_batch_size ?s" _ "lg_metrics l" ms] batches_hold [OF assms(10) that] l n
    by (auto simp: ledger_def ledger_sent_def ledger_fates_def)
  ultimately show ?thesis unfolding readable_def by fast
qed

subsection \<open>With a disk buffer\<close>

text \<open>What was ever accepted is, in order, in the batches given, in the queues and in the channel.\<close>

definition batched ::
  "('w, 'm) System \<Rightarrow> QueuedEvent list list \<Rightarrow> QueuedLog list list \<Rightarrow> QueuedMetric list list \<Rightarrow> bool" where
  "batched sy ecs lcs mcs \<longleftrightarrow> (\<exists>tk. sy_accepted sy = tk @ tl_channel (sy_client sy) \<and>
     q_events (absorbed tk no_queues) = concat ecs @ q_events (wk_queues (sy_worker sy)) \<and>
     q_logs (absorbed tk no_queues) = concat lcs @ q_logs (wk_queues (sy_worker sy)) \<and>
     subseq (q_metrics (absorbed tk no_queues)) (concat mcs @ q_metrics (wk_queues (sy_worker sy))))"

lemma disk_account:
  assumes "system_start sd config True u v in_runtime net d batch_id ck = Some s0" "length u = 16" "length v = 16"
    and "sn_disk_buffer (wk_sender (sy_worker s0)) = Some buf0" "db_rep buf0 a0 b0 c0" "tight buf0 c0"
    and "sys_run sd s0 sy" "\<not> late (sy_phase sy)" "batches_storable (wk_sender (sy_worker s0)) (sy_fed sy)"
    and "\<forall>m. BufferError m \<notin> set (sn_reports (wk_sender (sy_worker sy)))" "s = wk_sender (sy_worker sy)"
  obtains ecs lcs mcs buf a b c where "sn_disk_buffer s = Some buf" "db_rep buf a b c" "batched sy ecs lcs mcs"
    "mset (batches SchemaEvent decode_event_data c0 @ map (map (event_params s)) ecs) \<subseteq>#
       mset (batches SchemaEvent decode_event_data (sent s @ c))"
    "mset (batches SchemaLog decode_log_data c0 @ map (map (log_params s)) lcs) \<subseteq>#
       mset (batches SchemaLog decode_log_data (sent s @ c))"
    "mset (batches SchemaMetric decode_metric_data c0 @ map (map (metric_params s)) mcs) \<subseteq>#
       mset (batches SchemaMetric decode_metric_data (sent s @ c))"
proof -
  note inv0 = sys_inv_start [OF assms(1-3)]
  have inv: "shared_ok sy" "accounted sy" using sys_inv_run [OF assms(7) inv0] by (simp_all add: sys_inv_def)
  let ?s0 = "wk_sender (sy_worker s0)"
  have base0: "base ?s0" using inv0 start_fields(4) [OF assms(1)] by (simp add: sys_inv_def worker_fine_def)
  have "sn_on_error ?s0 \<and> stream_ok (sn_transport ?s0) \<and> sent ?s0 = []"
    unfolding start_fields(1) [OF assms(1)]
    by (auto simp: sender_new_def Let_def report_def stream_ok_def transport_new_def sent_def written_def connections_def
        split: option.split prod.split sum.split)
  then have v0: "vault ?s0 c0" "sent ?s0 = []" using assms(4-6) base0 by (auto simp: vault_def base_def sender_ok_def)
  have "stored c0 ?s0 c0 no_queues no_queues"
    unfolding stored_def by (intro exI [of _ "[]"]) (simp add: no_queues_def v0(2))
  then have "secured c0 (sy_fed s0) ?s0 (wk_queues (sy_worker s0))"
    using base0 v0(1) start_fields(2,3) [OF assms(1)] by (auto simp: secured_def part_of_def no_queues_def)
  from disk.run_settles [OF assms(7) this assms(9,8)] obtain c where
    c: "vault s c" "stored c0 s c (sy_fed sy) (wk_queues (sy_worker sy))"
    using assms(10,11) by (auto simp: secured_def buffer_error_def)
  obtain ecs lcs mcs where e: "concat ecs @ q_events (wk_queues (sy_worker sy)) = q_events (sy_fed sy)"
    "concat lcs @ q_logs (wk_queues (sy_worker sy)) = q_logs (sy_fed sy)"
    "concat mcs @ q_metrics (wk_queues (sy_worker sy)) = q_metrics (sy_fed sy)"
    "mset (batches SchemaEvent decode_event_data c0 @ map (map (event_params s)) ecs) \<subseteq>#
       mset (batches SchemaEvent decode_event_data (sent s @ c))"
    "mset (batches SchemaLog decode_log_data c0 @ map (map (log_params s)) lcs) \<subseteq>#
       mset (batches SchemaLog decode_log_data (sent s @ c))"
    "mset (batches SchemaMetric decode_metric_data c0 @ map (map (metric_params s)) mcs) \<subseteq>#
       mset (batches SchemaMetric decode_metric_data (sent s @ c))"
    using c(2) unfolding stored_def by blast
  have "batched sy ecs lcs mcs" using inv e(1-3) by (auto simp: batched_def accounted_def shared_ok_def)
  moreover obtain buf a b where "sn_disk_buffer s = Some buf" "db_rep buf a b c" using c(1) by (auto simp: vault_def)
  ultimately show thesis using e(4-6) that by blast
qed


text \<open>What a log at the start adds up over two lives of the worker.\<close>

lemma batches_carry:
  assumes "mset (batches ty dec c0 @ xs) \<subseteq># mset (batches ty dec (fs @ c))" "c1 = l @ c"
    and "mset (batches ty dec c1 @ ys) \<subseteq># mset (batches ty dec (gs @ c'))"
  shows "mset (xs @ ys) \<subseteq># mset (batches ty dec (fs @ gs @ c'))"
proof -
  have "mset (xs @ ys) \<subseteq># mset (batches ty dec c0 @ xs) + mset ys" by (simp add: ac_simps)
  also have "\<dots> \<subseteq># mset (batches ty dec (fs @ c)) + mset ys" using assms(1) by (rule subset_mset.add_right_mono)
  also have "\<dots> \<subseteq># mset (batches ty dec fs) + mset (batches ty dec c1 @ ys)" by (simp add: assms(2))
  also have "\<dots> \<subseteq># mset (batches ty dec fs) + mset (batches ty dec (gs @ c'))" using assms(3) by (rule subset_mset.add_left_mono)
  finally show ?thesis by simp
qed

text \<open>
  What a worker that ends leaves on the disk: its buffer is closed, or the process is killed and
  no destructor runs.
\<close>

definition leaves :: "Sender \<Rightarrow> disk \<Rightarrow> bool" where
  "leaves s d \<longleftrightarrow> drop_sender s = Some d \<or> map_option after_kill (sn_disk_buffer s) = Some d"

lemma killed_buffer_reopens:
  assumes "db_rep buf a b c"
  shows "\<exists>buf'. open_buffer m (after_kill buf) = (Inr (), buf') \<and> db_rep buf' a [] (b @ c) \<and> db_max_bytes buf' = m"
  by (rule open_buffer_rep) (use assms in \<open>auto simp: db_rep_def after_kill_def\<close>)

lemma left_buffer:
  assumes "db_rep buf a b c" "sn_disk_buffer s = Some buf" "leaves s d"
  obtains buf1 a1 l where "open_buffer m d = (Inr (), buf1)" "db_rep buf1 a1 [] (l @ c)" "db_max_bytes buf1 = m"
proof (cases "d = drop_buffer buf")
  case True
  with drop_buffer_reopens [OF assms(1), of m] that [where l = "[]"] show thesis by auto
next
  case False
  with assms(2,3) have "d = after_kill buf" by (simp add: leaves_def drop_sender_def)
  with killed_buffer_reopens [OF assms(1), of m] that [where l = b] show thesis by blast
qed

lemma restarted_buffer:
  assumes "db_rep buf a b c" "sn_disk_buffer s = Some buf" "leaves s d"
    and "system_start sd config on_error u v in_runtime net d batch_id ck = Some s1"
    and "sn_disk_buffer (wk_sender (sy_worker s1)) = Some buf1" "buffered_bytes buf1 \<le> db_max_bytes buf1"
  obtains a1 l where "db_rep buf1 a1 [] (l @ c)" "tight buf1 (l @ c)"
proof -
  obtain buf' a1 l where o: "open_buffer (tc_buffer_max_bytes config) d = (Inr (), buf')" "db_rep buf' a1 [] (l @ c)"
    by (rule left_buffer [OF assms(1-3)])
  have "sn_disk_buffer (sender_new config on_error net d batch_id) = Some buf1"
    using assms(5) start_fields(1) [OF assms(4)] by simp
  then have "buf1 = buf'" using o(1) by (simp add: sender_new_def Let_def split: option.splits)
  with o(2) have r: "db_rep buf1 a1 [] (l @ c)" by simp
  moreover have "tight buf1 (l @ c)" using assms(6) db_rep_buffered [OF r] by (simp add: tight_def)
  ultimately show thesis by (rule that)
qed


subsection \<open>After the worker has begun to close\<close>

fun closing :: "phase \<Rightarrow> bool" where
  "closing (Closing l) = True"
| "closing (Stopped l) = True"
| "closing _ = False"

text \<open>A worker that is closing takes nothing more; the channel only grows.\<close>

definition frozen :: "('w, 'm) System \<Rightarrow> ('w, 'm) System \<Rightarrow> bool" where
  "frozen sy sy' \<longleftrightarrow> closing (sy_phase sy') \<and> prefix (wk_channel (sy_worker sy)) (wk_channel (sy_worker sy')) \<and>
     wk_sender (sy_worker sy') = wk_sender (sy_worker sy) \<and> wk_queues (sy_worker sy') = wk_queues (sy_worker sy)"

lemma frozen_step: "sys_step sd sy sy' \<Longrightarrow> sys_inv sy \<Longrightarrow> closing (sy_phase sy) \<Longrightarrow> frozen sy sy'"
proof (induction rule: sys_step.induct)
  case (client_call sy op)
  then show ?case
    using call_sends [OF client_call(3) refl, of sd] by (auto simp: frozen_def one_more_def sys_inv_def shared_ok_def)
qed (auto simp: frozen_def sys_inv_def worker_fine_def one_branch_def)

lemma frozen_run: "sys_run sd sy sy' \<Longrightarrow> sys_inv sy \<Longrightarrow> closing (sy_phase sy) \<Longrightarrow> frozen sy sy'"
proof (induction rule: sys_run.induct)
  case here
  then show ?case by (simp add: frozen_def)
next
  case (then_step s s')
  then have "frozen s s'" using frozen_step [OF then_step(2)] sys_inv_run [OF then_step(1)]
    by (auto simp: sys_inv_def frozen_def)
  with then_step show ?case by (auto simp: frozen_def intro: prefix_order.trans)
qed

text \<open>
  C35: a message accepted while the worker is closing is lost, and nothing says so. The call
  returns \<open>true\<close>, counts no drop and reports nothing; and in every later state the message is
  still in the channel, with the worker's queues, its log and what it wrote as they were.
\<close>

theorem closing_strands_messages:
  assumes "system_start sd config on_error u v in_runtime net d batch_id ck = Some s0" "length u = 16" "length v = 16"
    and "sys_run sd s0 sy" "sy_phase sy = Closing l" "wk_clients (sy_worker sy)"
    and "length (tl_channel (sy_client sy)) < tl_capacity (sy_client sy)"
    and "serde_ok sd members" "super_ok members (sy_client sy)" "user_id \<noteq> []" "name \<noteq> []" "length name \<le> 256"
    and "try_track sd now user_id name (PProps (add_all esc kvs)) (sy_client sy) = (ok, c)"
    and "sys_run sd (put_client c sy) sy'"
  shows "ok \<and> tell_dropped c = tell_dropped (sy_client sy) \<and> tl_reports c = tl_reports (sy_client sy) \<and>
    (\<exists>e rest. tl_channel (sy_client sy') = tl_channel (sy_client sy) @ EventMsg e # rest \<and> qe_event_name e = Some name) \<and>
    wk_queues (sy_worker sy') = wk_queues (sy_worker sy) \<and> wk_sender (sy_worker sy') = wk_sender (sy_worker sy)"
proof -
  have inv: "sys_inv sy" by (rule sys_inv_run [OF assms(4) sys_inv_start [OF assms(1-3)]])
  then have up: "tl_connected (sy_client sy)" using assms(5) by (simp add: sys_inv_def shared_ok_def)
  obtain e where e: "ok" "c = (sy_client sy)\<lparr>tl_channel := tl_channel (sy_client sy) @ [EventMsg e], tl_queue_full := False\<rparr>"
    "qe_event_name e = Some name"
    using track_queues [OF assms(8-12) up assms(7), of now esc kvs] assms(13) by simp
  have "c = apply_op sd (OpTrack now user_id name (PProps (add_all esc kvs))) (sy_client sy)"
    using assms(13) by (simp add: track_def)
  then have "sys_step sd sy (put_client c sy)"
    using client_call [of sy "OpTrack now user_id name (PProps (add_all esc kvs))"] assms(6) by simp
  then have inv1: "sys_inv (put_client c sy)" using inv by (rule sys_inv_step)
  have "frozen (put_client c sy) sy'" by (rule frozen_run [OF assms(14) inv1]) (simp add: assms(5))
  moreover have "tl_channel (sy_client sy') = wk_channel (sy_worker sy')"
    using sys_inv_run [OF assms(14) inv1] by (simp add: sys_inv_def shared_ok_def)
  ultimately show ?thesis
    using e by (auto simp: frozen_def tell_dropped_def prefix_def)
qed

subsection \<open>The worker left to itself\<close>

text \<open>
  The moves of the worker that take messages, finish a drain, answer a request, flush a sample or
  end the loop: every step of its own but the timers.
\<close>

definition moves :: "'m Serde \<Rightarrow> ('w, 'm) System \<Rightarrow> ('w, 'm) System \<Rightarrow> bool" where
  "moves sd sy sy' \<longleftrightarrow> sys_step sd sy sy' \<and>
     (sy_phase sy' \<noteq> sy_phase sy \<or> wk_answering (sy_worker sy') \<noteq> wk_answering (sy_worker sy) \<or>
      wk_sampled (sy_worker sy) \<noteq> None \<and> wk_sampled (sy_worker sy') = None)"

fun phase_rank :: "phase \<Rightarrow> nat" where
  "phase_rank Waiting = 2"
| "phase_rank (Draining left acks) = length (acks_order acks) + 3"
| "phase_rank (Closing l) = 1"
| "phase_rank (Stopped l) = 0"

definition backlog :: "('w, 'm) System \<Rightarrow> nat" where
  "backlog sy = 4 * length (wk_channel (sy_worker sy)) + length (wk_answering (sy_worker sy)) +
     (if wk_sampled (sy_worker sy) = None then 0 else 1) + phase_rank (sy_phase sy)"

lemma finish_recv_answering:
  "finish_recv dl q acks w = Some w' \<Longrightarrow> length (wk_answering w') \<le> length (wk_answering w) + length (acks_order acks)"
  by (auto simp: finish_recv_def shutdown_def Let_def bind_eq_Some_conv split: if_splits prod.splits)

lemma absorb_answering: "absorb (q, a) msg = (q', a') \<Longrightarrow> length (acks_order a') \<le> Suc (length (acks_order a))"
  by (cases msg) (auto simp: acks_order_def)

lemma disconnect_answering: "on_disconnect dl w = Some w' \<Longrightarrow> wk_answering w' = []"
  by (auto simp: on_disconnect_def shutdown_def acks_order_def no_acks_def Let_def bind_eq_Some_conv split: prod.splits)

lemma moves_shrink: "moves sd sy sy' \<Longrightarrow> backlog sy' < backlog sy"
  unfolding moves_def
proof (elim conjE, induction rule: sys_step.induct)
  case (first_message sy msg ch q acks)
  then show ?case using absorb_answering [OF first_message(4)] by (simp add: backlog_def acks_order_def no_acks_def)
next
  case (next_message sy n acks msg ch q acks')
  then show ?case using absorb_answering [OF next_message(3)] by (simp add: backlog_def)
next
  case (drained sy n acks deadline w)
  then show ?case using finish_recv_answering [OF drained(3)] branch_frame(1) [OF drained(3)] by (simp add: backlog_def)
next
  case (answer sy)
  then show ?case by (cases "wk_answering (sy_worker sy)") (simp_all add: backlog_def answer_next_def)
next
  case (all_gone sy deadline w)
  then show ?case using disconnect_answering [OF all_gone(5)] branch_frame(2) [OF all_gone(5)] by (simp add: backlog_def at_select_def)
next
  case (sample_flushed sy w)
  then show ?case using branch_frame(4) [OF sample_flushed(2)] by (auto simp: backlog_def)
qed (auto simp: backlog_def on_resync_tick_def at_select_def dest: branch_frame)

lemma moves_accept_nothing: "moves sd sy sy' \<Longrightarrow> sy_accepted sy' = sy_accepted sy"
  unfolding moves_def by (elim conjE, cases rule: sys_step.cases) auto

lemma finish_recv_total:
  assumes "base (wk_sender w)"
  shows "\<exists>w'. finish_recv dl q acks w = Some w'"
proof -
  have b: "sender_ok (wk_sender w)" "sn_deadline (wk_sender w) = None" using assms by (simp_all add: base_def)
  obtain s1 q1 where "flush_all (wk_sender w) q = Some (Ready (), s1, q1)"
    by (rule completes_running [OF flush_all_completes [OF b(1), of q] b])
  moreover obtain s2 q2 where "flush_full_queues (wk_sender w) q = Some (Ready (), s2, q2)"
    by (rule completes_running [OF flush_full_completes [OF b(1), of q] b])
  moreover obtain s3 q3 where "shutdown dl (wk_sender w) q acks = Some (s3, q3, acks_order acks)"
    using shutdown_total [OF b(1)] by blast
  ultimately show ?thesis by (simp add: finish_recv_def)
qed

lemma flush_sample_total:
  assumes "base (wk_sender w)"
  shows "\<exists>w'. flush_sample w = Some w'"
proof -
  have b: "sender_ok (wk_sender w)" "sn_deadline (wk_sender w) = None" using assms by (simp_all add: base_def)
  obtain s q where "flush_full_queues (wk_sender w) (wk_queues w) = Some (Ready (), s, q)"
    by (rule completes_running [OF flush_full_completes [OF b(1), of "wk_queues w"] b])
  then show ?thesis by (simp add: flush_sample_def)
qed

lemma move_exists:
  assumes "sys_inv sy" "\<not> (\<exists>l. sy_phase sy = Stopped l)"
    and "sy_phase sy = Waiting \<Longrightarrow> wk_channel (sy_worker sy) = [] \<Longrightarrow> \<not> at_select (sy_worker sy)"
  shows "\<exists>sy'. moves sd sy sy'"
proof (cases "at_select (sy_worker sy)")
  case False
  show ?thesis
  proof (cases "wk_answering (sy_worker sy)")
    case (Cons k ks)
    then have "wk_answering (sy_worker sy) \<noteq> []" by simp
    from answer [OF this] show ?thesis unfolding moves_def by (intro exI conjI) (auto simp: Cons answer_next_def)
  next
    case Nil
    with False have s: "wk_sampled (sy_worker sy) \<noteq> None" by (simp add: at_select_def)
    then have "base (wk_sender (sy_worker sy))" using assms(1) by (auto simp: sys_inv_def worker_fine_def one_branch_def)
    then obtain w where w: "flush_sample (sy_worker sy) = Some w" using flush_sample_total by blast
    from sample_flushed [OF s w] branch_frame(4) [OF w] s show ?thesis unfolding moves_def by (intro exI conjI) auto
  qed
next
  case at: True
  show ?thesis
  proof (cases "sy_phase sy")
  case Waiting
  then obtain msg ch where ch: "wk_channel (sy_worker sy) = msg # ch" using assms(3) at by (cases "wk_channel (sy_worker sy)") auto
  obtain q acks where "absorb (wk_queues (sy_worker sy), no_acks) msg = (q, acks)" by (rule prod.exhaust)
  from first_message [OF Waiting at ch this] show ?thesis unfolding moves_def by (intro exI conjI) (auto simp: Waiting)
next
  case (Draining n acks)
  show ?thesis
  proof (cases "n = 0 \<or> wk_channel (sy_worker sy) = []")
    case True
    have "base (wk_sender (sy_worker sy))" using assms(1) Draining by (simp add: sys_inv_def worker_fine_def)
    then obtain w where "finish_recv None (wk_queues (sy_worker sy)) acks (sy_worker sy) = Some w"
      using finish_recv_total by blast
    from drained [OF Draining True this] show ?thesis
      unfolding moves_def by (intro exI conjI) (auto simp: Draining split: if_splits)
  next
    case False
    then obtain msg ch m where ch: "wk_channel (sy_worker sy) = msg # ch" "n = Suc m"
      by (cases "wk_channel (sy_worker sy)"; cases n) auto
    obtain q acks' where "absorb (wk_queues (sy_worker sy), acks) msg = (q, acks')" by (rule prod.exhaust)
    from next_message [OF _ ch(1) this, of m] show ?thesis
      unfolding moves_def using Draining ch(2) by (intro exI conjI) auto
  qed
next
  case (Closing l)
  from receiver_dropped [OF this] at show ?thesis unfolding moves_def at_select_def by (intro exI conjI) (auto simp: Closing)
  qed (use assms(2) in auto)
qed

text \<open>
  C6: the worker answers everything. From any reachable state, left to itself it makes only
  finitely many moves, whatever the network does and wherever deadlines fall; and when none is
  left, either every request the channel accepted has been answered and the channel is empty, or
  the worker was closed and has stopped.
\<close>

theorem worker_answers_all:
  assumes "system_start sd config on_error u v in_runtime net d batch_id ck = Some s0" "length u = 16" "length v = 16"
    and "sys_run sd s0 sy"
  shows "(\<forall>f. f 0 = sy \<longrightarrow> (\<exists>i. \<not> moves sd (f i) (f (Suc i)))) \<and>
    (\<forall>sy'. rtranclp (moves sd) sy sy' \<and> (\<nexists>sy''. moves sd sy' sy'') \<longrightarrow> sy_accepted sy' = sy_accepted sy \<and>
      ((\<exists>l. sy_phase sy' = Stopped l) \<or>
       sy_phase sy' = Waiting \<and> tl_channel (sy_client sy') = [] \<and>
       mset (wk_acked (sy_worker sy')) = mset (requests (sy_accepted sy))))"
proof (intro conjI allI impI)
  fix f :: "nat \<Rightarrow> ('a, 'b) System"
  let ?m = "\<lambda>i. backlog (f i)"
  show "\<exists>i. \<not> moves sd (f i) (f (Suc i))"
  proof (rule ccontr)
    assume "\<nexists>i. \<not> moves sd (f i) (f (Suc i))"
    then have step: "?m (Suc i) < ?m i" for i using moves_shrink by blast
    have "?m i + i \<le> ?m 0" for i
    proof (induction i)
      case (Suc i)
      with step [of i] show ?case by linarith
    qed simp
    from this [of "Suc (?m 0)"] show False by simp
  qed
next
  fix sy' assume r: "rtranclp (moves sd) sy sy' \<and> (\<nexists>sy''. moves sd sy' sy'')"
  then have run: "rtranclp (moves sd) sy sy'" by simp
  have "sys_run sd sy sy' \<and> sy_accepted sy' = sy_accepted sy"
    using run by (induction rule: rtranclp_induct)
      (auto intro: sys_run.intros simp: moves_accept_nothing moves_def)
  then have acc: "sy_accepted sy' = sy_accepted sy" and inv: "sys_inv sy'"
    using sys_inv_run sys_inv_run [OF assms(4) sys_inv_start [OF assms(1-3)]] by blast+
  show "sy_accepted sy' = sy_accepted sy" by (rule acc)
  show "(\<exists>l. sy_phase sy' = Stopped l) \<or> sy_phase sy' = Waiting \<and> tl_channel (sy_client sy') = [] \<and>
       mset (wk_acked (sy_worker sy')) = mset (requests (sy_accepted sy))"
  proof (rule disjCI)
    assume "\<not> (sy_phase sy' = Waiting \<and> tl_channel (sy_client sy') = [] \<and>
       mset (wk_acked (sy_worker sy')) = mset (requests (sy_accepted sy)))"
    then have "\<not> (sy_phase sy' = Waiting \<and> wk_channel (sy_worker sy') = [] \<and> at_select (sy_worker sy'))"
      using inv acc by (auto simp: sys_inv_def accounted_def shared_ok_def answers_def at_select_def)
    then show "\<exists>l. sy_phase sy' = Stopped l" using move_exists [OF inv, of sd] r by blast
  qed
qed

subsection \<open>A run of the system\<close>

text \<open>A client tracks one event and asks for a flush; the worker takes both and flushes.\<close>

definition sample_tracked :: QueuedEvent where
  "sample_tracked = \<lparr>qe_event_type = Track, qe_timestamp = 5, qe_device_id = zeros 16, qe_session_id = None,
     qe_event_name = Some [80], qe_payload = Some (object_text [key_colon ''user_id'' @ [0x22, 117, 0x22]])\<rparr>"

lemma sample_tracked_entry:
  "sn_service s = Some [115] \<Longrightarrow> length (event_enc.entry_lay n (event_params s sample_tracked)) \<le> 300"
  using sect_bytes_bound [of "n + pad4 n + 60" "event_sections (event_params s sample_tracked)"] pad4_lt [of n]
  by (simp add: event_enc.entry_lay_def event_layout_def event_sections_def event_params_def
      sample_tracked_def object_text_def key_colon_def str_of_def)

lemma sample_tracked_batch:
  assumes "sn_service s = Some [115]" "set c \<subseteq> {sample_tracked}" "length c \<le> 2"
  shows "length (event_data s c) < 700"
proof -
  have "length (event_data s c) \<le> 30 + 4 * length (map (event_params s) c) + sum_list (map (\<lambda>_. 300) (map (event_params s) c))"
    unfolding event_data_def
  proof (rule event_enc.data_layout_bound)
    fix x n assume "x \<in> set (map (event_params s) c)"
    then have "x = event_params s sample_tracked" using assms(2) by auto
    then show "length (event_enc.entry_lay n x) \<le> 300" using sample_tracked_entry [OF assms(1)] by simp
  qed
  then show ?thesis using assms(3) by (simp add: o_def sum_list_triv)
qed

lemma sample_tracked_fits: "fits sample_sender (event_data sample_sender [sample_tracked])"
  using sample_tracked_batch [of sample_sender "[sample_tracked]"] by (simp add: fits_def sample_sender_def)

definition sample_fed :: Queues where
  "sample_fed = no_queues\<lparr>q_events := [sample_tracked]\<rparr>"

lemma sample_fed_batches:
  assumes "sn_service s = Some [115]" "sn_batch_size s = 2" "length (sn_api_key s) = 16"
  shows "batches_within (2 ^ 32) s sample_fed" "batches_storable s sample_fed"
proof -
  have "batches_within m s sample_fed" if "1000 \<le> m" for m
    using sample_tracked_batch [OF assms(1)] assms that
      log_enc.data_layout_bound [of "[]" "\<lambda>_. 0" 0] metric_enc.data_layout_bound [of "[]" "\<lambda>_. 0" 0]
    by (fastforce simp: batches_within_def sample_fed_def no_queues_def log_data_def metric_data_def)
  then show "batches_within (2 ^ 32) s sample_fed" "batches_storable s sample_fed"
    by (simp_all add: batches_storable_def MAX_FRAME_LEN_def)
qed

definition sample_started :: "str option \<Rightarrow> outcome list \<Rightarrow> (unit, (str \<times> bytes) list) System" where
  "sample_started bp net = \<lparr>
     sy_client = \<lparr>tl_device_id = zeros 16, tl_session_id = None, tl_super_props = \<lparr>sp_map = [], sp_fragment = []\<rparr>,
       tl_on_error = True, tl_reports = [], tl_channel = [], tl_capacity = 4, tl_connected = True, tl_close_timeout = 5,
       tl_metrics = metrics_new, tl_queue_full = False\<rparr>,
     sy_worker = \<lparr>wk_sender = sender_new (sample_config\<lparr>tc_buffer_path := bp\<rparr>) True net fresh_disk (BATCH_COUNTER []), wk_queues = no_queues,
       wk_channel = [], wk_drain_limit = 4, wk_metrics = metrics_new,
       wk_clock = \<lparr>ck_anchor_system = 0, ck_correction_ms = 0\<rparr>, wk_clients = True, wk_answering = [], wk_sampled = None, wk_acked = [],
       wk_running = True\<rparr>,
     sy_phase = Waiting, sy_accepted = [], sy_fed = no_queues\<rparr>"

lemma sample_started:
  "system_start sample_serde (sample_config\<lparr>tc_buffer_path := bp\<rparr>) True (zeros 16) (zeros 16) True net fresh_disk (BATCH_COUNTER [])
     \<lparr>ck_anchor_system = 0, ck_correction_ms = 0\<rparr> = Some (sample_started bp net)"
  by (simp add: system_start_def sample_started_def tell_new_def spawn_worker_def worker_start_def sample_config_def
      sample_serde_def)

definition sample_flushed :: "str option \<Rightarrow> outcome list \<Rightarrow> Sender \<Rightarrow> (unit, (str \<times> bytes) list) System" where
  "sample_flushed bp net s = (let s0 = sample_started bp net in s0\<lparr>
     sy_worker := (sy_worker s0)\<lparr>wk_sender := s, wk_acked := [7]\<rparr>,
     sy_accepted := [EventMsg sample_tracked, FlushMsg 7], sy_fed := sample_fed\<rparr>)"

lemma sample_sender_new:
  assumes "s = sender_new (sample_config\<lparr>tc_buffer_path := bp\<rparr>) True net fresh_disk (BATCH_COUNTER [])"
  shows "sn_service s = Some [115]" "sn_batch_size s = 2" "length (sn_api_key s) = 16" "sn_reports s = []"
    "sn_deadline s = None" "sn_on_error s" "sn_transport s = transport_new net"
    "bp = None \<Longrightarrow> sn_disk_buffer s = None"
    "bp = Some p \<Longrightarrow> \<exists>buf. sn_disk_buffer s = Some buf \<and> db_rep buf [] [] [] \<and> tight buf []"
  using open_fresh [of 100] assms
  by (auto simp: sender_new_def Let_def sample_config_def tight_def split: option.splits)

text \<open>The states of the run, by what changes in it.\<close>

definition sample_at ::
  "str option \<Rightarrow> outcome list \<Rightarrow> WorkerMessage list \<Rightarrow> Queues \<Rightarrow> Sender \<Rightarrow> nat list \<Rightarrow> nat list \<Rightarrow> phase \<Rightarrow> WorkerMessage list \<Rightarrow> Queues \<Rightarrow>
   (unit, (str \<times> bytes) list) System" where
  "sample_at bp net ch q s ans acked ph acc fed = (let s0 = sample_started bp net in
     \<lparr>sy_client = (sy_client s0)\<lparr>tl_channel := ch\<rparr>,
      sy_worker = (sy_worker s0)\<lparr>wk_channel := ch, wk_queues := q, wk_sender := s, wk_answering := ans, wk_acked := acked,
        wk_running := \<not> closing ph\<rparr>,
      sy_phase = ph, sy_accepted = acc, sy_fed = fed\<rparr>)"

lemma sample_at_step:
  "sys_step sd (sample_at bp net ch q s ans acked ph acc fed) sy \<Longrightarrow>
   sy = sample_at bp net ch' q' s' ans' acked' ph' acc' fed' \<Longrightarrow>
   sys_step sd (sample_at bp net ch q s ans acked ph acc fed) (sample_at bp net ch' q' s' ans' acked' ph' acc' fed')"
  by simp

lemma sample_run:
  assumes "flush_all (sender_new (sample_config\<lparr>tc_buffer_path := bp\<rparr>) True net fresh_disk (BATCH_COUNTER [])) sample_fed = Some (r, s, no_queues)"
  shows "sys_run sample_serde (sample_started bp net) (sample_flushed bp net s)"
proof -
  let ?s = "sender_new (sample_config\<lparr>tc_buffer_path := bp\<rparr>) True net fresh_disk (BATCH_COUNTER [])"
  let ?e = "EventMsg sample_tracked" and ?f = "FlushMsg 7" and ?acks = "no_acks\<lparr>ak_flush := [7]\<rparr>"
  let ?at = "sample_at bp net"
  let ?c = "sy_client (?at [] no_queues ?s [] [] Waiting [] no_queues)"
  have "apply_op sample_serde (OpTrack 5 [117] [80] (PProps (add_all id []))) ?c = ?c\<lparr>tl_channel := [?e]\<rparr>"
    using track_queues [OF sample_serde_ok, of ?c "[117]" "[80]" 5 id "[]"]
    by (simp add: sample_at_def sample_started_def super_ok_def track_def sample_tracked_def sample_serde_def)
  then have 1: "sys_step sample_serde (?at [] no_queues ?s [] [] Waiting [] no_queues) (?at [?e] no_queues ?s [] [] Waiting [?e] no_queues)"
    by (intro sample_at_step [OF client_call [where op = "OpTrack 5 [117] [80] (PProps (add_all id []))"]])
      (simp_all add: sample_at_def sample_started_def put_client_def)
  have 2: "sys_step sample_serde (?at [?e] no_queues ?s [] [] Waiting [?e] no_queues) (?at [?e, ?f] no_queues ?s [] [] Waiting [?e, ?f] no_queues)"
    by (intro sample_at_step [OF client_call [where op = "OpFlush Accepted Acked 7"]])
      (simp_all add: sample_at_def sample_started_def put_client_def send_possible_def tell_flush_def control_def send_control_def)
  have 3: "sys_step sample_serde (?at [?e, ?f] no_queues ?s [] [] Waiting [?e, ?f] no_queues)
      (?at [?f] sample_fed ?s [] [] (Draining 4 no_acks) [?e, ?f] sample_fed)"
    by (intro sample_at_step [OF first_message [where msg = ?e and ch = "[?f]" and q = sample_fed and acks = no_acks]])
      (simp_all add: sample_at_def sample_started_def put_worker_def sample_fed_def no_queues_def absorbed_def at_select_def)
  have 4: "sys_step sample_serde (?at [?f] sample_fed ?s [] [] (Draining 4 no_acks) [?e, ?f] sample_fed)
      (?at [] sample_fed ?s [] [] (Draining 3 ?acks) [?e, ?f] sample_fed)"
    by (intro sample_at_step [OF next_message [where msg = ?f and ch = "[]" and q = sample_fed and n = 3 and acks = no_acks and acks' = ?acks]])
      (simp_all add: sample_at_def sample_started_def put_worker_def no_acks_def absorbed_def)
  have 5: "sys_step sample_serde (?at [] sample_fed ?s [] [] (Draining 3 ?acks) [?e, ?f] sample_fed)
      (?at [] no_queues s [7] [] Waiting [?e, ?f] sample_fed)"
    by (intro sample_at_step [OF drained [where n = 3 and acks = ?acks and deadline = None and
        w = "(sy_worker (?at [] sample_fed ?s [] [] (Draining 3 ?acks) [?e, ?f] sample_fed))\<lparr>wk_sender := s, wk_queues := no_queues, wk_answering := [7]\<rparr>"]])
      (simp_all add: assms finish_recv_def sample_at_def sample_started_def put_worker_def no_acks_def acks_order_def)
  have 6: "sys_step sample_serde (?at [] no_queues s [7] [] Waiting [?e, ?f] sample_fed) (?at [] no_queues s [] [7] Waiting [?e, ?f] sample_fed)"
    by (intro sample_at_step [OF sys_step.answer]) (simp_all add: answer_next_def sample_at_def sample_started_def put_worker_def)
  have "sample_started bp net = ?at [] no_queues ?s [] [] Waiting [] no_queues"
    "sample_flushed bp net s = ?at [] no_queues s [] [7] Waiting [?e, ?f] sample_fed"
    by (simp_all add: sample_at_def sample_started_def sample_flushed_def)
  with 1 2 3 4 5 6 show ?thesis by (metis (no_types) sys_run.here sys_run.then_step)
qed

lemma sample_completes:
  assumes "s = sender_new (sample_config\<lparr>tc_buffer_path := bp\<rparr>) True net fresh_disk (BATCH_COUNTER [])"
  shows "\<exists>s'. flush_all s sample_fed = Some (Ready (), s', no_queues) \<and> stays s s'"
proof -
  have "sender_ok s"
    using sys_inv_start [OF sample_started, of bp net] assms by (simp add: sys_inv_def worker_fine_def sample_started_def base_def)
  then show ?thesis
    using completes_running [OF flush_all_completes [of s sample_fed]] sample_sender_new(5) [OF assms] by metis
qed

lemma sample_flushed_simps [simp]:
  "sy_client (sample_flushed bp net s) = sy_client (sample_started bp net)"
  "wk_sender (sy_worker (sample_flushed bp net s)) = s" "sy_fed (sample_flushed bp net s) = sample_fed"
  "sy_phase (sample_flushed bp net s) = Waiting" "wk_acked (sy_worker (sample_flushed bp net s)) = [7]" "wk_answering (sy_worker (sample_flushed bp net s)) = []"
  "sy_accepted (sample_flushed bp net s) = [EventMsg sample_tracked, FlushMsg 7]"
  "wk_queues (sy_worker (sample_flushed bp net s)) = no_queues" "wk_channel (sy_worker (sample_flushed bp net s)) = []"
  "tl_channel (sy_client (sample_started bp net)) = []"
  "wk_sender (sy_worker (sample_started bp net)) = sender_new (sample_config\<lparr>tc_buffer_path := bp\<rparr>) True net fresh_disk (BATCH_COUNTER [])"
  by (simp_all add: sample_flushed_def sample_started_def)

theorem requests_answered_once_witness:
  "\<exists>s. sys_run sample_serde (sample_started None [Fails 0]) (sample_flushed None [Fails 0] s) \<and>
    mset (requests (sy_accepted (sample_flushed None [Fails 0] s))) =
      mset (wk_acked (sy_worker (sample_flushed None [Fails 0] s))) + mset (pending Waiting) +
      mset (requests (wk_channel (sy_worker (sample_flushed None [Fails 0] s)))) \<and>
    distinct (requests [EventMsg sample_tracked, FlushMsg 7]) \<and> distinct [7 :: nat]"
proof -
  obtain s where s: "sys_run sample_serde (sample_started None [Fails 0]) (sample_flushed None [Fails 0] s)"
    using sample_completes [OF refl] sample_run by blast
  from requests_answered_once [OF sample_started _ _ this] s show ?thesis by auto
qed

theorem memory_bounded_witness:
  "\<exists>s. sys_run sample_serde (sample_started None [Fails 0]) (sample_flushed None [Fails 0] s) \<and>
    length (tl_channel (sy_client (sample_flushed None [Fails 0] s))) \<le> 4 \<and>
    length (q_events (wk_queues (sy_worker (sample_flushed None [Fails 0] s)))) \<le> 6"
proof -
  obtain s where s: "flush_all (sender_new (sample_config\<lparr>tc_buffer_path := None\<rparr>) True [Fails 0] fresh_disk (BATCH_COUNTER [])) sample_fed =
      Some (Ready (), s, no_queues)" "stays (sender_new (sample_config\<lparr>tc_buffer_path := None\<rparr>) True [Fails 0] fresh_disk (BATCH_COUNTER [])) s"
    using sample_completes [OF refl] by blast
  have "sn_batch_size s = 2" using s(2) sample_sender_new(2) [OF refl] by (simp add: stays_def same_config_def)
  then have "length (tl_channel (sy_client (sample_flushed None [Fails 0] s))) \<le>
      tl_capacity (sy_client (sample_flushed None [Fails 0] s)) \<and>
    length (q_events (wk_queues (sy_worker (sample_flushed None [Fails 0] s)))) \<le> 6"
    using memory_bounded [OF sample_started _ _ sample_run [OF s(1)], where bound = 6]
    by (simp add: sample_flushed_def sample_started_def)
  with sample_run [OF s(1)] show ?thesis by (intro exI [of _ s]) (simp add: sample_started_def)
qed


lemma sample_disk_run:
  assumes "s0 = sender_new (sample_config\<lparr>tc_buffer_path := Some p\<rparr>) True net fresh_disk (BATCH_COUNTER [])"
  shows "\<exists>s. flush_all s0 sample_fed = Some (Ready (), s, no_queues) \<and> sn_reports s = []"
proof -
  obtain buf where buf: "sn_disk_buffer s0 = Some buf" "db_rep buf [] [] []" "tight buf []"
    using sample_sender_new(9) [OF assms refl] by blast
  note s0 = sample_sender_new(1-7) [OF assms]
  let ?s1 = "encoded s0 SchemaEvent (event_data s0 [sample_tracked])"
  have "vault ?s1 []" using buf s0 by (auto simp: vault_def encoded_def stream_ok_def transport_new_def)
  moreover have "frame_ok (sn_batch_buf ?s1)"
    using batch_layout_length [of 0 "batch_of s0 SchemaEvent (event_data s0 [sample_tracked])"]
      sample_tracked_batch [OF s0(1), of "[sample_tracked]"] s0(3)
    by (simp add: frame_ok_def MAX_FRAME_LEN_def encoded_def batch_of_def)
  ultimately obtain s where s: "send_with_fallback ?s1 = (Ready (), s)" "sn_reports s = sn_reports ?s1"
    using send_keeps by blast
  have none: "flush_queue enc s [] = Some (Ready (), s, [])" for enc :: "'x encoder" by (subst flush_queue.simps) simp
  have one: "flush_queue encode_events s0 [sample_tracked] = Some (Ready (), s, [])"
    by (subst flush_queue.simps) (simp add: encode_eq s0(2) s(1) none)
  have "flush_all s0 sample_fed = Some (Ready (), s, no_queues)"
    using buf is_empty_rep [OF buf(2)]
    by (simp add: none one flush_all_def drain_disk_buffer_def then_await_def flush_events_def flush_logs_def flush_metrics_def
        sample_fed_def no_queues_def)
  with s(2) s0(4) show ?thesis by (simp add: encoded_def)
qed


theorem closing_strands_messages_witness:
  "\<exists>s q sy ok c. sys_run sample_serde (sample_started None [Fails 0]) sy \<and>
    sy = sample_at None [Fails 0] [] q s [7] [] (Closing False) [CloseMsg 7] no_queues \<and>
    try_track sample_serde 5 [117] [80] (PProps (add_all id [])) (sy_client sy) = (ok, c) \<and> ok \<and>
    (\<exists>e rest. tl_channel (sy_client (put_client c sy)) = EventMsg e # rest \<and> qe_event_name e = Some [80]) \<and>
    wk_sender (sy_worker (put_client c sy)) = s"
proof -
  let ?s = "sender_new (sample_config\<lparr>tc_buffer_path := None\<rparr>) True [Fails 0] fresh_disk (BATCH_COUNTER [])"
  let ?f = "CloseMsg 7" and ?acks = "no_acks\<lparr>ak_close := [7]\<rparr>"
  let ?at = "sample_at None [Fails 0]"
  have "sender_ok ?s"
    using sys_inv_start [OF sample_started, of None "[Fails 0]"]
    by (simp add: sys_inv_def worker_fine_def sample_started_def base_def)
  then obtain s q where s: "shutdown None ?s no_queues ?acks = Some (s, q, [7])"
    using shutdown_total [of ?s None no_queues ?acks] by (auto simp: acks_order_def no_acks_def)
  have 1: "sys_step sample_serde (?at [] no_queues ?s [] [] Waiting [] no_queues) (?at [?f] no_queues ?s [] [] Waiting [?f] no_queues)"
    by (intro sample_at_step [OF client_call [where op = "OpClose Accepted Acked 7"]])
      (simp_all add: sample_at_def sample_started_def put_client_def send_possible_def tell_close_def control_def send_control_def)
  have 2: "sys_step sample_serde (?at [?f] no_queues ?s [] [] Waiting [?f] no_queues)
      (?at [] no_queues ?s [] [] (Draining 4 ?acks) [?f] no_queues)"
    by (intro sample_at_step [OF first_message [where msg = ?f and ch = "[]" and q = no_queues and acks = ?acks]])
      (simp_all add: at_select_def sample_at_def sample_started_def put_worker_def no_acks_def absorbed_def no_queues_def)
  have 3: "sys_step sample_serde (?at [] no_queues ?s [] [] (Draining 4 ?acks) [?f] no_queues)
      (?at [] q s [7] [] (Closing False) [?f] no_queues)"
    by (intro sample_at_step [OF drained [where n = 4 and acks = ?acks and deadline = None and
        w = "(sy_worker (?at [] no_queues ?s [] [] (Draining 4 ?acks) [?f] no_queues))
          \<lparr>wk_sender := s, wk_queues := q, wk_answering := [7], wk_running := False\<rparr>"]])
      (simp_all add: s [unfolded no_acks_def, simplified] finish_recv_def sample_at_def sample_started_def put_worker_def no_acks_def)
  let ?sy = "?at [] q s [7] [] (Closing False) [?f] no_queues"
  have "sample_started None [Fails 0] = ?at [] no_queues ?s [] [] Waiting [] no_queues"
    by (simp add: sample_at_def sample_started_def)
  with 1 2 3 have run: "sys_run sample_serde (sample_started None [Fails 0]) ?sy" by (metis (no_types) sys_run.here sys_run.then_step)
  obtain ok c where t: "try_track sample_serde 5 [117] [80] (PProps (add_all id [])) (sy_client ?sy) = (ok, c)" by (rule prod.exhaust)
  have "super_ok (map (member_text id)) (sy_client ?sy)" "sy_phase ?sy = Closing False" "wk_clients (sy_worker ?sy)"
    "length (tl_channel (sy_client ?sy)) < tl_capacity (sy_client ?sy)" "tl_channel (sy_client ?sy) = []"
    "wk_sender (sy_worker ?sy) = s"
    by (simp_all add: sample_at_def sample_started_def super_ok_def)
  note strands = closing_strands_messages [OF sample_started _ _ run this(2-4) sample_serde_ok this(1) _ _ _ t sys_run.here]
  show ?thesis
    using strands run t \<open>tl_channel (sy_client ?sy) = []\<close> \<open>wk_sender (sy_worker ?sy) = s\<close>
    by (intro exI [of _ s] exI [of _ q] exI [of _ ?sy] exI [of _ ok] exI [of _ c]) auto
qed


theorem worker_answers_all_witness:
  "\<exists>sy. sys_run sample_serde (sample_started None [Fails 0]) sy \<and> sy_accepted sy = [FlushMsg 7] \<and> wk_acked (sy_worker sy) = [] \<and>
    (\<forall>sy'. rtranclp (moves sample_serde) sy sy' \<and> (\<nexists>sy''. moves sample_serde sy' sy'') \<and> (\<forall>l. sy_phase sy' \<noteq> Stopped l) \<longrightarrow>
      wk_acked (sy_worker sy') = [7])"
proof -
  let ?s = "sender_new (sample_config\<lparr>tc_buffer_path := None\<rparr>) True [Fails 0] fresh_disk (BATCH_COUNTER [])"
  let ?sy = "sample_at None [Fails 0] [FlushMsg 7] no_queues ?s [] [] Waiting [FlushMsg 7] no_queues"
  have "sys_step sample_serde (sample_at None [Fails 0] [] no_queues ?s [] [] Waiting [] no_queues) ?sy"
    by (intro sample_at_step [OF client_call [where op = "OpFlush Accepted Acked 7"]])
      (simp_all add: sample_at_def sample_started_def put_client_def send_possible_def tell_flush_def control_def send_control_def)
  moreover have "sample_started None [Fails 0] = sample_at None [Fails 0] [] no_queues ?s [] [] Waiting [] no_queues"
    by (simp add: sample_at_def sample_started_def)
  ultimately have run: "sys_run sample_serde (sample_started None [Fails 0]) ?sy" by (metis (no_types) sys_run.here sys_run.then_step)
  have acc: "sy_accepted ?sy = [FlushMsg 7]" "wk_acked (sy_worker ?sy) = []" by (simp_all add: sample_at_def sample_started_def)
  have "wk_acked (sy_worker sy') = [7]"
    if "rtranclp (moves sample_serde) ?sy sy'" "\<nexists>sy''. moves sample_serde sy' sy''" "\<forall>l. sy_phase sy' \<noteq> Stopped l" for sy'
    using worker_answers_all [OF sample_started _ _ run, THEN conjunct2, rule_format, of sy'] that acc by simp
  with run acc show ?thesis by blast
qed

lemma sample_sends:
  assumes "s = sender_new (sample_config\<lparr>tc_buffer_path := None\<rparr>) True [] fresh_disk (BATCH_COUNTER [])"
  shows "\<exists>s'. flush_all s sample_fed = Some (Ready (), s', no_queues) \<and> sent s' \<noteq> []"
proof -
  have n: "0 < sn_batch_size s" "can_send s" "buffered s []"
    by (simp_all add: assms sender_new_def Let_def can_send_def online_def buffered_def stream_ok_def transport_new_def sample_config_def)
  have "sendable s sample_fed"
    using within_sendable [OF _ n(1), of sample_fed sample_fed] sample_fed_batches(1) sample_sender_new(1-3) [OF assms]
    by (auto simp: part_of_def)
  from flush_all_online [OF n(2,3) this] obtain s' frames where s': "flush_all s sample_fed = Some (Ready (), s', no_queues)"
    "sent s' = sent s @ [] @ frames" "carries s sample_fed frames" by blast
  then have "frames \<noteq> []" by (auto simp: carries_def sample_fed_def)
  with s' show ?thesis by auto
qed

theorem frames_within_batch_size_witness:
  "\<exists>s. sys_run sample_serde (sample_started None []) (sample_flushed None [] s) \<and>
    sent s \<noteq> [] \<and> (\<forall>f\<in>set (sent s). readable f)"
proof -
  let ?s0 = "sender_new (sample_config\<lparr>tc_buffer_path := None\<rparr>) True [] fresh_disk (BATCH_COUNTER [])"
  obtain s where s: "flush_all ?s0 sample_fed = Some (Ready (), s, no_queues)" "sent s \<noteq> []" using sample_sends [OF refl] by blast
  have b: "batches_within (2 ^ 32) ?s0 sample_fed" using sample_fed_batches(1) sample_sender_new(1-3) [OF refl] by blast
  have "readable f" if "f \<in> set (sent s)" for f
    using frames_within_batch_size [OF sample_started _ _ _ _ _ sample_run [OF s(1)], of f] b that
    by (auto simp: sample_config_def readable_def)
  with sample_run [OF s(1)] s(2) show ?thesis by blast
qed

theorem batch_ids_identify_witness:
  "\<exists>s. sys_run sample_serde (sample_started None []) (sample_flushed None [] s) \<and> sent s \<noteq> [] \<and>
    (\<forall>f\<in>set (sent s). \<forall>g\<in>set (sent s). batch_id_of f \<noteq> None \<and> (batch_id_of f = batch_id_of g \<longrightarrow> f = g))"
proof -
  let ?s0 = "sender_new (sample_config\<lparr>tc_buffer_path := None\<rparr>) True [] fresh_disk (BATCH_COUNTER [])"
  obtain s where s: "flush_all ?s0 sample_fed = Some (Ready (), s, no_queues)" "sent s \<noteq> []" using sample_sends [OF refl] by blast
  have b: "batches_within (2 ^ 32) ?s0 sample_fed" using sample_fed_batches(1) sample_sender_new(1-3) [OF refl] by blast
  have "batch_id_of f \<noteq> None \<and> (batch_id_of f = batch_id_of g \<longrightarrow> f = g)" if "f \<in> set (sent s)" "g \<in> set (sent s)" for f g
    using batch_ids_identify [OF sample_started _ _ _ _ sample_run [OF s(1)], of f g] b that
    by (simp add: sample_config_def sample_fed_def no_queues_def entry_count_def BATCH_COUNTER_def)
  with sample_run [OF s(1)] s(2) show ?thesis by blast
qed

end
