(* ===== verification/Worker_Crash.thy ===== *)
theory Worker_Crash
  imports Worker_Drain Disk_Crash
begin

section \<open>A worker after a crash\<close>

text \<open>
  A process is killed inside an operation of its log, and a worker starts on what is on the disk.
  When every write succeeds, everything the log held is written to the connection. When the
  collector is still down for a moment, a frame of the log can be lost behind the torn tail.
\<close>

lemma drain_loop_torn:
  assumes "online s" "torn_rep buf a b c t"
  shows "\<exists>tr buf' a' b'. drain_loop s buf = Some (Ready (), s\<lparr>sn_transport := tr\<rparr>, buf') \<and>
    online (s\<lparr>sn_transport := tr\<rparr>) \<and> written tr = sent s @ c \<and> db_rep buf' a' b' []"
  using assms
proof (induction c arbitrary: s buf b)
  case Nil
  obtain buf' a' b' where "drain_next buf = (Inr None, buf')" "db_rep buf' a' b' []"
    using drain_torn_Nil [OF Nil(2)] by blast
  with Nil(1) show ?case
    by (intro exI [of _ "sn_transport s"] exI [of _ buf'] exI [of _ a'] exI [of _ b'], subst drain_loop.simps)
      (simp add: sent_def)
next
  case (Cons f c)
  obtain buf1 where d: "drain_next buf = (Inr (Some f), buf1)" "torn_rep buf1 a (b @ [f]) c t"
    using drain_torn_Cons [OF Cons.prems(2)] by blast
  have "frame_ok f" using Cons.prems(2) by (simp add: torn_rep_def)
  then obtain tr where tr: "await_send f s = (Ready (Inr ()), s\<lparr>sn_transport := tr\<rparr>)" "online (s\<lparr>sn_transport := tr\<rparr>)"
    "sent (s\<lparr>sn_transport := tr\<rparr>) = sent s @ [f]"
    using await_send_online [OF Cons.prems(1) frame_ok_sendable] by blast
  from Cons.IH [OF tr(2) d(2)] obtain u buf' a' b' where
    "drain_loop (s\<lparr>sn_transport := tr\<rparr>) buf1 = Some (Ready (), s\<lparr>sn_transport := u\<rparr>, buf')"
    "online (s\<lparr>sn_transport := u\<rparr>)" "written u = sent s @ f # c" "db_rep buf' a' b' []"
    using tr(3) by auto
  with d tr show ?case
    by (intro exI [of _ u] exI [of _ buf'] exI [of _ a'] exI [of _ b'], subst drain_loop.simps) simp
qed

lemma drain_torn_online:
  assumes "online s" "sn_disk_buffer s = Some buf" "torn_rep buf a b c t"
  shows "\<exists>s' buf' a' b'. drain_disk_buffer s = Some (Ready (), s') \<and> online s' \<and> sent s' = sent s @ c \<and>
    sn_reports s' = sn_reports s \<and> sn_disk_buffer s' = Some buf' \<and> db_rep buf' a' b' []"
proof (cases "is_empty buf")
  case True
  then have "length (wal_of c @ t) = 0" using assms(3) by (simp add: torn_rep_def is_empty_def)
  then have "c = []" "t = []" using wal_of_Nil_iff [of c] by simp_all
  then have "db_rep buf a b []" using assms(3) torn_rep_whole by simp
  with True assms(1,2) \<open>c = []\<close> show ?thesis by (simp add: drain_disk_buffer_def) blast
next
  case False
  obtain tr buf1 a1 b1 where l: "drain_loop s buf = Some (Ready (), s\<lparr>sn_transport := tr\<rparr>, buf1)"
    "online (s\<lparr>sn_transport := tr\<rparr>)" "written tr = sent s @ c" "db_rep buf1 a1 b1 []"
    using drain_loop_torn [OF assms(1,3)] by blast
  obtain buf2 a' where "commit buf1 = (Inr (), buf2)" "db_rep buf2 a' [] []"
    using commit_rep [OF l(4)] by blast
  with l False assms(2) show ?thesis
    by (simp add: drain_disk_buffer_def sent_def online_def) blast
qed

lemma fresh_sender:
  assumes "tc_buffer_path config \<noteq> None" "open_buffer (tc_buffer_max_bytes config) d = (Inr (), buf)"
    and "s = sender_new config on_error net d batch_id"
  shows "sn_disk_buffer s = Some buf" "sent s = []" "sn_reports s = []" "sn_deadline s = None" "tp_stream (sn_transport s) = None"
    "tp_net (sn_transport s) = net" "stream_ok (sn_transport s)" "sn_on_error s = on_error"
  using assms by (auto simp: sender_new_def Let_def transport_new_def stream_ok_def sent_def written_def connections_def)

lemma torn_body: "frame_ok x \<Longrightarrow> k < length x \<Longrightarrow> torn (u32_le (as_u32 (length x)) @ take k x)"
  unfolding torn_def by (intro exI [of _ x] exI [of _ "4 + k"]) (simp add: frame_def frame_size_eq)

lemma append_body_fails:
  assumes "db_wal_file s" "db_write_pos s - db_read_pos s + frame_size x \<le> db_max_bytes s"
  shows "append x (with_faults [Fine, Fail k] s) =
    (Inl OtherIo, append_wal (take k x) (append_wal (u32_le (as_u32 (length x))) (with_faults [] s)))"
  using assms
  by (simp add: append_def Let_def evict_if_needed_def frame_size_def file_handle_def io_simps
      append_wal_def on_disk_def with_faults_def wal_bytes_def)

lemma append_raw:
  assumes "raw_rep s p r" "length r + frame_size x \<le> db_max_bytes s"
  shows "\<exists>s'. append x s = (Inr 0, s') \<and> raw_rep s' p (r @ frame x) \<and> db_max_bytes s' = db_max_bytes s"
proof -
  have s: "healthy s" "d_wal (db_disk s) = Some (p @ r)" "db_write_pos s - db_read_pos s + frame_size x \<le> db_max_bytes s"
    using assms by (simp_all add: raw_rep_def)
  show ?thesis
    unfolding append_room [OF s] using assms(1) by (auto simp: raw_rep_def frame_size_eq healthy_faults)
qed

lemma connect_fails:
  assumes "tp_stream (sn_transport s) = None" "tp_net (sn_transport s) = [Fails j]" "sn_deadline s = None" "stream_ok (sn_transport s)"
  shows "\<exists>t. await_send d s = (Ready (Inl (IoError OtherIo)), s\<lparr>sn_transport := t\<rparr>) \<and> written t = sent s \<and>
    tp_net t = [] \<and> stream_ok t"
  using assms
  by (auto simp: await_send_def cut_off_def send_frame_def ensure_connected_def connect_def next_outcome_def
      sent_def written_def connections_def stream_ok_def)

text \<open>
  C11: after a kill the next worker sends what the log held. The process is killed inside an
  operation that writes no frame anew (\<open>rewrites_nothing\<close>: an append that evicts nothing, a commit
  that compacts no tail, a drain or a reopening). Whatever calls of it failed and wherever it was
  stopped, a worker that starts on the disk, when every connect and write succeeds, writes to the
  connection, in its first drain, exactly the frames that were not yet committed, each once and in
  order, reports nothing, and leaves the log empty and whole. A frame whose append had returned is
  among them, and one whose append had not is written whole or not at all. Inside a compaction
  this fails: \<open>compaction_crash_loses_all\<close>.
\<close>

theorem restart_after_kill_sends:
  assumes "db_rep s a b c" "list_all frame_ok (pushed [op])" "rewrites_nothing op s"
    and "log_call op (with_faults fs s) = (ok, s')" "tc_buffer_path config \<noteq> None"
  shows "\<exists>l w buf a' b'. l \<in> set (survivors op ok b c) \<and>
    drain_disk_buffer (sender_new config on_error [] (after_kill s') batch_id) = Some (Ready (), w) \<and>
    sent w = l \<and> sn_reports w = [] \<and> sn_disk_buffer w = Some buf \<and> db_rep buf a' b' []"
proof -
  obtain l s1 a1 t where 1: "l \<in> set (survivors op ok b c)"
    "open_buffer (tc_buffer_max_bytes config) (after_kill s') = (Inr (), s1)" "torn_rep s1 a1 [] l t"
    using killed_log [OF assms(1-4), of "tc_buffer_max_bytes config"] by blast
  let ?w = "sender_new config on_error [] (after_kill s') batch_id"
  note w = fresh_sender [OF assms(5) 1(2) refl, of on_error "[]" batch_id]
  have "online ?w" using w by (simp add: online_def)
  from drain_torn_online [OF this w(1) 1(3)] obtain w1 buf a' b' where
    "drain_disk_buffer ?w = Some (Ready (), w1)" "sent w1 = l" "sn_reports w1 = []"
    "sn_disk_buffer w1 = Some buf" "db_rep buf a' b' []"
    using w(2,3) by auto
  with 1(1) show ?thesis by blast
qed

theorem restart_after_kill_sends_witness:
  "\<exists>ok s' w. log_call (Push [3, 4, 5]) (with_faults [Fine, Fail 2] (sample_db 100 [[1, 2]])) = (ok, s') \<and>
    drain_disk_buffer (sender_new (sample_config\<lparr>tc_buffer_path := Some []\<rparr>) True [] (after_kill s') (BATCH_COUNTER [])) = Some (Ready (), w) \<and>
    sent w \<in> {[[1, 2]], [[1, 2], [3, 4, 5]]}"
proof -
  obtain ok s' where call: "log_call (Push [3, 4, 5]) (with_faults [Fine, Fail 2] (sample_db 100 [[1, 2]])) = (ok, s')"
    by fastforce
  have "db_rep (sample_db 100 [[1, 2]]) [] [] [[1, 2]]"
    by (rule sample_db_rep) (simp add: frame_ok_def MAX_FRAME_LEN_def)
  from restart_after_kill_sends [OF this _ _ call, of "sample_config\<lparr>tc_buffer_path := Some []\<rparr>" True "BATCH_COUNTER []"]
  obtain l w where "l \<in> set (survivors (Push [3, 4, 5]) ok [] [[1, 2]])" "sent w = l"
    "drain_disk_buffer (sender_new (sample_config\<lparr>tc_buffer_path := Some []\<rparr>) True [] (after_kill s') (BATCH_COUNTER [])) = Some (Ready (), w)"
    by (auto simp: frame_ok_def MAX_FRAME_LEN_def sample_db_def buffered_bytes_def frame_size_eq)
  moreover from this(1) have "l \<in> {[[1, 2]], [[1, 2], [3, 4, 5]]}" by (auto split: if_splits)
  ultimately show ?thesis using call by blast
qed

text \<open>
  C37: a torn tail and one failed connection lose a frame that was stored. The frame \<open>f\<close> is in the
  log when a longer append is cut short. The next worker opens the log, drains \<open>f\<close>, cannot connect,
  and puts \<open>f\<close> back, behind the torn tail; the next drain takes the stale header for a truncated
  last frame and drops everything behind it. No call fails, \<open>f\<close> was neither sent nor kept, and no
  error of the buffer is reported.
\<close>

theorem torn_tail_loses_stored_frame:
  assumes "db_rep s a [] [f]" "db_wal_file s" "frame_ok x" "k + frame_size f < length x"
    and "frame_size f + frame_size x \<le> db_max_bytes s"
    and "tc_buffer_path config \<noteq> None" "4 + k + frame_size f \<le> tc_buffer_max_bytes config"
  shows "\<exists>s' w1 w2. append x (with_faults [Fine, Fail k] s) = (Inl OtherIo, s') \<and>
    drain_disk_buffer (sender_new config on_error [Fails j] (after_kill s') batch_id) = Some (Ready (), w1) \<and>
    drain_disk_buffer w1 = Some (Ready (), w2) \<and>
    sent w2 = [] \<and> buffered w2 [] \<and> sn_reports w2 = (if on_error then [IoError OtherIo] else [])"
proof -
  let ?h = "u32_le (as_u32 (length x))" and ?t = "u32_le (as_u32 (length x)) @ take k x"
  let ?m = "tc_buffer_max_bytes config"
  have cut: "k < length x" and f: "frame_ok f" using assms(1,4) by (simp_all add: db_rep_def)
  have s: "db_write_pos s - db_read_pos s = frame_size f" "d_wal (db_disk s) = Some (a @ frame f)" "\<not> d_symlink (db_disk s)"
    "d_cursor (db_disk s) = CursorAt (length a) \<or> d_cursor (db_disk s) = NoCursor \<and> a = []"
    using assms(1) by (auto simp: db_rep_def frame_size_eq)
  define s' where "s' = append_wal (take k x) (append_wal ?h (with_faults [] s))"
  have 1: "append x (with_faults [Fine, Fail k] s) = (Inl OtherIo, s')"
    using append_body_fails [of s x k] assms(2,5) s(1) by (simp add: s'_def)
  have "wal_left (a @ wal_of [f] @ ?t) (d_cursor (db_disk s)) s'"
    using s(2,3) by (simp add: wal_left_def s'_def append_wal_def on_disk_def wal_bytes_def)
  then obtain buf where buf: "open_buffer ?m (after_kill s') = (Inr (), buf)" "torn_rep buf a [] [f] ?t" "db_max_bytes buf = ?m"
    using open_torn [OF _ s(4) torn_body [OF assms(3) cut], of "[f]" s' ?m] f by auto
  let ?w = "sender_new config on_error [Fails j] (after_kill s') batch_id"
  note w = fresh_sender [OF assms(6) buf(1) refl, of on_error "[Fails j]" batch_id]
  obtain buf1 where d: "drain_next buf = (Inr (Some f), buf1)" "torn_rep buf1 a [f] [] ?t" "db_max_bytes buf1 = ?m"
    using drain_torn_Cons [OF buf(2)] buf(3) by auto
  obtain tr where tr: "await_send f ?w = (Ready (Inl (IoError OtherIo)), ?w\<lparr>sn_transport := tr\<rparr>)"
    "written tr = []" "tp_net tr = []" "stream_ok tr"
    using connect_fails [of ?w j f] w by auto
  have raw1: "raw_rep buf1 (a @ frame f) ?t" using torn_rep_raw [OF d(2)] by simp
  obtain buf2 where p: "append f buf1 = (Inr 0, buf2)" "raw_rep buf2 (a @ frame f) (?t @ frame f)"
    using append_raw [OF raw1, of f] d(3) assms(7) cut by (auto simp: frame_size_eq)
  obtain buf3 p3 where c: "commit buf2 = (Inr (), buf3)" "raw_rep buf3 p3 (?t @ frame f)"
    using commit_raw [OF p(2)] by blast
  define w1 where "w1 = report (IoError OtherIo) (?w\<lparr>sn_transport := tr\<rparr>)\<lparr>sn_disk_buffer := Some buf3\<rparr>"
  have "\<not> is_empty buf" using buf(2) by (simp add: is_empty_def torn_rep_def)
  moreover have "drain_loop ?w buf = Some (Ready (), report (IoError OtherIo) (?w\<lparr>sn_transport := tr\<rparr>), buf2)"
    using d(1) tr(1) p(1) by (subst drain_loop.simps) simp
  ultimately have 2: "drain_disk_buffer ?w = Some (Ready (), w1)"
    using w(1) c(1) by (simp add: drain_disk_buffer_def w1_def report_def)
  obtain buf4 q where e: "drain_next buf3 = (Inr None, buf4)" "db_rep buf4 q [] []"
    using drain_short [of buf3 p3 x "take k x @ frame f"] c(2) assms(3,4) by (auto simp: frame_size_eq)
  obtain buf5 q' where g: "commit buf4 = (Inr (), buf5)" "db_rep buf5 q' [] []" using commit_rep [OF e(2)] by blast
  have "\<not> is_empty buf3" using c(2) by (simp add: is_empty_def raw_rep_def)
  then have 3: "drain_disk_buffer w1 = Some (Ready (), w1\<lparr>sn_disk_buffer := Some buf5\<rparr>)"
    using e(1) g(1) by (simp add: drain_disk_buffer_def w1_def drain_loop.simps report_def)
  show ?thesis
    using 1 2 3 g(2) w(3,8) tr(2)
    by (intro exI [of _ s'] exI [of _ w1] exI [of _ "w1\<lparr>sn_disk_buffer := Some buf5\<rparr>"])
      (auto simp: w1_def report_def sent_def buffered_def)
qed

theorem torn_tail_loses_stored_frame_witness:
  "\<exists>s' w1 w2. append (zeros 20) (with_faults [Fine, Fail 1] (sample_db 100 [[7]])) = (Inl OtherIo, s') \<and>
    drain_disk_buffer (sender_new (sample_config\<lparr>tc_buffer_path := Some [], tc_buffer_max_bytes := 100\<rparr>) True [Fails 0]
      (after_kill s') (BATCH_COUNTER [])) = Some (Ready (), w1) \<and>
    drain_disk_buffer w1 = Some (Ready (), w2) \<and> sent w2 = [] \<and> buffered w2 [] \<and> sn_reports w2 = [IoError OtherIo]"
proof -
  have "db_rep (sample_db 100 [[7]]) [] [] [[7]]"
    by (rule sample_db_rep) (simp add: frame_ok_def MAX_FRAME_LEN_def)
  from torn_tail_loses_stored_frame [OF this, of "zeros 20" 1
      "sample_config\<lparr>tc_buffer_path := Some [], tc_buffer_max_bytes := 100\<rparr>" True 0 "BATCH_COUNTER []"]
  show ?thesis by (simp add: sample_db_def frame_ok_def MAX_FRAME_LEN_def frame_size_eq)
qed

end
