(* ===== verification/Enqueue_Race.thy ===== *)
theory Enqueue_Race
  imports Client_Props
begin

section \<open>Threads in \<open>enqueue\<close> at once (\<open>client/mod.rs\<close>)\<close>

text \<open>
  The client model runs a call of \<open>enqueue\<close> as one step. Here any number of threads are inside
  it together, and each access to the channel and to the atomics \<open>queue_full\<close> and \<open>dropped\<close> is
  a step of its own, interleaved in any order; the worker takes messages in between, and it may
  stop for good, after which every send fails. The steps are those of \<open>enqueue\<close> and
  \<open>record_drop\<close>. Accesses are sequentially consistent here; the code
  asks only for \<open>Relaxed\<close>, which allows these interleavings and more.
\<close>

datatype enqueue_pc =
    Outside
  | Loading
  | Storing
  | Counting
  | Looking u64
  | Swapping u64
  | Reporting u64

text \<open>
  What the threads share, where each is, and, as history, how many sends succeeded and failed
  and how often \<open>queue_full\<close> was reset.
\<close>

record Race =
  rc_queued :: nat
  rc_capacity :: nat
  rc_connected :: bool
  rc_queue_full :: bool
  rc_dropped :: u64
  rc_reports :: "u64 list"
  rc_threads :: "enqueue_pc list"
  rc_sent :: nat
  rc_failed :: nat
  rc_resets :: nat

definition at_pc :: "nat \<Rightarrow> enqueue_pc \<Rightarrow> Race \<Rightarrow> Race" where
  "at_pc i p s = s\<lparr>rc_threads := (rc_threads s)[i := p]\<rparr>"

text \<open>The next access of thread \<open>i\<close>.\<close>

definition enqueue_micro :: "nat \<Rightarrow> Race \<Rightarrow> Race" where
  "enqueue_micro i s =
    (if length (rc_threads s) \<le> i then s
     else case rc_threads s ! i of
       Outside \<Rightarrow>
         if rc_connected s \<and> rc_queued s < rc_capacity s
         then at_pc i Loading (s\<lparr>rc_queued := rc_queued s + 1, rc_sent := rc_sent s + 1\<rparr>)
         else at_pc i Counting (s\<lparr>rc_failed := rc_failed s + 1\<rparr>)
     | Loading \<Rightarrow> at_pc i (if rc_queue_full s then Storing else Outside) s
     | Storing \<Rightarrow> at_pc i Outside (s\<lparr>rc_queue_full := False,
         rc_resets := rc_resets s + (if rc_queue_full s then 1 else 0)\<rparr>)
     | Counting \<Rightarrow> at_pc i (Looking (rc_dropped s + 1)) (s\<lparr>rc_dropped := rc_dropped s + 1\<rparr>)
     | Looking d \<Rightarrow> at_pc i (if rc_queue_full s then Outside else Swapping d) s
     | Swapping d \<Rightarrow> at_pc i (if rc_queue_full s then Outside else Reporting d) (s\<lparr>rc_queue_full := True\<rparr>)
     | Reporting d \<Rightarrow> at_pc i Outside (s\<lparr>rc_reports := rc_reports s @ [d]\<rparr>))"

datatype race_move = Go nat | WorkerTakes | WorkerLeaves

fun race_step :: "race_move \<Rightarrow> Race \<Rightarrow> Race" where
  "race_step (Go i) s = enqueue_micro i s"
| "race_step WorkerTakes s = s\<lparr>rc_queued := rc_queued s - 1\<rparr>"
| "race_step WorkerLeaves s = s\<lparr>rc_connected := False\<rparr>"

definition race_run :: "race_move list \<Rightarrow> Race \<Rightarrow> Race" where
  "race_run = fold race_step"

definition race_start :: "nat \<Rightarrow> nat \<Rightarrow> Race" where
  "race_start threads capacity = \<lparr>rc_queued = 0, rc_capacity = capacity, rc_connected = True, rc_queue_full = False, rc_dropped = 0,
     rc_reports = [], rc_threads = replicate threads Outside, rc_sent = 0, rc_failed = 0, rc_resets = 0\<rparr>"

lemma race_run_simps [simp]:
  "race_run [] s = s" "race_run (m # ms) s = race_run ms (race_step m s)"
  "race_run (ms @ ns) s = race_run ns (race_run ms s)"
  by (simp_all add: race_run_def)

subsection \<open>Counting over the threads\<close>

definition tally :: "('p \<Rightarrow> 'b multiset) \<Rightarrow> 'p list \<Rightarrow> 'b multiset" where
  "tally f ps = \<Sum>\<^sub># (image_mset f (mset ps))"

lemma tally_simps [simp]: "tally f [] = {#}" "tally f (p # ps) = f p + tally f ps"
  by (simp_all add: tally_def)

lemma tally_update:
  "i < length ps \<Longrightarrow> tally f (ps[i := p]) + f (ps ! i) = tally f ps + f p"
proof (induction ps arbitrary: i)
  case (Cons q ps)
  then show ?case by (cases i) (auto simp: ac_simps)
qed simp

lemma tally_outside: "f Outside = {#} \<Longrightarrow> list_all (\<lambda>p. p = Outside) ps \<Longrightarrow> tally f ps = {#}"
  by (induction ps) auto

text \<open>The drop numbers the threads hold, the drops not yet counted, and the reports under way.\<close>

fun held :: "enqueue_pc \<Rightarrow> u64 multiset" where
  "held (Looking d) = {#d#}"
| "held (Swapping d) = {#d#}"
| "held (Reporting d) = {#d#}"
| "held _ = {#}"

fun uncounted :: "enqueue_pc \<Rightarrow> unit multiset" where
  "uncounted Counting = {#()#}"
| "uncounted _ = {#}"

fun about_to_report :: "enqueue_pc \<Rightarrow> unit multiset" where
  "about_to_report (Reporting d) = {#()#}"
| "about_to_report _ = {#}"

fun about_to_store :: "enqueue_pc \<Rightarrow> unit multiset" where
  "about_to_store Loading = {#()#}"
| "about_to_store Storing = {#()#}"
| "about_to_store _ = {#}"

fun undecided :: "enqueue_pc \<Rightarrow> unit multiset" where
  "undecided Counting = {#()#}"
| "undecided (Looking d) = {#()#}"
| "undecided (Swapping d) = {#()#}"
| "undecided _ = {#}"

text \<open>
  Each reset of the flag belongs to a send that succeeded, each report to a moment the flag went
  up, and a drop is decided only when the flag has gone up before.
\<close>

definition race_inv :: "Race \<Rightarrow> bool" where
  "race_inv s \<longleftrightarrow> rc_queued s \<le> rc_capacity s \<and>
     length (rc_reports s) + size (tally about_to_report (rc_threads s)) = rc_resets s + (if rc_queue_full s then 1 else 0) \<and>
     rc_resets s + size (tally about_to_store (rc_threads s)) \<le> rc_sent s \<and>
     (rc_failed s = size (tally undecided (rc_threads s)) \<or> 0 < rc_resets s + (if rc_queue_full s then 1 else 0)) \<and>
     size (tally undecided (rc_threads s)) \<le> rc_failed s"

text \<open>The numbers given out are those from 1 to the count, each to one failed send.\<close>

definition numbers_ok :: "Race \<Rightarrow> bool" where
  "numbers_ok s \<longleftrightarrow> (rc_failed s < 2 ^ 64 \<longrightarrow>
     unat (rc_dropped s) + size (tally uncounted (rc_threads s)) = rc_failed s \<and>
     (\<forall>d. count (mset (rc_reports s) + tally held (rc_threads s)) d \<le> (if 0 < d \<and> d \<le> rc_dropped s then 1 else 0)))"

lemma tally_start [simp]: "f Outside = {#} \<Longrightarrow> tally f (replicate n Outside) = {#}"
  by (rule tally_outside) (simp_all add: list_all_iff)

lemma race_inv_start: "race_inv (race_start n c)" "numbers_ok (race_start n c)"
  by (simp_all add: race_inv_def numbers_ok_def race_start_def)

lemma size_tally_update:
  "i < length ps \<Longrightarrow> size (tally f (ps[i := p])) + size (f (ps ! i)) = size (tally f ps) + size (f p)"
  using arg_cong [OF tally_update, of i ps size f p] by simp

lemma race_inv_micro:
  assumes "race_inv s"
  shows "race_inv (enqueue_micro i s)"
proof (cases "length (rc_threads s) \<le> i")
  case False
  then have i: "i < length (rc_threads s)" by simp
  note upd = size_tally_update [OF i, of about_to_report] size_tally_update [OF i, of about_to_store]
    size_tally_update [OF i, of undecided]
  show ?thesis
    using assms i upd [of Outside] upd [of Loading] upd [of Storing] upd [of Counting]
      upd [of "Looking (rc_dropped s + 1)"]
      upd [of "case rc_threads s ! i of Looking d \<Rightarrow> Swapping d | Swapping d \<Rightarrow> Reporting d | _ \<Rightarrow> Outside"]
    by (cases "rc_threads s ! i") (auto simp: race_inv_def enqueue_micro_def at_pc_def split: if_splits)
qed (use assms in \<open>simp add: enqueue_micro_def\<close>)

lemma race_inv_run: "race_inv s \<Longrightarrow> race_inv (race_run ms s)"
proof (induction ms arbitrary: s)
  case (Cons m ms)
  have "race_inv (race_step m s)"
    using race_inv_micro [OF Cons.prems] Cons.prems by (cases m) (auto simp: race_inv_def)
  then show ?case by (simp add: Cons.IH)
qed simp

text \<open>No number is given out twice while the count does not wrap.\<close>

lemma numbers_fewer:
  assumes "numbers_ok s" "rc_dropped s' = rc_dropped s"
    and "mset (rc_reports s') + tally held (rc_threads s') \<subseteq># mset (rc_reports s) + tally held (rc_threads s)"
    and "rc_failed s' + size (tally uncounted (rc_threads s)) = rc_failed s + size (tally uncounted (rc_threads s'))"
    and "rc_failed s \<le> rc_failed s'"
  shows "numbers_ok s'"
proof -
  have le: "count (mset (rc_reports s') + tally held (rc_threads s')) d \<le> count (mset (rc_reports s) + tally held (rc_threads s)) d" for d
    by (rule mset_subset_eq_count [OF assms(3)])
  show ?thesis unfolding numbers_ok_def assms(2)
  proof (intro impI conjI allI)
    assume "rc_failed s' < 2 ^ 64"
    then have ok: "unat (rc_dropped s) + size (tally uncounted (rc_threads s)) = rc_failed s"
      "count (mset (rc_reports s) + tally held (rc_threads s)) d \<le> (if 0 < d \<and> d \<le> rc_dropped s then 1 else 0)" for d
      using assms(1,5) by (simp_all add: numbers_ok_def)
    show "unat (rc_dropped s) + size (tally uncounted (rc_threads s')) = rc_failed s'" using ok(1) assms(4) by linarith
    show "count (mset (rc_reports s') + tally held (rc_threads s')) d \<le> (if 0 < d \<and> d \<le> rc_dropped s then 1 else 0)" for d
      by (rule order_trans [OF le ok(2)])
  qed
qed

lemma numbers_micro:
  assumes "numbers_ok s"
  shows "numbers_ok (enqueue_micro i s)"
proof (cases "length (rc_threads s) \<le> i")
  case False
  then have i: "i < length (rc_threads s)" by simp
  note upd = size_tally_update [OF i, of uncounted] tally_update [OF i, of held]
  show ?thesis
  proof (cases "rc_threads s ! i")
    case Counting
    let ?s = "enqueue_micro i s" and ?d = "rc_dropped s + 1"
    show ?thesis unfolding numbers_ok_def
    proof (rule impI)
      assume "rc_failed ?s < 2 ^ 64"
      then have small: "rc_failed s < 2 ^ 64" using i Counting by (simp add: enqueue_micro_def at_pc_def)
      have ok: "unat (rc_dropped s) + size (tally uncounted (rc_threads s)) = rc_failed s"
        "count (mset (rc_reports s) + tally held (rc_threads s)) d \<le> (if 0 < d \<and> d \<le> rc_dropped s then 1 else 0)" for d
        using assms small by (simp_all add: numbers_ok_def)
      have u: "size (tally uncounted (rc_threads s)) = Suc (size (tally uncounted ((rc_threads s)[i := Looking ?d])))"
        using upd(1) [of "Looking ?d"] Counting by simp
      have h: "tally held ((rc_threads s)[i := Looking ?d]) = add_mset ?d (tally held (rc_threads s))"
        using upd(2) [of "Looking ?d"] Counting by simp
      have lt: "unat (rc_dropped s) + 1 < 2 ^ 64" using ok(1) u small by simp
      then have d: "unat ?d = unat (rc_dropped s) + 1" by (simp add: unat_word_ariths)
      have "count (mset (rc_reports s) + tally held (rc_threads s)) ?d = 0"
        using ok(2) [of ?d] d by (auto simp: word_le_nat_alt split: if_splits)
      moreover have "0 < ?d" "e \<le> rc_dropped s \<Longrightarrow> e \<le> ?d" for e
        using d by (simp_all add: word_less_nat_alt word_le_nat_alt)
      ultimately have "count (add_mset ?d (mset (rc_reports s) + tally held (rc_threads s))) e \<le> (if 0 < e \<and> e \<le> ?d then 1 else 0)" for e
        using order_trans [OF ok(2) [of e], of "if 0 < e \<and> e \<le> ?d then 1 else 0"] by (cases "e = ?d") simp_all
      then show "unat (rc_dropped ?s) + size (tally uncounted (rc_threads ?s)) = rc_failed ?s \<and>
        (\<forall>e. count (mset (rc_reports ?s) + tally held (rc_threads ?s)) e \<le> (if 0 < e \<and> e \<le> rc_dropped ?s then 1 else 0))"
        using i Counting ok(1) u h d by (simp add: enqueue_micro_def at_pc_def)
    qed
  next
    case (Looking d)
    show ?thesis
      using i Looking upd(1) [of Outside] upd(1) [of "Swapping d"] upd(2) [of Outside] upd(2) [of "Swapping d"]
      by (intro numbers_fewer [OF assms])
        (auto simp: enqueue_micro_def at_pc_def subset_mset.le_iff_add intro: exI [of _ "{#d#}"])
  next
    case (Swapping d)
    show ?thesis
      using i Swapping upd(1) [of Outside] upd(1) [of "Reporting d"] upd(2) [of Outside] upd(2) [of "Reporting d"]
      by (intro numbers_fewer [OF assms])
        (auto simp: enqueue_micro_def at_pc_def subset_mset.le_iff_add intro: exI [of _ "{#d#}"])
  next
    case (Reporting d)
    show ?thesis
      using i Reporting upd(1) [of Outside] upd(2) [of Outside]
      by (intro numbers_fewer [OF assms]) (auto simp: enqueue_micro_def at_pc_def)
  qed (use i upd(1) [of Outside] upd(1) [of Loading] upd(1) [of Storing] upd(1) [of Counting]
      upd(2) [of Outside] upd(2) [of Loading] upd(2) [of Storing] upd(2) [of Counting] in
      \<open>auto simp: enqueue_micro_def at_pc_def intro!: numbers_fewer [OF assms]\<close>)
qed (use assms in \<open>simp add: enqueue_micro_def\<close>)

lemma numbers_run: "numbers_ok s \<Longrightarrow> numbers_ok (race_run ms s)"
proof (induction ms arbitrary: s)
  case (Cons m ms)
  have "numbers_ok (race_step m s)"
    using numbers_micro [OF Cons.prems] Cons.prems by (cases m) (auto simp: numbers_ok_def)
  then show ?case by (simp add: Cons.IH)
qed simp

subsection \<open>What every interleaving keeps\<close>

text \<open>
  C14: however threads interleave inside \<open>enqueue\<close>, with the worker taking messages or gone,
  drops are counted and numbered exactly as long as there are fewer than \<open>2 ^ 64\<close>: the count and
  the threads about to count make up the failed sends, whether the channel was full or closed,
  and the reports carry distinct drop numbers, none beyond the count. There is one report, made
  or under way, for each time \<open>queue_full\<close> went up, and it is reset at most once for each send
  that succeeded. Once all threads are out there is at least one report if anything was dropped;
  a report for each drop, or for each time the channel was full, is not promised:
  \<open>full_episode_miscounted\<close> below has a drop that no report follows.
\<close>

theorem racing_drops_counted:
  assumes "s = race_run ms (race_start n capacity)" "rc_failed s < 2 ^ 64"
  shows "rc_queued s \<le> rc_capacity s \<and>
    unat (rc_dropped s) + size (tally uncounted (rc_threads s)) = rc_failed s \<and>
    distinct (rc_reports s) \<and> (\<forall>d\<in>set (rc_reports s). 0 < d \<and> d \<le> rc_dropped s) \<and>
    length (rc_reports s) + size (tally about_to_report (rc_threads s)) = rc_resets s + (if rc_queue_full s then 1 else 0) \<and>
    rc_resets s \<le> rc_sent s \<and>
    (0 < rc_failed s \<and> list_all (\<lambda>p. p = Outside) (rc_threads s) \<longrightarrow> rc_reports s \<noteq> [])"
proof -
  have inv: "race_inv s" "numbers_ok s"
    unfolding assms(1) by (intro race_inv_run numbers_run race_inv_start)+
  have c: "count (mset (rc_reports s)) d \<le> (if 0 < d \<and> d \<le> rc_dropped s then 1 else 0)" for d
  proof -
    have "count (mset (rc_reports s) + tally held (rc_threads s)) d \<le> (if 0 < d \<and> d \<le> rc_dropped s then 1 else 0)"
      using inv(2) assms(2) unfolding numbers_ok_def by blast
    then show ?thesis unfolding count_union by (rule add_leD1)
  qed
  have "distinct (rc_reports s)"
  proof -
    have "count (mset (rc_reports s)) d = (if d \<in> set (rc_reports s) then 1 else 0)" for d
      using c [of d] count_mset_0_iff [of "rc_reports s" d] by (auto split: if_splits simp: le_Suc_eq)
    then show ?thesis unfolding distinct_count_atmost_1 by blast
  qed
  moreover have "0 < d \<and> d \<le> rc_dropped s" if "d \<in> set (rc_reports s)" for d
    using c [of d] that by (auto simp: count_mset_0_iff split: if_splits)
  moreover have "rc_reports s \<noteq> []" if "0 < rc_failed s" "list_all (\<lambda>p. p = Outside) (rc_threads s)"
    using inv(1) that tally_outside [of undecided] tally_outside [of about_to_report] by (auto simp: race_inv_def)
  ultimately show ?thesis using inv assms(2) by (auto simp: race_inv_def numbers_ok_def)
qed

definition crowd :: "race_move list" where
  "crowd = replicate 9 (Go 2) @ [WorkerTakes, WorkerTakes, Go 0, Go 1, Go 0, Go 1, Go 0]"

theorem racing_drops_counted_witness:
  "\<exists>s. s = race_run crowd (race_start 3 2) \<and> rc_failed s = 1 \<and> unat (rc_dropped s) = 1 \<and> rc_reports s = [1]"
proof -
  have s: "race_run crowd (race_start 3 2) = \<lparr>rc_queued = 2, rc_capacity = 2, rc_connected = True, rc_queue_full = False, rc_dropped = 1,
     rc_reports = [1], rc_threads = [Outside, Storing, Outside], rc_sent = 4, rc_failed = 1, rc_resets = 1\<rparr>"
    by (simp add: crowd_def race_start_def enqueue_micro_def at_pc_def numeral_eq_Suc)
  then show ?thesis using racing_drops_counted [OF refl, of crowd 3 2] by auto
qed

subsection \<open>What it does not keep\<close>

text \<open>Whether the channel is full at every moment of a run.\<close>

fun full_throughout :: "race_move list \<Rightarrow> Race \<Rightarrow> bool" where
  "full_throughout [] s = (rc_queued s = rc_capacity s)"
| "full_throughout (m # ms) s = (rc_queued s = rc_capacity s \<and> full_throughout ms (race_step m s))"

text \<open>
  "One report per full episode" does not hold for threads that race. In the first run the
  channel stays full from one moment on, and two reports come after it: a sender that saw the flag
  of the episode before resets it late. In the second the channel is full, drops a message, and
  has room again, and that drop is never reported: the flag of the episode before is reset only
  afterwards.
\<close>

theorem full_episode_miscounted:
  "(\<exists>s ms. s = race_run crowd (race_start 3 2) \<and> full_throughout ms s \<and>
     rc_reports (race_run ms s) = rc_reports s @ [2, 3]) \<and>
   (\<exists>s ms. s = race_run (replicate 7 (Go 2) @ [WorkerTakes]) (race_start 3 1) \<and> rc_queued s = 0 \<and>
     rc_failed (race_run ms s) = rc_failed s + 1 \<and> list_all (\<lambda>p. p = Outside) (rc_threads (race_run ms s)) \<and>
     rc_queued (race_run ms s) = 0 \<and> rc_reports (race_run ms s) = rc_reports s)"
proof (rule conjI)
  show "\<exists>s ms. s = race_run crowd (race_start 3 2) \<and> full_throughout ms s \<and> rc_reports (race_run ms s) = rc_reports s @ [2, 3]"
    by (intro exI [of _ "race_run crowd (race_start 3 2)"] exI [of _ "replicate 5 (Go 2) @ [Go 1] @ replicate 5 (Go 2)"])
      (simp add: crowd_def race_start_def enqueue_micro_def at_pc_def numeral_eq_Suc)
  show "\<exists>s ms. s = race_run (replicate 7 (Go 2) @ [WorkerTakes]) (race_start 3 1) \<and> rc_queued s = 0 \<and>
     rc_failed (race_run ms s) = rc_failed s + 1 \<and> list_all (\<lambda>p. p = Outside) (rc_threads (race_run ms s)) \<and>
     rc_queued (race_run ms s) = 0 \<and> rc_reports (race_run ms s) = rc_reports s"
    by (intro exI [of _ "race_run (replicate 7 (Go 2) @ [WorkerTakes]) (race_start 3 1)"]
        exI [of _ "[Go 0, Go 2, Go 2, Go 2, WorkerTakes, Go 0, Go 0]"])
      (simp add: race_start_def enqueue_micro_def at_pc_def numeral_eq_Suc)
qed

subsection \<open>One thread alone\<close>

definition shares :: "Race \<Rightarrow> ('w, 'm) Tell \<Rightarrow> bool" where
  "shares s c \<longleftrightarrow> rc_queued s = length (tl_channel c) \<and> rc_capacity s = tl_capacity c \<and>
     rc_connected s = tl_connected c \<and> rc_queue_full s = tl_queue_full c \<and> rc_dropped s = tell_dropped c"

text \<open>
  A thread that no other disturbs does in small steps what \<open>enqueue\<close> does in one: the same
  channel length, flag, count and reports at the end, and the thread is out again; so it is if the
  channel is full, and if it is closed.
\<close>

theorem enqueue_alone:
  assumes "shares s c" "i < length (rc_threads s)" "rc_threads s ! i = Outside"
    and "enqueue msg c = (ok, c')"
  shows "\<exists>k new. shares (race_run (replicate k (Go i)) s) c' \<and> rc_threads (race_run (replicate k (Go i)) s) = rc_threads s \<and>
    rc_reports (race_run (replicate k (Go i)) s) = rc_reports s @ new \<and> tl_reports c' = tl_reports c @ (if tl_on_error c then map QueueFull new else []) \<and>
    (ok \<longleftrightarrow> rc_sent (race_run (replicate k (Go i)) s) = rc_sent s + 1)"
proof -
  note defs = enqueue_micro_def at_pc_def shares_def enqueue_def try_send_def record_drop_def report_error_def tell_dropped_def metrics_dropped_def Let_def
  have out: "(rc_threads s)[i := Outside] = rc_threads s" using assms(3) by (metis list_update_id)
  let ?room = "tl_connected c \<and> length (tl_channel c) < tl_capacity c"
  consider "?room" "\<not> tl_queue_full c" | "?room" "tl_queue_full c" | "\<not> ?room" "tl_queue_full c" | "\<not> ?room" "\<not> tl_queue_full c"
    by blast
  then show ?thesis
  proof cases
    case 1
    with assms out show ?thesis by (intro exI [of _ 2] exI [of _ "[]"]) (auto simp: defs numeral_eq_Suc)
  next
    case 2
    with assms out show ?thesis by (intro exI [of _ 3] exI [of _ "[]"]) (auto simp: defs numeral_eq_Suc)
  next
    case 3
    with assms out show ?thesis by (intro exI [of _ 3] exI [of _ "[]"]) (auto simp: defs numeral_eq_Suc)
  next
    case 4
    have step: "enqueue_micro i s = at_pc i Counting (s\<lparr>rc_failed := rc_failed s + 1\<rparr>)"
      using 4(1) assms(1-3) by (auto simp: enqueue_micro_def shares_def)
    have failed: "try_send msg c = None" using 4(1) by (auto simp: try_send_def)
    show ?thesis using assms out failed 4(2)
      by (intro exI [of _ 5] exI [of _ "[tell_dropped c + 1]"])
        (simp add: numeral_eq_Suc step, auto simp: enqueue_micro_def at_pc_def shares_def enqueue_def record_drop_def
          report_error_def tell_dropped_def metrics_dropped_def Let_def)
  qed
qed

theorem enqueue_alone_witness:
  "\<exists>k new. rc_reports (race_run (replicate k (Go 0)) ((race_start 1 1)\<lparr>rc_queued := 1\<rparr>)) = new \<and>
    tl_reports (snd (enqueue (FlushMsg 2) (sample_client\<lparr>tl_channel := [FlushMsg 1]\<rparr>))) = map QueueFull new"
proof -
  let ?c = "sample_client\<lparr>tl_channel := [FlushMsg 1]\<rparr>"
  have "enqueue (FlushMsg 2) ?c = (False, snd (enqueue (FlushMsg 2) ?c))"
    by (simp add: enqueue_def try_send_def sample_client_def Let_def record_drop_def)
  moreover have "shares ((race_start 1 1)\<lparr>rc_queued := 1\<rparr>) ?c" "tl_connected ?c" "tl_on_error ?c" "tl_reports ?c = []"
    by (simp_all add: shares_def race_start_def sample_client_def tell_dropped_def metrics_dropped_def metrics_new_def)
  ultimately show ?thesis
    using enqueue_alone [of "(race_start 1 1)\<lparr>rc_queued := 1\<rparr>" ?c 0 "FlushMsg 2"] by (auto simp: race_start_def)
qed

end
