(* ===== verification/Instrument_Props.thy ===== *)
theory Instrument_Props
  imports Instruments
begin

section \<open>What the instruments ship\<close>

text \<open>
  Counters under any interleaving of increments and samples, histograms after any list of
  observations, and the bucket bounds a histogram is registered with.
\<close>

subsection \<open>Label sets\<close>

lemma series_index_nth: "distinct vs \<Longrightarrow> i < length vs \<Longrightarrow> series_index vs (vs ! i) = Some i"
  by (induction vs arbitrary: i) (auto simp: nth_Cons split: nat.splits)

lemma series_index_None: "series_index vs v = None \<longleftrightarrow> v \<notin> set vs"
  by (induction vs) auto

lemma series_index_Some: "series_index vs v = Some i \<Longrightarrow> i < length vs \<and> vs ! i = v"
  by (induction vs arbitrary: i) (auto split: if_splits)

lemma series_values_id [simp]: "vs \<noteq> [] \<Longrightarrow> series_values vs = vs"
  by (simp add: series_values_def)

subsection \<open>Counters\<close>

datatype counter_op = Add str u64 | Inc u64 | Sample u64

fun counter_step :: "counter_op \<Rightarrow> Counter \<times> QueuedMetric list \<Rightarrow> Counter \<times> QueuedMetric list" where
  "counter_step (Add v n) (c, out) = (counter_add v n c, out)"
| "counter_step (Inc n) (c, out) = (counter_inc n c, out)"
| "counter_step (Sample ts) (c, out) = counter_sample ts c out"

text \<open>What an operation adds to the series of \<open>v\<close>; \<open>inc\<close> counts for the first one.\<close>

fun increment :: "str list \<Rightarrow> str \<Rightarrow> counter_op \<Rightarrow> nat" where
  "increment vs v (Add w n) = (if w = v then unat n else 0)"
| "increment vs v (Inc n) = (if v = hd vs then unat n else 0)"
| "increment vs v (Sample ts) = 0"

definition added :: "str list \<Rightarrow> str \<Rightarrow> counter_op list \<Rightarrow> nat" where
  "added vs v ops = sum_list (map (increment vs v) ops)"

definition series_sum :: "str \<Rightarrow> str \<Rightarrow> QueuedMetric list \<Rightarrow> int" where
  "series_sum key v out = sum_list (map (\<lambda>m. if qm_labels m = [(key, v)] then f64_int (qm_value m) else 0) out)"

lemma series_sum_append: "series_sum key v (xs @ ys) = series_sum key v xs + series_sum key v ys"
  by (simp add: series_sum_def)

lemma series_sum_other: "\<forall>m \<in> set ms. qm_labels m \<noteq> [(key, v)] \<Longrightarrow> series_sum key v ms = 0"
  by (induction ms) (auto simp: series_sum_def)

lemma counter_rows_map:
  assumes "length totals = length vs" "length shipped = length vs"
  shows "counter_rows ts c vs totals shipped =
    (map (\<lambda>((v, t), s). counter_point ts c v (fst (counter_row (co_temporality c) t s))) (zip (zip vs totals) shipped),
     map (\<lambda>(t, s). snd (counter_row (co_temporality c) t s)) (zip totals shipped))"
proof -
  have "length vs = length totals" "length totals = length shipped" using assms by simp_all
  then show ?thesis by (induction vs totals shipped rule: list_induct3) (simp_all add: split_def Let_def)
qed

lemma series_sum_rows:
  assumes "length totals = length vs" "length shipped = length vs"
    and "distinct vs" "i < length vs" "\<And>v t s. qm_labels (point v t s) = [(key, v)]"
  shows "series_sum key (vs ! i) (map (\<lambda>((v, t), s). point v t s) (zip (zip vs totals) shipped)) =
    f64_int (qm_value (point (vs ! i) (totals ! i) (shipped ! i)))"
proof -
  have zero: "v \<notin> set vs \<Longrightarrow> series_sum key v (map (\<lambda>((v, t), s). point v t s) (zip (zip vs ts) ss)) = 0"
    for v vs ts ss
    by (rule series_sum_other) (auto simp: assms(5) dest!: set_zip_leftD)
  have "length vs = length totals" "length totals = length shipped" using assms by simp_all
  then show ?thesis
    using assms(3,4)
  proof (induction vs totals shipped arbitrary: i rule: list_induct3)
    case (Cons v ws t ts s ss)
    have one: "series_sum key w (point v t s # ms) =
        (if w = v then f64_int (qm_value (point v t s)) else 0) + series_sum key w ms" for w ms
      by (simp add: series_sum_def assms(5))
    show ?case
    proof (cases i)
      case 0
      then show ?thesis using Cons.prems zero [of v ws ts ss] by (simp add: one)
    next
      case (Suc j)
      then show ?thesis using Cons.prems Cons.IH [of j] by (auto simp: one)
    qed
  qed simp
qed

definition counter_inv :: "str \<Rightarrow> str list \<Rightarrow> counter_op list \<Rightarrow> Counter \<times> QueuedMetric list \<Rightarrow> bool" where
  "counter_inv key vs ops = (\<lambda>(c, out).
     co_key c = Some key \<and> co_values c = vs \<and> co_temporality c = Delta \<and>
     length (co_totals c) = length vs \<and> length (co_shipped c) = length vs \<and>
     (\<forall>i < length vs. unat (co_totals c ! i) = added vs (vs ! i) ops \<and>
       unat (co_shipped c ! i) \<le> unat (co_totals c ! i) \<and>
       series_sum key (vs ! i) out = whole (unat (co_shipped c ! i))) \<and>
     (\<forall>m \<in> set out. \<exists>v \<in> set vs. qm_labels m = [(key, v)]))"

lemma added_snoc: "added vs v (ops @ [x]) = added vs v ops + increment vs v x"
  by (simp add: added_def)

lemma unat_add_small: "unat a + unat b < 2 ^ 53 \<Longrightarrow> unat (a + b) = unat a + unat (b :: u64)"
  by (subst unat_word_ariths(1)) simp

lemma counter_inv_fetch:
  assumes "counter_inv key vs ops (c, out)" "distinct vs" "j < length vs"
    and "\<And>i. i < length vs \<Longrightarrow> increment vs (vs ! i) x = (if i = j then unat n else 0)"
    and "added vs (vs ! j) (ops @ [x]) < 2 ^ 53"
  shows "counter_inv key vs (ops @ [x]) (c\<lparr>co_totals := fetch_add j n (co_totals c)\<rparr>, out)"
proof -
  have u: "unat (co_totals c ! j + n) = unat (co_totals c ! j) + unat n"
    using assms by (intro unat_add_small) (auto simp: counter_inv_def added_snoc)
  show ?thesis
    using assms(1,3,4) by (auto simp: counter_inv_def added_snoc fetch_add_def nth_list_update u le_SucI trans_le_add1)
qed

lemma counter_inv_sample:
  assumes "counter_inv key vs ops (c, out)" "distinct vs"
    and "\<And>i. i < length vs \<Longrightarrow> added vs (vs ! i) ops < 2 ^ 53"
  shows "counter_inv key vs (ops @ [Sample ts]) (counter_sample ts c out)"
    and "i < length vs \<Longrightarrow> co_shipped (fst (counter_sample ts c out)) ! i = co_totals c ! i"
proof -
  have len: "length (co_totals c) = length vs" "length (co_shipped c) = length vs"
    "co_values c = vs" "co_temporality c = Delta" "co_key c = Some key"
    using assms(1) by (auto simp: counter_inv_def)
  define pt where "pt v t s = counter_point ts c v (saturating_sub t s)" for v t s
  let ?pts = "map (\<lambda>((v, t), s). pt v t s) (zip (zip vs (co_totals c)) (co_shipped c))"
  have s: "counter_sample ts c out = (c\<lparr>co_shipped := co_totals c\<rparr>, out @ ?pts)"
    using len by (simp add: counter_sample_def counter_rows_map counter_row_def pt_def split_def map_fst_zip)
  have lab: "qm_labels (pt v t s) = [(key, v)]" for v t s
    by (simp add: pt_def counter_point_def label_pair_def len)
  have sum: "series_sum key (vs ! i) (out @ ?pts) = whole (unat (co_totals c ! i))"
    if i: "i < length vs" for i
  proof -
    have b: "unat (co_shipped c ! i) \<le> unat (co_totals c ! i)" "unat (co_totals c ! i) < 2 ^ 53"
      "series_sum key (vs ! i) out = whole (unat (co_shipped c ! i))"
      using assms(1,3) i by (auto simp: counter_inv_def)
    then have d: "saturating_sub (co_totals c ! i) (co_shipped c ! i) = co_totals c ! i - co_shipped c ! i"
      "unat (co_totals c ! i - co_shipped c ! i) = unat (co_totals c ! i) - unat (co_shipped c ! i)"
      by (auto simp: saturating_sub_def word_less_nat_alt unat_sub word_le_nat_alt)
    then have "f64_int (qm_value (pt (vs ! i) (co_totals c ! i) (co_shipped c ! i))) =
        whole (unat (co_totals c ! i) - unat (co_shipped c ! i))"
      using u64_as_f64_exact [of "co_totals c ! i - co_shipped c ! i"] b(2)
      by (simp add: pt_def counter_point_def)
    then show ?thesis
      using b(1) by (simp add: series_sum_append series_sum_rows [OF len(1,2) assms(2) i lab] b(3) flip: whole_add)
  qed
  show "counter_inv key vs (ops @ [Sample ts]) (counter_sample ts c out)"
    using assms(1) len sum lab
    by (auto simp: counter_inv_def s added_snoc dest!: set_zip_leftD split: prod.splits)
  show "i < length vs \<Longrightarrow> co_shipped (fst (counter_sample ts c out)) ! i = co_totals c ! i"
    by (simp add: s)
qed

lemma unat_of_nat_small: "n < 2 ^ 64 \<Longrightarrow> unat (of_nat n :: u64) = n"
  unfolding unsigned_of_nat by (simp add: take_bit_nat_eq_self_iff)

lemma counter_inv_run:
  assumes "distinct vs" "vs \<noteq> []" "\<forall>v \<in> set vs. added vs v ops < 2 ^ 53"
  shows "counter_inv key vs ops (fold counter_step ops (counter_new name (Some key) vs Delta, []))"
  using assms(3)
proof (induction ops rule: rev_induct)
  case Nil
  have "max (length vs) 1 = length vs" using assms(2) by (cases vs) auto
  then show ?case
    by (auto simp: counter_inv_def counter_new_def added_def series_sum_def assms(2) Let_def)
next
  case (snoc x ops)
  have less: "\<forall>v \<in> set vs. added vs v ops < 2 ^ 53" using snoc.prems by (auto simp: added_snoc)
  obtain c out where c: "fold counter_step ops (counter_new name (Some key) vs Delta, []) = (c, out)"
    by (rule prod.exhaust)
  have inv: "counter_inv key vs ops (c, out)" using snoc.IH less c by simp
  then have vs: "co_values c = vs" by (simp add: counter_inv_def)
  have hd: "vs ! i = hd vs \<longleftrightarrow> i = 0" if "i < length vs" for i
    using assms(1,2) that by (simp add: hd_conv_nth nth_eq_iff_index_eq)
  show ?case
  proof (cases x)
    case (Add v n)
    show ?thesis
    proof (cases "series_index vs v")
      case None
      then have "increment vs w x = 0" if "w \<in> set vs" for w using that Add by (auto simp: series_index_None)
      then show ?thesis using inv None Add vs by (auto simp: c counter_add_def counter_inv_def added_snoc)
    next
      case (Some j)
      then have j: "j < length vs" "vs ! j = v" using series_index_Some by auto
      have "counter_inv key vs (ops @ [x]) (c\<lparr>co_totals := fetch_add j n (co_totals c)\<rparr>, out)"
        by (rule counter_inv_fetch [OF inv assms(1) j(1)])
          (use j assms(1) snoc.prems Add in \<open>auto simp: nth_eq_iff_index_eq\<close>)
      then show ?thesis using Some Add vs by (simp add: c counter_add_def)
    qed
  next
    case (Inc n)
    have "counter_inv key vs (ops @ [x]) (c\<lparr>co_totals := fetch_add 0 n (co_totals c)\<rparr>, out)"
      by (rule counter_inv_fetch [OF inv assms(1), of 0]) (use assms(2) snoc.prems Inc hd in auto)
    then show ?thesis using Inc by (simp add: c counter_inc_def)
  next
    case (Sample ts)
    have "counter_inv key vs (ops @ [Sample ts]) (counter_sample ts c out)"
      by (rule counter_inv_sample(1) [OF inv assms(1)]) (use less in auto)
    then show ?thesis using Sample by (simp add: c)
  qed
qed

text \<open>
  C27: a delta counter loses nothing and counts nothing twice. After any interleaving of
  increments by call sites and samples by the worker, the points shipped for a label value,
  up to and including the next sample, add up to everything ever added to it, which is also
  its total; and no point carries a label outside the registered set. Totals are below
  \<open>2 ^ 53\<close>, where a count is exact as an \<open>f64\<close>.
\<close>

theorem counter_points_add_up:
  assumes "distinct vs" "vs \<noteq> []" "\<forall>v \<in> set vs. added vs v ops < 2 ^ 53"
    and "fold counter_step ops (counter_new name (Some key) vs Delta, []) = (c, out)"
  shows "(\<forall>v \<in> set vs. series_sum key v (snd (counter_sample ts c out)) = whole (added vs v ops) \<and>
      unat (counter_total v c) = added vs v ops) \<and>
    (\<forall>m \<in> set out. \<exists>v \<in> set vs. qm_labels m = [(key, v)])"
proof -
  have inv: "counter_inv key vs ops (c, out)" using counter_inv_run [OF assms(1-3)] assms(4) by metis
  have less: "i < length vs \<Longrightarrow> added vs (vs ! i) ops < 2 ^ 53" for i using assms(3) by simp
  obtain c' out' where c': "counter_sample ts c out = (c', out')" by (rule prod.exhaust)
  have inv': "counter_inv key vs (ops @ [Sample ts]) (c', out')"
    "i < length vs \<Longrightarrow> co_shipped c' ! i = co_totals c ! i" for i
    using counter_inv_sample [OF inv assms(1) less, where ts = ts] c' by auto
  have "series_sum key v out' = whole (added vs v ops) \<and> unat (counter_total v c) = added vs v ops"
    if v: "v \<in> set vs" for v
  proof -
    obtain i where i: "i < length vs" "vs ! i = v" using v by (metis in_set_conv_nth)
    then show ?thesis
      using inv inv' series_index_nth [OF assms(1) i(1)]
      by (auto simp: counter_inv_def counter_total_def)
  qed
  with inv c' show ?thesis by (simp add: counter_inv_def)
qed

theorem counter_points_add_up_witness:
  "\<exists>c out. fold counter_step [Add [119] 1, Sample 5, Add [97] 2, Add [120] 7, Add [119] 3]
      (counter_new [117] (Some [115]) [[119], [97]] Delta, []) = (c, out) \<and>
    series_sum [115] [119] (snd (counter_sample 6 c out)) = whole 4 \<and> counter_total [97] c = 2"
proof -
  let ?ops = "[Add [119] 1, Sample 5, Add [97] 2, Add [120] 7, Add [119] 3]"
  obtain c out where c: "fold counter_step ?ops (counter_new [117] (Some [115]) [[119], [97]] Delta, []) = (c, out)"
    by (rule prod.exhaust)
  have "added [[119], [97]] [119] ?ops = 4" "added [[119], [97]] [97] ?ops = 2"
    by (simp_all add: added_def)
  moreover from this have "\<forall>v \<in> set [[119], [97]]. added [[119], [97]] v ?ops < 2 ^ 53" by simp
  from counter_points_add_up [OF _ _ this c, of 6]
  have "series_sum [115] [119] (snd (counter_sample 6 c out)) = whole (added [[119], [97]] [119] ?ops) \<and>
      unat (counter_total [97] c) = added [[119], [97]] [97] ?ops"
    by simp
  ultimately show ?thesis
    using c by (auto simp: word_unat_eq_iff simp del: fold_simps)
qed

subsection \<open>Histograms\<close>

text \<open>
  Under contention \<open>update_f64\<close> still applies its function exactly once, to what the cell
  holds at that moment.
\<close>

lemma update_f64_atomic:
  "\<exists>k \<le> length env. update_f64 f cell env = f (fold (\<lambda>(others, _). others) (take k env) cell)"
proof -
  have "\<exists>k \<le> length env. update_loop f current cell env = f (fold (\<lambda>(others, _). others) (take k env) cell)"
    for current
  proof (induction f current cell env rule: update_loop.induct)
    case (2 f current cell others spurious env)
    show ?case
    proof (cases "others cell = current \<and> \<not> spurious")
      case True
      then show ?thesis by (intro exI [of _ 1]) simp
    next
      case False
      then obtain k where "k \<le> length env"
        "update_loop f (others cell) (others cell) env = f (fold (\<lambda>(others, _). others) (take k env) (others cell))"
        using 2 by blast
      then show ?thesis using False by (intro exI [of _ "Suc k"]) auto
    qed
  qed simp
  then show ?thesis by (simp add: update_f64_def)
qed

definition bump :: "f64 \<Rightarrow> f64 list \<Rightarrow> u64 list \<Rightarrow> u64 list" where
  "bump x bounds buckets = map2 (\<lambda>b n. if f64_le x b then n + 1 else n) bounds buckets"

lemma bump_map: "bump x bounds (map g bounds) = map (\<lambda>b. if f64_le x b then g b + 1 else g b) bounds"
  by (induction bounds) (simp_all add: bump_def)

lemma zip_self_map: "zip xs (map g xs) = map (\<lambda>x. (x, g x)) xs"
  by (induction xs) simp_all

lemma bucket_steps:
  assumes "length (se_buckets s) = k + length bounds"
  shows "fold (\<lambda>step s. step s) (map (\<lambda>(i, bound) s. if f64_le x bound
      then s\<lparr>se_buckets := fetch_add i 1 (se_buckets s)\<rparr> else s) (enumerate k bounds)) s =
    s\<lparr>se_buckets := take k (se_buckets s) @ bump x bounds (drop k (se_buckets s))\<rparr>"
  using assms
proof (induction bounds arbitrary: k s)
  case (Cons b bounds)
  obtain l n r where l: "se_buckets s = l @ n # r" "length l = k"
    using Cons.prems id_take_nth_drop [of k "se_buckets s"] by force
  let ?s = "if f64_le x b then s\<lparr>se_buckets := l @ (n + 1) # r\<rparr> else s"
  have "length (se_buckets ?s) = Suc k + length bounds" using Cons.prems l by auto
  from Cons.IH [OF this] show ?case
    using l by (auto simp: fetch_add_def bump_def nth_append list_update_append)
qed (simp add: bump_def)

lemma observe_eq:
  assumes "length (se_buckets s) = length bounds"
  shows "observe x bounds s = s\<lparr>se_count := se_count s + 1, se_sum := f64_add (se_sum s) x,
    se_min := f64_min (se_min s) x, se_max := f64_max (se_max s) x, se_buckets := bump x bounds (se_buckets s)\<rparr>"
  using assms
  by (simp add: observe_def observe_steps_def update_f64_def bucket_steps [where k = 0, simplified])

text \<open>The series after the observations \<open>xs\<close>.\<close>

definition series_of :: "f64 list \<Rightarrow> f64 list \<Rightarrow> Series" where
  "series_of bounds xs = \<lparr>se_count = of_nat (length xs), se_sum = foldl f64_add 0 xs,
     se_min = foldl f64_min F64_INFINITY xs, se_max = foldl f64_max F64_NEG_INFINITY xs,
     se_buckets = map (\<lambda>b. of_nat (length (filter (\<lambda>x. f64_le x b) xs))) bounds\<rparr>"

lemma series_of_snoc: "observe x bounds (series_of bounds xs) = series_of bounds (xs @ [x])"
  by (subst observe_eq) (simp_all add: series_of_def bump_map)

lemma series_of_Nil: "series_new (length bounds) = series_of bounds []"
  by (simp add: series_new_def series_of_def map_replicate_const)

lemma observe_all: "fold (\<lambda>x. observe x bounds) xs (series_new (length bounds)) = series_of bounds xs"
  by (induction xs rule: rev_induct) (simp_all add: series_of_Nil series_of_snoc)

definition seen :: "str \<Rightarrow> (str \<times> f64) list \<Rightarrow> f64 list" where
  "seen v obs = map snd (filter (\<lambda>ob. fst ob = v) obs)"

lemma histogram_run:
  assumes "distinct vs" "vs \<noteq> []"
  shows "fold (\<lambda>(v, x). histogram_observe v x) obs (histogram_new name key vs bounds) =
    \<lparr>hi_name = name, hi_key = key, hi_values = vs, hi_bounds = histogram_bounds bounds,
     hi_series = map (\<lambda>v. series_of (histogram_bounds bounds) (seen v obs)) vs\<rparr>"
proof (induction obs rule: rev_induct)
  case Nil
  then show ?case using assms(2) by (simp add: histogram_new_def Let_def series_of_Nil seen_def)
next
  case (snoc ob obs)
  obtain v x where ob: "ob = (v, x)" by (rule prod.exhaust)
  have seen: "seen w (obs @ [ob]) = (if w = v then seen w obs @ [x] else seen w obs)" for w
    by (simp add: seen_def ob)
  have step: "fold (\<lambda>(v, x). histogram_observe v x) (obs @ [ob]) (histogram_new name key vs bounds) =
      histogram_observe v x \<lparr>hi_name = name, hi_key = key, hi_values = vs, hi_bounds = histogram_bounds bounds,
        hi_series = map (\<lambda>v. series_of (histogram_bounds bounds) (seen v obs)) vs\<rparr>"
    by (simp only: fold_append comp_apply fold_simps id_apply snoc ob prod.case)
  have "histogram_observe v x \<lparr>hi_name = name, hi_key = key, hi_values = vs, hi_bounds = histogram_bounds bounds,
        hi_series = map (\<lambda>v. series_of (histogram_bounds bounds) (seen v obs)) vs\<rparr> =
      \<lparr>hi_name = name, hi_key = key, hi_values = vs, hi_bounds = histogram_bounds bounds,
       hi_series = map (\<lambda>v. series_of (histogram_bounds bounds) (seen v (obs @ [ob]))) vs\<rparr>"
  proof (cases "series_index vs v")
    case None
    moreover from this have "v \<notin> set vs" by (simp only: series_index_None not_False_eq_True)
    ultimately show ?thesis by (auto simp: histogram_observe_def seen)
  next
    case (Some i)
    then have i: "i < length vs" "vs ! i = v" using series_index_Some by auto
    have "map (\<lambda>w. series_of (histogram_bounds bounds) (seen w (obs @ [ob]))) vs =
        (map (\<lambda>w. series_of (histogram_bounds bounds) (seen w obs)) vs)
          [i := series_of (histogram_bounds bounds) (seen v obs @ [x])]"
      by (rule nth_equalityI) (use i assms(1) in \<open>auto simp: seen nth_list_update nth_eq_iff_index_eq\<close>)
    then show ?thesis using Some i
      by (simp add: histogram_observe_def update_series_def series_of_snoc)
  qed
  with step show ?case by (simp only:)
qed

text \<open>
  C28: a histogram sample holds exactly one point for each label value that was observed, in
  the order of the registered set. Its count, its buckets, each with the observations at most
  its bound, its least and greatest value and its sum, folded in order with \<open>f64\<close> addition,
  are those of the observations for that label, and observations for other labels are dropped.
\<close>

theorem histogram_sample_exact:
  assumes "distinct vs" "vs \<noteq> []" "length obs < 2 ^ 64"
    and "h = fold (\<lambda>(v, x). histogram_observe v x) obs (histogram_new name key vs bounds)"
  shows "histogram_sample ts h out = out @ map (\<lambda>v. histogram_point ts h v
    \<lparr>hp_count = of_nat (length (seen v obs)), hp_sum = foldl f64_add 0 (seen v obs),
     hp_min = foldl f64_min F64_INFINITY (seen v obs), hp_max = foldl f64_max F64_NEG_INFINITY (seen v obs),
     hp_buckets = map (\<lambda>b. (b, of_nat (length (filter (\<lambda>x. f64_le x b) (seen v obs))))) (histogram_bounds bounds)\<rparr>)
    (filter (\<lambda>v. seen v obs \<noteq> []) vs)"
proof -
  let ?bs = "histogram_bounds bounds"
  have len: "length (seen v obs) < 2 ^ 64" for v
    using assms(3) length_filter_le [of "\<lambda>ob. fst ob = v" obs] unfolding seen_def length_map by linarith
  have zero: "(of_nat (length (seen v obs)) :: u64) = 0 \<longleftrightarrow> seen v obs = []" for v
    by (subst word_unat_eq_iff, subst unat_of_nat_small [OF len]) simp
  have "List.map_filter (\<lambda>(value, s). map_option (histogram_point ts h value) (snapshot ?bs s))
      (zip ws (map (\<lambda>v. series_of ?bs (seen v obs)) ws)) =
    map (\<lambda>v. histogram_point ts h v (the (snapshot ?bs (series_of ?bs (seen v obs)))))
      (filter (\<lambda>v. seen v obs \<noteq> []) ws)" for ws
    by (induction ws) (auto simp: map_filter_simps snapshot_def series_of_def zero)
  moreover have "map (\<lambda>v. histogram_point ts h v (the (snapshot ?bs (series_of ?bs (seen v obs)))))
      (filter (\<lambda>v. seen v obs \<noteq> []) vs) = map (\<lambda>v. histogram_point ts h v
    \<lparr>hp_count = of_nat (length (seen v obs)), hp_sum = foldl f64_add 0 (seen v obs),
     hp_min = foldl f64_min F64_INFINITY (seen v obs), hp_max = foldl f64_max F64_NEG_INFINITY (seen v obs),
     hp_buckets = map (\<lambda>b. (b, of_nat (length (filter (\<lambda>x. f64_le x b) (seen v obs))))) ?bs\<rparr>)
    (filter (\<lambda>v. seen v obs \<noteq> []) vs)"
    by (rule map_cong [OF refl]) (auto simp: snapshot_def series_of_def zero zip_self_map)
  moreover have "hi_values h = vs" "hi_bounds h = ?bs" "hi_series h = map (\<lambda>v. series_of ?bs (seen v obs)) vs"
    unfolding assms(4) histogram_run [OF assms(1,2)] by simp_all
  ultimately show ?thesis by (simp only: histogram_sample_def)
qed

theorem histogram_sample_exact_witness:
  "\<exists>h. h = fold (\<lambda>(v, x). histogram_observe v x) [([97], 0), ([98], 0), ([97], 0)]
      (histogram_new [109] (Some [107]) [[99], [97]] []) \<and>
    map qm_labels (histogram_sample 7 h []) = [[([107], [97])]] \<and>
    map (map_option hp_count \<circ> qm_histogram) (histogram_sample 7 h []) = [Some 2]"
proof -
  let ?obs = "[([97], 0), ([98], 0), ([97], 0)] :: (str \<times> f64) list"
  have seen: "seen [97] ?obs = [0, 0]" "seen [99] ?obs = []" by (simp_all add: seen_def)
  have key: "hi_key (fold (\<lambda>(v, x). histogram_observe v x) ?obs (histogram_new [109] (Some [107]) [[99], [97]] [])) =
      Some [107]"
    by (subst histogram_run) simp_all
  show ?thesis
    by (rule exI, rule conjI [OF refl], subst (1 2) histogram_sample_exact [OF _ _ _ refl])
      (simp_all add: seen histogram_point_def label_pair_def key [simplified])
qed

subsection \<open>Bucket bounds\<close>

lemma dedup_hd: "xs \<noteq> [] \<Longrightarrow> dedup xs \<noteq> [] \<and> hd (dedup xs) = hd xs"
  by (induction xs rule: dedup.induct) auto

lemma dedup_set: "set (dedup xs) \<subseteq> set xs"
  by (induction xs rule: dedup.induct) auto

lemma dedup_covers: "x \<in> set xs \<Longrightarrow> \<not> is_nan x \<Longrightarrow> \<exists>y \<in> set (dedup xs). f64_eq x y"
proof (induction xs arbitrary: x rule: dedup.induct)
  case (1 x' y xs)
  show ?case
  proof (cases "f64_eq x' y")
    case True
    have "\<exists>z \<in> set (dedup (x' # xs)). f64_eq w z" if "w = x' \<or> w \<in> set xs" "\<not> is_nan w" for w
      using 1(1) [OF True] that by simp
    from this [of x'] this [of x] 1(3,4) True show ?thesis by (auto simp: f64_eq_def)
  next
    case False
    then show ?thesis using 1(2) [OF False] 1(3,4) by (auto simp: f64_eq_def)
  qed
qed (auto simp: f64_eq_def)

lemma dedup_sorted: "sorted_wrt f64_le xs \<Longrightarrow> sorted_wrt f64_lt (dedup xs)"
proof (induction xs rule: dedup.induct)
  case (1 x y xs)
  show ?case
  proof (cases "f64_eq x y")
    case False
    have "f64_lt x y" using 1(3) False by (auto simp: f64_le_def f64_lt_def f64_eq_def)
    moreover have "\<not> is_nan z \<and> f64_int y \<le> f64_int z" if "z \<in> set (dedup (y # xs))" for z
      using 1(3) dedup_set [of "y # xs"] that by (auto simp: f64_le_def)
    ultimately have "\<forall>z \<in> set (dedup (y # xs)). f64_lt x z" by (fastforce simp: f64_lt_def)
    then show ?thesis using 1 False by simp
  qed (use 1 in auto)
qed auto

lemma sorted_le_last: "sorted_wrt f64_lt bs \<Longrightarrow> b \<in> set bs \<Longrightarrow> b = last bs \<or> f64_lt b (last bs)"
  by (induction bs) auto

lemma sorted_bounds: "sorted_wrt f64_le (sort_key total_key (filter (\<lambda>b. \<not> is_nan b) bounds))"
proof -
  have "sorted_wrt (\<lambda>a b. total_key a \<le> total_key b) (sort_key total_key (filter (\<lambda>b. \<not> is_nan b) bounds))"
    using sorted_sort_key [of total_key] by (simp add: sorted_map)
  then show ?thesis
    by (rule sorted_wrt_mono_rel [rotated]) (auto simp: f64_le_def f64_int_mono)
qed

lemma bounds_facts:
  "sorted_wrt f64_lt (histogram_bounds bounds) \<and>
    (\<forall>b \<in> set bounds. is_nan b \<or> (\<exists>b' \<in> set (histogram_bounds bounds). f64_eq b b')) \<and>
    (if \<exists>b \<in> set bounds. b = F64_NEG_INFINITY \<and> (\<forall>b' \<in> set bounds. is_nan b' \<or> b' = F64_NEG_INFINITY)
     then histogram_bounds bounds = [F64_NEG_INFINITY] else last (histogram_bounds bounds) = F64_INFINITY)"
proof -
  let ?fs = "filter (\<lambda>b. \<not> is_nan b) bounds"
  let ?ds = "dedup (sort_key total_key ?fs)"
  have srt: "sorted_wrt f64_lt ?ds" by (rule dedup_sorted [OF sorted_bounds])
  have sub: "set ?ds \<subseteq> set ?fs" using dedup_set [of "sort_key total_key ?fs"] by simp
  have nan: "b \<in> set ?ds \<Longrightarrow> \<not> is_nan b" for b using sub by auto
  have cover: "\<exists>b' \<in> set ?ds. f64_eq b b'" if "b \<in> set bounds" "\<not> is_nan b" for b
    using dedup_covers [of b "sort_key total_key ?fs"] that by simp
  have hb: "histogram_bounds bounds = (if ?ds = [] \<or> is_finite (last ?ds) then ?ds @ [F64_INFINITY] else ?ds)"
    by (simp add: histogram_bounds_def Let_def)
  consider (app) "?ds = [] \<or> is_finite (last ?ds)" | (inf) "?ds \<noteq> []" "last ?ds = F64_INFINITY"
    | (neg) "?ds \<noteq> []" "last ?ds = F64_NEG_INFINITY"
    using nonfinite_cases [of "last ?ds"] nan [of "last ?ds"] by fastforce
  then show ?thesis
  proof cases
    case app
    have fin: "f64_lt b F64_INFINITY" if "b \<in> set ?ds" for b
    proof -
      have "f64_int b \<le> f64_int (last ?ds)" using sorted_le_last [OF srt that] by (auto simp: f64_lt_def)
      moreover have "f64_int (last ?ds) < f64_int F64_INFINITY" using app that by (intro f64_int_finite_lt) auto
      ultimately show ?thesis using nan [OF that] by (simp add: f64_lt_def)
    qed
    moreover have "\<not> (\<exists>b \<in> set bounds. b = F64_NEG_INFINITY \<and> (\<forall>b' \<in> set bounds. is_nan b' \<or> b' = F64_NEG_INFINITY))"
    proof
      assume "\<exists>b \<in> set bounds. b = F64_NEG_INFINITY \<and> (\<forall>b' \<in> set bounds. is_nan b' \<or> b' = F64_NEG_INFINITY)"
      then have "F64_NEG_INFINITY \<in> set bounds" "set ?fs \<subseteq> {F64_NEG_INFINITY}" by auto
      then show False using cover [of F64_NEG_INFINITY] app sub last_in_set [of ?ds] by fastforce
    qed
    ultimately show ?thesis using app srt cover by (auto simp: hb sorted_wrt_append)
  next
    case inf
    then have "F64_INFINITY \<in> set bounds" using sub last_in_set [of ?ds] by auto
    moreover have "F64_INFINITY \<noteq> F64_NEG_INFINITY" using infinity_simps(5,6) by metis
    ultimately show ?thesis using inf srt cover by (auto simp: hb)
  next
    case neg
    have all: "b = F64_NEG_INFINITY" if "b \<in> set ?ds" for b
      using sorted_le_last [OF srt that] neg nan [OF that] f64_int_neg_infinity [of b] by (auto simp: f64_lt_def)
    have "?ds = [F64_NEG_INFINITY]"
      using srt neg(1) all by (cases ?ds; cases "tl ?ds") (auto simp: f64_lt_def)
    moreover have "b = F64_NEG_INFINITY" if "b \<in> set bounds" "\<not> is_nan b" for b
      using cover [OF that] all f64_eq_neg_infinity by blast
    moreover have "F64_NEG_INFINITY \<in> set bounds" using neg sub last_in_set [of ?ds] by auto
    ultimately show ?thesis using neg srt cover by (auto simp: hb)
  qed
qed

text \<open>
  The registered bounds are strictly ascending numbers; every bound asked for is one of
  them, up to the sign of a zero; and the last one is infinity, so the last bucket counts
  every observation. The exception is a list that asks for minus infinity and no other
  number: the catch-all bucket is then missing.
\<close>

theorem histogram_bounds_ok:
  "sorted_wrt f64_lt (histogram_bounds bounds) \<and>
    (\<forall>b \<in> set bounds. is_nan b \<or> (\<exists>b' \<in> set (histogram_bounds bounds). f64_eq b b')) \<and>
    (if \<exists>b \<in> set bounds. b = F64_NEG_INFINITY \<and> (\<forall>b' \<in> set bounds. is_nan b' \<or> b' = F64_NEG_INFINITY)
     then histogram_bounds bounds = [F64_NEG_INFINITY] else last (histogram_bounds bounds) = F64_INFINITY)"
  by (rule bounds_facts)

theorem histogram_bounds_ok_witness:
  "last (histogram_bounds [0]) = F64_INFINITY \<and> (\<exists>b \<in> set (histogram_bounds [0]). f64_eq 0 b)"
proof -
  have zero: "\<not> is_nan 0" by (simp add: is_nan_def f64_abs_bits_def)
  have "(0 :: f64) \<noteq> F64_NEG_INFINITY" using infinity_simps(6) by (auto simp: f64_sign_def)
  then show ?thesis using histogram_bounds_ok [of "[0]"] zero by auto
qed

subsection \<open>What a shipped distribution means\<close>

lemma f64_le_trans: "f64_le x a \<Longrightarrow> f64_lt a b \<Longrightarrow> f64_le x b"
  by (auto simp: f64_le_def f64_lt_def)

lemma counts_ascending:
  "sorted_wrt f64_lt bounds \<Longrightarrow> sorted (map (\<lambda>b. length (filter (\<lambda>x. f64_le x b) xs)) bounds)"
proof (induction bounds)
  case (Cons b bounds)
  have "length (filter (\<lambda>x. f64_le x b) xs) \<le> length (filter (\<lambda>x. f64_le x c) xs)" if "c \<in> set bounds" for c
    using Cons.prems that f64_le_trans [of _ b c] by (induction xs) (auto intro: le_SucI)
  then show ?case using Cons by simp
qed simp

lemma least_observation:
  assumes "xs \<noteq> []" "list_all (Not \<circ> is_nan) xs"
  shows "foldl f64_min F64_INFINITY xs \<in> set xs \<and> (\<forall>x \<in> set xs. f64_le (foldl f64_min F64_INFINITY xs) x)"
  using assms
proof (induction xs rule: rev_nonempty_induct)
  case (single x)
  have "x = F64_INFINITY" if "\<not> f64_int x < f64_int F64_INFINITY"
    using f64_eq_infinity [of x] f64_int_infinity [of x] single that by (auto simp: f64_eq_def)
  then show ?case using single by (auto simp: f64_min_def f64_le_def)
next
  case (snoc x xs)
  then show ?case by (auto simp: f64_min_def f64_le_def)
qed

lemma greatest_observation:
  assumes "xs \<noteq> []" "list_all (Not \<circ> is_nan) xs"
  shows "foldl f64_max F64_NEG_INFINITY xs \<in> set xs \<and> (\<forall>x \<in> set xs. f64_le x (foldl f64_max F64_NEG_INFINITY xs))"
  using assms
proof (induction xs rule: rev_nonempty_induct)
  case (single x)
  have "x = F64_NEG_INFINITY" if "\<not> f64_int F64_NEG_INFINITY < f64_int x"
    using f64_eq_neg_infinity [of x] f64_int_neg_infinity [of x] single that by (auto simp: f64_eq_def)
  then show ?case using single by (auto simp: f64_max_def f64_le_def)
next
  case (snoc x xs)
  then show ?case by (auto simp: f64_max_def f64_le_def)
qed

text \<open>A NaN moves neither extreme.\<close>

lemma extremes_numbers:
  "foldl f64_min F64_INFINITY xs = foldl f64_min F64_INFINITY (filter (Not \<circ> is_nan) xs)"
  "foldl f64_max F64_NEG_INFINITY xs = foldl f64_max F64_NEG_INFINITY (filter (Not \<circ> is_nan) xs)"
proof -
  have "foldl f64_min m xs = foldl f64_min m (filter (Not \<circ> is_nan) xs)" if "\<not> is_nan m" for m
    using that by (induction xs arbitrary: m) (auto simp: f64_min_def)
  moreover have "foldl f64_max m xs = foldl f64_max m (filter (Not \<circ> is_nan) xs)" if "\<not> is_nan m" for m
    using that by (induction xs arbitrary: m) (auto simp: f64_max_def)
  ultimately show
    "foldl f64_min F64_INFINITY xs = foldl f64_min F64_INFINITY (filter (Not \<circ> is_nan) xs)"
    "foldl f64_max F64_NEG_INFINITY xs = foldl f64_max F64_NEG_INFINITY (filter (Not \<circ> is_nan) xs)"
    by simp_all
qed

text \<open>
  C29: what a snapshot between observations says. Its count is that of all observations. Its
  distribution is that of the numbers among them: a NaN raises the count, but no bucket, and
  moves neither extreme. If a number was observed, the least and the greatest value are observed
  numbers that bound all others; if only NaNs were, they are still the two infinities. The bucket
  counts ascend with the bounds, and the last bucket counts every number, unless minus infinity
  was the only number among the bounds asked for, which leaves no catch-all bucket.
\<close>

theorem snapshot_is_distribution:
  assumes "bounds = histogram_bounds bs" "xs \<noteq> []" "length xs < 2 ^ 64" "ns = filter (Not \<circ> is_nan) xs"
  shows "\<exists>p. snapshot bounds (fold (\<lambda>x. observe x bounds) xs (series_new (length bounds))) = Some p \<and>
    unat (hp_count p) = length xs \<and> map fst (hp_buckets p) = bounds \<and>
    (if ns = [] then hp_min p = F64_INFINITY \<and> hp_max p = F64_NEG_INFINITY
     else hp_min p \<in> set ns \<and> hp_max p \<in> set ns \<and> (\<forall>x \<in> set ns. f64_le (hp_min p) x \<and> f64_le x (hp_max p))) \<and>
    sorted (map (unat \<circ> snd) (hp_buckets p)) \<and>
    (bounds \<noteq> [F64_NEG_INFINITY] \<longrightarrow> unat (snd (last (hp_buckets p))) = length ns)"
proof -
  have ne: "bounds \<noteq> []" using assms(1) dedup_hd by (auto simp: histogram_bounds_def Let_def)
  have srt: "sorted_wrt f64_lt bounds" using bounds_facts [of bs] assms(1) by blast
  have top: "last bounds = F64_INFINITY" if "bounds \<noteq> [F64_NEG_INFINITY]"
    using bounds_facts [of bs] assms(1) that by (auto split: if_splits)
  have le: "length (filter P xs) < 2 ^ 64" for P :: "f64 \<Rightarrow> bool"
    using assms(3) length_filter_le [of P xs] by linarith
  have numbers: "filter (\<lambda>x. f64_le x F64_INFINITY) xs = ns"
    using assms(4) by (simp add: f64_le_infinity comp_def)
  let ?p = "\<lparr>hp_count = of_nat (length xs), hp_sum = foldl f64_add 0 xs, hp_min = foldl f64_min F64_INFINITY xs,
    hp_max = foldl f64_max F64_NEG_INFINITY xs,
    hp_buckets = map (\<lambda>b. (b, of_nat (length (filter (\<lambda>x. f64_le x b) xs)) :: u64)) bounds\<rparr>"
  have "(of_nat (length xs) :: u64) \<noteq> 0"
    using assms(2) by (subst word_unat_eq_iff, subst unat_of_nat_small [OF assms(3)]) simp
  then have "snapshot bounds (fold (\<lambda>x. observe x bounds) xs (series_new (length bounds))) = Some ?p"
    by (simp add: observe_all snapshot_def series_of_def zip_self_map)
  moreover have "sorted (map (unat \<circ> snd) (hp_buckets ?p))"
    using counts_ascending [OF srt, of xs] by (simp add: comp_def unat_of_nat_small [OF le])
  moreover have "unat (snd (last (hp_buckets ?p))) = length ns" if "bounds \<noteq> [F64_NEG_INFINITY]"
    using ne by (simp add: last_map top [OF that] numbers unat_of_nat_small [OF le [of "\<lambda>x. f64_le x F64_INFINITY", unfolded numbers]])
  moreover have "unat (hp_count ?p) = length xs" by (simp add: unat_of_nat_small [OF assms(3)])
  moreover have "if ns = [] then hp_min ?p = F64_INFINITY \<and> hp_max ?p = F64_NEG_INFINITY
     else hp_min ?p \<in> set ns \<and> hp_max ?p \<in> set ns \<and> (\<forall>x \<in> set ns. f64_le (hp_min ?p) x \<and> f64_le x (hp_max ?p))"
    using least_observation [of ns] greatest_observation [of ns] extremes_numbers [of xs]
    unfolding assms(4) [symmetric] by (auto simp: assms(4) list_all_iff)
  ultimately show ?thesis by (intro exI [of _ ?p]) (simp add: comp_def)
qed

theorem snapshot_is_distribution_witness:
  "\<exists>p. snapshot (histogram_bounds []) (observe F64_NAN (histogram_bounds []) (observe 0 (histogram_bounds []) (series_new 1))) = Some p \<and>
    unat (hp_count p) = 2 \<and> hp_min p = 0 \<and> hp_max p = 0 \<and> unat (snd (last (hp_buckets p))) = 1"
proof -
  have "F64_INFINITY \<noteq> F64_NEG_INFINITY" using infinity_simps(5,6) by metis
  then have b: "histogram_bounds [] = [F64_INFINITY]" "[F64_INFINITY] \<noteq> [F64_NEG_INFINITY]"
    by (simp_all add: histogram_bounds_def)
  have "\<not> is_nan 0" by (simp add: is_nan_def f64_abs_bits_def)
  moreover have "is_nan F64_NAN" by (simp add: is_nan_def F64_NAN_def INF_BITS_def)
  ultimately show ?thesis
    using snapshot_is_distribution [of "[F64_INFINITY]" "[]" "[0, F64_NAN]" "[0]"] b by auto
qed

text \<open>
  A sample that falls into the middle of an observation ships what is no distribution.
  The counts go up one atomic step at a time, lowest bucket first: with the steps for the
  first bucket done, the point shows an observation that the infinite bucket does not have.
\<close>

theorem snapshot_during_observation:
  assumes "f64_le x b"
  shows "\<exists>p. snapshot [b, F64_INFINITY] (fold (\<lambda>step s. step s) (take 5 (observe_steps x [b, F64_INFINITY]))
      (series_new 2)) = Some p \<and>
    hp_count p = 1 \<and> hp_buckets p = [(b, 1), (F64_INFINITY, 0)]"
  using assms
  by (simp add: observe_steps_def snapshot_def series_new_def fetch_add_def eval_nat_numeral)

theorem snapshot_during_observation_witness:
  "\<exists>p. snapshot [0, F64_INFINITY] (fold (\<lambda>step s. step s) (take 5 (observe_steps 0 [0, F64_INFINITY]))
      (series_new 2)) = Some p \<and>
    hp_count p = 1 \<and> hp_buckets p = [(0, 1), (F64_INFINITY, 0)]"
  by (rule snapshot_during_observation) (simp add: f64_le_def is_nan_def f64_abs_bits_def)

end
