(* ===== verification/Json_Reader.thy ===== *)
theory Json_Reader
  imports Client_Props
begin

section \<open>What a reader of the payloads sees\<close>

text \<open>
  An executable reader of JSON objects, to the precision the payloads need: a key is a string
  literal, whose escapes are undone by a parameter, and a value is the text up to the comma or
  the brace that ends it outside strings and brackets. Reading a payload back gives the pairs
  it was made of.
\<close>

subsection \<open>The reader\<close>

text \<open>The contents of a string literal after its opening quote, escapes kept, and what follows.\<close>

fun literal_end :: "bytes \<Rightarrow> (bytes \<times> bytes) option" where
  "literal_end [] = None"
| "literal_end (c # cs) =
     (if c = 0x22 then Some ([], cs)
      else if c < 0x20 then None
      else if c = 0x5C then (case cs of [] \<Rightarrow> None | d # ds \<Rightarrow> map_option (apfst (\<lambda>b. c # d # b)) (literal_end ds))
      else map_option (apfst ((#) c)) (literal_end cs))"

definition quoted :: "bytes \<Rightarrow> (bytes \<times> bytes) option" where
  "quoted cs = (case cs of [] \<Rightarrow> None | c # cs \<Rightarrow> if c = 0x22 then literal_end cs else None)"

lemma literal_end_stops:
  "literal_end cs = Some (b, r) \<Longrightarrow> cs = b @ 0x22 # r \<and> literal_end (b @ 0x22 # rest) = Some (b, rest)"
  by (induction cs arbitrary: b r rule: literal_end.induct) (fastforce split: if_splits list.splits)+

lemma literal_end_length: "literal_end cs = Some (b, r) \<Longrightarrow> length r < length cs"
  using literal_end_stops [of cs b r "[]"] by simp

text \<open>The text of a value, inside \<open>d\<close> open brackets, and the comma or bracket that ends it.\<close>

function value_end :: "nat \<Rightarrow> bytes \<Rightarrow> (bytes \<times> bytes) option" where
  "value_end d [] = None"
| "value_end d (c # cs) =
     (if c = 0x22 then
        (case literal_end cs of
           None \<Rightarrow> None
         | Some (b, r) \<Rightarrow> map_option (apfst (\<lambda>v. 0x22 # b @ 0x22 # v)) (value_end d r))
      else if c = 0x7B \<or> c = 0x5B then map_option (apfst ((#) c)) (value_end (d + 1) cs)
      else if c = 0x7D \<or> c = 0x5D then
        (if d = 0 then Some ([], c # cs) else map_option (apfst ((#) c)) (value_end (d - 1) cs))
      else if c = 0x2C \<and> d = 0 then Some ([], c # cs)
      else map_option (apfst ((#) c)) (value_end d cs))"
  by pat_completeness auto
termination
  by (relation "measure (length \<circ> snd)") (auto dest: literal_end_length)

definition ends_value :: "u8 \<Rightarrow> bool" where
  "ends_value c \<longleftrightarrow> c = 0x2C \<or> c = 0x7D \<or> c = 0x5D"

text \<open>A text that stands for a value on its own: the reader takes all of it and no more.\<close>

definition value_text :: "bytes \<Rightarrow> bool" where
  "value_text v \<longleftrightarrow> v \<noteq> [] \<and> value_end 0 (v @ [0x2C]) = Some (v, [0x2C])"

text \<open>One byte that opens no string: it ends the value, or the scan goes on at some depth.\<close>

fun depth_after :: "nat \<Rightarrow> u8 \<Rightarrow> nat" where
  "depth_after d c = (if c = 0x7B \<or> c = 0x5B then d + 1 else if c = 0x7D \<or> c = 0x5D then d - 1 else d)"

lemma value_end_byte:
  "c \<noteq> 0x22 \<Longrightarrow> value_end d (c # cs) =
     (if d = 0 \<and> ends_value c then Some ([], c # cs) else map_option (apfst ((#) c)) (value_end (depth_after d c) cs))"
  by (auto simp: ends_value_def)

lemma value_end_string:
  "value_end d (0x22 # cs) = (case literal_end cs of None \<Rightarrow> None
     | Some (b, r) \<Rightarrow> map_option (apfst (\<lambda>v. 0x22 # b @ 0x22 # v)) (value_end d r))"
  by simp

declare value_end.simps(2) [simp del] depth_after.simps [simp del]

lemma value_end_stops:
  "value_end d cs = Some (v, r) \<Longrightarrow> cs = v @ r \<and> r \<noteq> [] \<and>
    (ends_value c \<longrightarrow> value_end d (v @ c # rest) = Some (v, c # rest))"
proof (induction "length cs" arbitrary: d cs v r rule: less_induct)
  case less
  show ?case
  proof (cases cs)
    case (Cons x ys)
    show ?thesis
    proof (cases "x = 0x22")
      case True
      then obtain b r' v' where 1: "literal_end ys = Some (b, r')" "value_end d r' = Some (v', r)" "v = 0x22 # b @ 0x22 # v'"
        using less.prems Cons by (auto simp: value_end_string split: option.splits)
      have "length r' < length cs" using literal_end_length [OF 1(1)] Cons by simp
      note IH = less.hyps [OF this 1(2)]
      note lit = literal_end_stops [OF 1(1)]
      show ?thesis using IH lit 1(3) True Cons by (simp add: value_end_string)
    next
      case False
      show ?thesis
      proof (cases "d = 0 \<and> ends_value x")
        case True
        then have "v = [] \<and> r = cs" using less.prems False Cons by (simp add: value_end_byte)
        moreover have "value_end 0 (c # rest) = Some ([], c # rest)" if "ends_value c"
          using that by (subst value_end_byte) (auto simp: ends_value_def)
        ultimately show ?thesis using True Cons by simp
      next
        case stop: False
        then obtain v' where 1: "value_end (depth_after d x) ys = Some (v', r)" "v = x # v'"
          using less.prems False Cons by (auto simp: value_end_byte split: if_splits)
        from less.hyps [OF _ 1(1)] Cons show ?thesis using 1(2) False stop by (auto simp: value_end_byte)
      qed
    qed
  qed (use less.prems in simp)
qed

lemma value_text_ends: "value_text v \<Longrightarrow> ends_value c \<Longrightarrow> value_end 0 (v @ c # rest) = Some (v, c # rest)"
  using value_end_stops [of 0 "v @ [0x2C]" v "[0x2C]" c rest] by (simp add: value_text_def)

lemma member_shorter:
  assumes "quoted cs = Some (k, c # cs')" "value_end 0 cs' = Some (v, c' # rest)"
  shows "length rest < length cs"
proof -
  have "length (c # cs') < length cs"
    using assms(1) literal_end_length by (fastforce simp: quoted_def split: list.splits if_splits)
  then show ?thesis using value_end_stops [OF assms(2)] by simp
qed

text \<open>
  The members of an object after its opening brace, and the object: pairs in the order of the
  text. The escapes of a key are undone by \<open>unesc\<close>.
\<close>

function read_members :: "(bytes \<Rightarrow> str) \<Rightarrow> bytes \<Rightarrow> (str \<times> bytes) list option" where
  "read_members unesc cs =
     (case quoted cs of
        None \<Rightarrow> None
      | Some (k, cs) \<Rightarrow>
          (case cs of
             [] \<Rightarrow> None
           | c # cs \<Rightarrow>
               if c \<noteq> 0x3A then None
               else
                 (case value_end 0 cs of
                    None \<Rightarrow> None
                  | Some (v, cs) \<Rightarrow>
                      (case cs of
                         [] \<Rightarrow> None
                       | c # cs \<Rightarrow>
                           if v = [] then None
                           else if c = 0x7D \<and> cs = [] then Some [(unesc k, v)]
                           else if c = 0x2C then map_option ((#) (unesc k, v)) (read_members unesc cs)
                           else None))))"
  by pat_completeness auto
termination
  by (relation "measure (length \<circ> snd)") (auto intro: member_shorter)

declare read_members.simps [simp del]

definition read_object :: "(bytes \<Rightarrow> str) \<Rightarrow> bytes \<Rightarrow> (str \<times> bytes) list option" where
  "read_object unesc cs =
     (case cs of
        [] \<Rightarrow> None
      | c # cs \<Rightarrow> if c \<noteq> 0x7B then None else if cs = [0x7D] then Some [] else read_members unesc cs)"

subsection \<open>Reading back\<close>

text \<open>
  What is asked of a member: its value is the text of a value; its key, when it is not plain and
  is written by the escaper, is a string literal that the reader's \<open>unesc\<close> turns into the key
  again, and \<open>unesc\<close> keeps a key with nothing to undo.
\<close>

definition member_ok :: "(str \<Rightarrow> bytes) \<Rightarrow> (bytes \<Rightarrow> str) \<Rightarrow> str \<times> bytes \<Rightarrow> bool" where
  "member_ok esc unesc kv \<longleftrightarrow> value_text (snd kv) \<and>
     (if key_is_plain (fst kv) then unesc (fst kv) = fst kv
      else map_option (apfst unesc) (quoted (esc (fst kv))) = Some (fst kv, []))"

lemma literal_plain: "key_is_plain k \<Longrightarrow> literal_end (k @ 0x22 # rest) = Some (k, rest)"
  by (induction k) (auto split: if_splits)

lemma key_text_reads:
  assumes "member_ok esc unesc (k, v)"
  shows "\<exists>b. quoted (key_text esc k @ rest) = Some (b, rest) \<and> unesc b = k"
proof (cases "key_is_plain k")
  case True
  then show ?thesis using assms literal_plain by (simp add: key_text_def quoted_def member_ok_def)
next
  case False
  then obtain b where b: "quoted (esc k) = Some (b, [])" "unesc b = k" using assms by (auto simp: member_ok_def)
  then obtain cs where "esc k = 0x22 # cs" "literal_end cs = Some (b, [])"
    by (auto simp: quoted_def split: list.splits if_splits)
  with literal_end_stops [of cs b "[]" rest] b False show ?thesis by (simp add: key_text_def quoted_def)
qed

lemma member_reads:
  assumes "member_ok esc unesc kv" "ends_value c"
  shows "read_members unesc (member_text esc kv @ c # rest) =
    (if c = 0x7D \<and> rest = [] then Some [kv] else if c = 0x2C then map_option ((#) kv) (read_members unesc rest) else None)"
proof -
  obtain k v where kv: "kv = (k, v)" by fastforce
  obtain b where "quoted (key_text esc k @ 0x3A # v @ c # rest) = Some (b, 0x3A # v @ c # rest)" "unesc b = k"
    using key_text_reads assms(1) kv by blast
  moreover have "value_end 0 (v @ c # rest) = Some (v, c # rest)" "v \<noteq> []"
    using assms kv value_text_ends [of v c rest] by (auto simp: member_ok_def value_text_def)
  ultimately show ?thesis by (subst read_members.simps) (simp add: member_text_def kv)
qed

lemma members_read:
  assumes "list_all (member_ok esc unesc) kvs" "kvs \<noteq> []"
  shows "read_members unesc (join_members (map (member_text esc) kvs) @ [0x7D]) = Some kvs"
  using assms
proof (induction kvs)
  case (Cons kv kvs)
  show ?case
  proof (cases kvs)
    case Nil
    then show ?thesis using Cons.prems member_reads [of esc unesc kv "0x7D" "[]"] by (simp add: ends_value_def)
  next
    case (Cons kv' kvs')
    with Cons.IH Cons.prems show ?thesis
      using member_reads [of esc unesc kv "0x2C" "join_members (map (member_text esc) kvs) @ [0x7D]"]
      by (simp add: ends_value_def)
  qed
qed simp

lemma object_reads_back:
  assumes "list_all (member_ok esc unesc) kvs"
  shows "read_object unesc (object_text (map (member_text esc) kvs)) = Some kvs"
proof (cases "kvs = []")
  case False
  moreover have "join_members (map (member_text esc) kvs) \<noteq> []" using False join_members_Nil [OF member_text_not_Nil] by simp
  ultimately show ?thesis using members_read [OF assms] by (simp add: read_object_def object_text_def)
qed (simp add: read_object_def object_text_def)

text \<open>Objects nest: the text of an object with such members is the text of a value.\<close>

lemma value_end_deeper:
  "value_end d cs = Some (v, r) \<Longrightarrow> value_end (d + n) (v @ rest) = map_option (apfst ((@) v)) (value_end n rest)"
proof (induction "length cs" arbitrary: d cs v r rule: less_induct)
  case less
  show ?case
  proof (cases cs)
    case (Cons x ys)
    show ?thesis
    proof (cases "x = 0x22")
      case True
      then obtain b r' v' where 1: "literal_end ys = Some (b, r')" "value_end d r' = Some (v', r)" "v = 0x22 # b @ 0x22 # v'"
        using less.prems Cons by (auto simp: value_end_string split: option.splits)
      have "length r' < length cs" using literal_end_length [OF 1(1)] Cons by simp
      note IH = less.hyps [OF this 1(2)]
      show ?thesis
        using IH literal_end_stops [OF 1(1), of "v' @ rest"] 1(3)
        by (cases "value_end n rest") (auto simp: value_end_string apfst_def map_prod_def)
    next
      case False
      show ?thesis
      proof (cases "d = 0 \<and> ends_value x")
        case True
        then have "v = []" using less.prems False Cons by (simp add: value_end_byte)
        then show ?thesis using True by (simp add: apfst_def map_prod_def option.map_id)
      next
        case go: False
        then obtain v' where 1: "value_end (depth_after d x) ys = Some (v', r)" "v = x # v'"
          using less.prems False Cons by (auto simp: value_end_byte split: if_splits)
        have "depth_after (d + n) x = depth_after d x + n"
          using go by (auto simp: depth_after.simps ends_value_def)
        with less.hyps [OF _ 1(1)] Cons show ?thesis using 1(2) False go
          by (cases "value_end n rest") (auto simp: value_end_byte apfst_def map_prod_def)
      qed
    qed
  qed (use less.prems in simp)
qed

lemma member_nested:
  assumes "member_ok esc unesc kv"
  shows "value_end 1 (member_text esc kv @ rest) = map_option (apfst ((@) (member_text esc kv))) (value_end 1 rest)"
proof -
  obtain k v where kv: "kv = (k, v)" by fastforce
  obtain b where "quoted (key_text esc k @ 0x3A # v @ rest) = Some (b, 0x3A # v @ rest)"
    using key_text_reads assms kv by blast
  then obtain cs where key: "key_text esc k = 0x22 # cs" "literal_end (cs @ 0x3A # v @ rest) = Some (b, 0x3A # v @ rest)"
    by (cases "key_text esc k") (auto simp: quoted_def split: if_splits)
  have "value_end (0 + 1) (v @ rest) = map_option (apfst ((@) v)) (value_end 1 rest)"
    using assms kv by (intro value_end_deeper [where cs = "v @ [0x2C]" and r = "[0x2C]"]) (simp add: member_ok_def value_text_def)
  moreover have "cs = b @ [0x22]" using literal_end_stops [OF key(2), of "[]"] by simp
  ultimately show ?thesis using key
    by (cases "value_end 1 rest")
      (auto simp: kv member_text_def value_end_string value_end_byte [of "0x3A"] depth_after.simps ends_value_def
        apfst_def map_prod_def)
qed

lemma object_is_value:
  assumes "list_all (member_ok esc unesc) kvs"
  shows "value_text (object_text (map (member_text esc) kvs))"
proof -
  have close: "value_end 1 [0x7D, 0x2C] = Some ([0x7D], [0x2C])" "value_end 0 [0x7D, 0x2C] = Some ([], [0x7D, 0x2C])" by code_simp+
  note close = close close(1) [unfolded One_nat_def]
  have "value_end 1 (join_members (map (member_text esc) kvs) @ [0x7D, 0x2C]) =
      Some (join_members (map (member_text esc) kvs) @ [0x7D], [0x2C])"
    using assms
  proof (induction kvs)
    case (Cons kv kvs)
    then show ?case
      using member_nested [of esc unesc kv]
      by (cases kvs) (simp_all add: close value_end_byte [of "0x2C"] depth_after.simps ends_value_def)
  qed (simp add: close)
  then show ?thesis
    by (simp add: value_text_def object_text_def value_end_byte [of "0x7B"] depth_after.simps ends_value_def)
qed

text \<open>
  C31: what \<open>props!\<close> builds reads back. When every literal key passes the check at compile time,
  the macro gives a payload, and a JSON reader of its text gets exactly the pairs that were
  written, in their order, a key given twice included: no key or value runs into the next.
\<close>

theorem props_macro_reads_back:
  assumes "list_all (checked_key \<circ> fst) kvs" "list_all (member_ok esc unesc \<circ> apfst key_name) kvs"
  shows "\<exists>p text. props_macro esc kvs = Some p \<and> into_payload (PProps p) = Some text \<and>
    read_object unesc text = Some (map (apfst key_name) kvs)"
  using assms object_reads_back [of esc unesc "map (apfst key_name) kvs"]
  by (simp add: props_macro_def props_inner_adds props_build_text list.pred_map del: into_payload.simps)

text \<open>A key with a quote in it, escaped as \<open>serde_json\<close> does; a value with a comma and a brace inside a string.\<close>

definition sample_escape :: "str \<Rightarrow> bytes" where
  "sample_escape k = [0x22] @ concat (map (\<lambda>c. if c = 0x22 \<or> c = 0x5C then [0x5C, c] else [c]) k) @ [0x22]"

fun sample_unescape :: "bytes \<Rightarrow> str" where
  "sample_unescape [] = []"
| "sample_unescape (c # cs) = (if c = 0x5C then (case cs of [] \<Rightarrow> [] | d # ds \<Rightarrow> d # sample_unescape ds) else c # sample_unescape cs)"

theorem props_macro_reads_back_witness:
  "\<exists>p text. props_macro sample_escape [(LiteralKey [97], [49]), (ExprKey [0x22, 98], [0x7B, 0x22, 0x2C, 0x7D, 0x22, 0x7D])] = Some p \<and>
    into_payload (PProps p) = Some text \<and>
    read_object sample_unescape text = Some [([97], [49]), ([0x22, 98], [0x7B, 0x22, 0x2C, 0x7D, 0x22, 0x7D])]"
proof -
  have "member_ok sample_escape sample_unescape ([97], [49])"
    "member_ok sample_escape sample_unescape ([0x22, 98], [0x7B, 0x22, 0x2C, 0x7D, 0x22, 0x7D])"
    by code_simp+
  then show ?thesis
    using props_macro_reads_back [where esc = sample_escape and unesc = sample_unescape and
        kvs = "[(LiteralKey [97], [49]), (ExprKey [0x22, 98], [0x7B, 0x22, 0x2C, 0x7D, 0x22, 0x7D])]"]
    by simp
qed

lemma user_id_member: "key_colon ''user_id'' @ v = member_text esc (str_of ''user_id'', v)"
proof -
  have "key_is_plain (str_of ''user_id'')" by code_simp
  then show ?thesis by (simp add: member_text_def key_text_def key_colon_def)
qed

text \<open>
  C32: what a tracked event carries, whatever calls came before. A valid \<open>track\<close> with room in the
  channel queues one event with the client's device and the session in force, and a JSON reader
  of its payload gets the user id, then the super properties as the registrations and removals
  so far left them, then the caller's properties, each in its own order. A key both give is
  there twice, the caller's last.
\<close>

theorem track_payload_reads_back:
  fixes sd :: "'m Serde" and c0 :: "('w, 'm) Tell"
  assumes "serde_ok sd (\<lambda>m. map (member_text esc) (pairs m))" "tell_new sd config on_error u v spawned = Inr c0"
    and "c = fold (apply_op sd) ops c0"
    and "user_id \<noteq> []" "name \<noteq> []" "length name \<le> 256" "tl_connected c" "length (tl_channel c) < tl_capacity c"
    and "kvs1 = (str_of ''user_id'', sd_str sd user_id) # pairs (fold (supers_after sd) ops (sd_empty sd)) @ kvs"
    and "list_all (member_ok esc unesc) kvs1"
  shows "\<exists>c' e text. try_track sd now user_id name (PProps (add_all esc kvs)) c = (True, c') \<and>
    tl_channel c' = tl_channel c @ [EventMsg e] \<and> qe_event_type e = Track \<and> qe_event_name e = Some name \<and>
    qe_timestamp e = now \<and> qe_device_id e = v \<and>
    qe_session_id e = fold session_after ops (if tc_enable_session config then Some u else None) \<and>
    qe_payload e = Some text \<and> read_object unesc text = Some kvs1"
proof -
  note ids = identity_calls(1-3) [OF assms(2,3)] identity_calls(4) [OF assms(2,3,1)]
  have same: "object_text ((key_colon ''user_id'' @ sd_str sd user_id) #
      map (member_text esc) (pairs (sp_map (tl_super_props c))) @ map (member_text esc) kvs) =
      object_text (map (member_text esc) kvs1)"
    using assms(9) ids(2) user_id_member by simp
  show ?thesis
    unfolding track_queues [OF assms(1) ids(4) assms(4-8)] same
    using ids(1,3) object_reads_back [OF assms(10)] by simp
qed

theorem track_payload_reads_back_witness:
  "\<exists>c0 c' e text. tell_new sample_serde (sample_config\<lparr>tc_enable_session := True\<rparr>) True (replicate 16 1) (zeros 16) (spawn_worker True (Inr ()) (Inr ())) =
      Inr (c0 :: (unit, (str \<times> bytes) list) Tell) \<and>
    try_track sample_serde 5 [117] [80] (PProps (add_all id [([97], [49])])) (fold (apply_op sample_serde) [OpResetSession (replicate 16 2)] c0) = (True, c') \<and>
    tl_channel c' = [EventMsg e] \<and> qe_session_id e = Some (replicate 16 2) \<and> qe_payload e = Some text \<and>
    read_object id text = Some [(str_of ''user_id'', [0x22, 117, 0x22]), ([97], [49])]"
proof -
  let ?config = "sample_config\<lparr>tc_enable_session := True\<rparr>"
  obtain c0 :: "(unit, (str \<times> bytes) list) Tell" where c0: "tell_new sample_serde ?config True (replicate 16 1) (zeros 16)
      (spawn_worker True (Inr ()) (Inr ())) = Inr c0"
    by (simp add: tell_new_def spawn_worker_def)
  let ?c = "fold (apply_op sample_serde) [OpResetSession (replicate 16 2)] c0"
  have room: "tl_channel ?c = []" "tl_connected ?c" "length (tl_channel ?c) < tl_capacity ?c"
    using c0 by (auto simp: tell_new_def spawn_worker_def sample_config_def reset_session_def)
  have ok: "list_all (member_ok id id) [(str_of ''user_id'', [0x22, 117, 0x22]), ([97], [49])]"
    by code_simp
  have "serde_ok sample_serde (\<lambda>m. map (member_text id) (id m))" using sample_serde_ok by simp
  from track_payload_reads_back [OF this c0 refl _ _ _ room(2,3) refl, where user_id = "[117]" and name = "[80]" and
      kvs = "[([97], [49])]" and unesc = id and now = 5] c0 room(1) ok
  show ?thesis by (auto simp: sample_serde_def)
qed

end
