(* ===== verification/Payload_Props.thy ===== *)
theory Payload_Props
  imports Json_Reader "HOL-Library.Sublist"
begin

section \<open>Every payload the client queues reads back\<close>

text \<open>
  Whatever the calls, each event and each log entry in the channel has a payload in which a
  JSON reader finds the members its kind requires, first and in their order.
\<close>

definition builds :: "(str \<Rightarrow> bytes) \<Rightarrow> (bytes \<Rightarrow> str) \<Rightarrow> JsonObject \<Rightarrow> (str \<times> bytes) list \<Rightarrow> bool" where
  "builds esc unesc b kvs \<longleftrightarrow> json_rep b (map (member_text esc) kvs) \<and> list_all (member_ok esc unesc) kvs"

text \<open>An argument that is no object adds nothing; one that is adds its members.\<close>

definition arg_ok :: "(str \<Rightarrow> bytes) \<Rightarrow> (bytes \<Rightarrow> str) \<Rightarrow> payload_arg \<Rightarrow> bool" where
  "arg_ok esc unesc p \<longleftrightarrow> object_inner (into_payload p) = None \<or>
     (\<exists>kvs. list_all (member_ok esc unesc) kvs \<and> into_payload p = Some (object_text (map (member_text esc) kvs)))"

lemma arg_ok_unit: "arg_ok esc unesc PUnit"
  by (simp add: arg_ok_def object_inner_def)

lemma arg_ok_props: "list_all (member_ok esc unesc) kvs \<Longrightarrow> arg_ok esc unesc (PProps (add_all esc kvs))"
  unfolding arg_ok_def by (intro disjI2 exI [of _ kvs]) (simp add: props_finish_rep [OF add_all_rep])

definition plain_name :: "(bytes \<Rightarrow> str) \<Rightarrow> string \<Rightarrow> bool" where
  "plain_name unesc name \<longleftrightarrow> key_is_plain (str_of name) \<and> unesc (str_of name) = str_of name"

lemma builds_new: "builds esc unesc json_new []"
  by (simp add: builds_def json_new_rep)

lemma builds_field:
  assumes "builds esc unesc b kvs" "plain_name unesc name" "value_text v"
  shows "builds esc unesc (json_field b (key_colon name) v) (kvs @ [(str_of name, v)])"
proof -
  have "key_colon name @ v = member_text esc (str_of name, v)" "key_colon name \<noteq> []"
    using assms(2) by (simp_all add: member_text_def key_text_def key_colon_def plain_name_def)
  with json_field_rep [of b "map (member_text esc) kvs" "key_colon name" v] assms show ?thesis
    by (simp add: builds_def member_ok_def plain_name_def)
qed

lemma builds_object:
  assumes "builds esc unesc b kvs" "arg_ok esc unesc p"
  shows "\<exists>kvs'. builds esc unesc (json_object b (into_payload p)) (kvs @ kvs')"
proof (cases "object_inner (into_payload p)")
  case None
  with assms show ?thesis by (intro exI [of _ "[]"]) (simp add: json_object_def)
next
  case (Some inner)
  then obtain kvs' where k: "list_all (member_ok esc unesc) kvs'" "into_payload p = Some (object_text (map (member_text esc) kvs'))"
    using assms(2) by (auto simp: arg_ok_def)
  from json_object_rep [OF _ member_text_not_Nil, of b "map (member_text esc) kvs" esc kvs'] k assms(1) show ?thesis
    by (intro exI [of _ kvs']) (simp add: builds_def)
qed

lemma builds_reads: "builds esc unesc b kvs \<Longrightarrow> read_object unesc (json_finish b) = Some kvs"
  using json_finish_rep object_reads_back by (fastforce simp: builds_def)

subsection \<open>The client\<close>

text \<open>The members a message starts with, and a message whose payload reads back so.\<close>

fun leading :: "WorkerMessage \<Rightarrow> str list" where
  "leading (EventMsg e) = map str_of (case qe_event_type e of Group \<Rightarrow> [''group_id'', ''user_id'']
     | Alias \<Rightarrow> [''previous_id'', ''user_id''] | _ \<Rightarrow> [''user_id''])"
| "leading (LogMsg l) = [str_of ''message'']"
| "leading _ = []"

fun payload_of :: "WorkerMessage \<Rightarrow> bytes option" where
  "payload_of (EventMsg e) = qe_payload e"
| "payload_of (LogMsg l) = ql_payload l"
| "payload_of _ = None"

definition msg_reads :: "(bytes \<Rightarrow> str) \<Rightarrow> WorkerMessage \<Rightarrow> bool" where
  "msg_reads unesc m \<longleftrightarrow> leading m = [] \<or> (\<exists>text kvs. payload_of m = Some text \<and> read_object unesc text = Some kvs \<and>
     prefix (leading m) (map fst kvs))"

text \<open>What the client writes as values: strings, numbers and the arguments of a call.\<close>

fun op_strings :: "client_op \<Rightarrow> str list" where
  "op_strings (OpTrack now u n p) = [u]"
| "op_strings (OpTrackStatic now u n p) = [u]"
| "op_strings (OpTrackWithSession now sid u n p) = [u]"
| "op_strings (OpIdentify now u p) = [u]"
| "op_strings (OpGroup now u g p) = [u, g]"
| "op_strings (OpRevenue now u a cur ord p) = [u, cur, ord]"
| "op_strings (OpRevenueWithSession now sid u a cur ord p) = [u, cur, ord]"
| "op_strings (OpAlias now prev u) = [prev, u]"
| "op_strings (OpLog now l m cmp p) = [m]"
| "op_strings (OpLogWithService now l m cmp svc p) = [m]"
| "op_strings (OpLogWithSession now sid l m cmp p) = [m]"
| "op_strings _ = []"

fun op_numbers :: "client_op \<Rightarrow> f64 list" where
  "op_numbers (OpRevenue now u a cur ord p) = [a]"
| "op_numbers (OpRevenueWithSession now sid u a cur ord p) = [a]"
| "op_numbers _ = []"

fun op_args :: "client_op \<Rightarrow> payload_arg list" where
  "op_args (OpTrack now u n p) = [p]"
| "op_args (OpTrackStatic now u n p) = [p]"
| "op_args (OpTrackWithSession now sid u n p) = [p]"
| "op_args (OpIdentify now u p) = [p]"
| "op_args (OpGroup now u g p) = [p]"
| "op_args (OpRevenue now u a cur ord p) = [p]"
| "op_args (OpRevenueWithSession now sid u a cur ord p) = [p]"
| "op_args (OpLog now l m cmp p) = [p]"
| "op_args (OpLogWithService now l m cmp svc p) = [p]"
| "op_args (OpLogWithSession now sid l m cmp p) = [p]"
| "op_args _ = []"

definition op_reads :: "(str \<Rightarrow> bytes) \<Rightarrow> (bytes \<Rightarrow> str) \<Rightarrow> 'm Serde \<Rightarrow> client_op \<Rightarrow> bool" where
  "op_reads esc unesc sd op \<longleftrightarrow> list_all (value_text \<circ> sd_str sd) (op_strings op) \<and>
     list_all (value_text \<circ> sd_f64 sd) (op_numbers op) \<and> list_all (arg_ok esc unesc) (op_args op)"

text \<open>The names of the members the client writes itself.\<close>

definition own_names :: "string list" where
  "own_names = [''user_id'', ''group_id'', ''previous_id'', ''message'', ''amount'', ''currency'', ''order_id'']"

definition reads_ok :: "(str \<Rightarrow> bytes) \<Rightarrow> (bytes \<Rightarrow> str) \<Rightarrow> ('m \<Rightarrow> (str \<times> bytes) list) \<Rightarrow> ('w, 'm) Tell \<Rightarrow> bool" where
  "reads_ok esc unesc pairs c \<longleftrightarrow> super_ok (\<lambda>m. map (member_text esc) (pairs m)) c \<and>
     list_all (member_ok esc unesc) (pairs (sp_map (tl_super_props c)))"

lemma builds_fragment:
  assumes "builds esc unesc b kvs" "reads_ok esc unesc pairs c"
  shows "builds esc unesc (json_fragment b (unwrap_or (super_fragment c) [])) (kvs @ pairs (sp_map (tl_super_props c)))"
proof -
  have "super_ok (\<lambda>m. map (member_text esc) (pairs m)) c" using assms(2) by (simp add: reads_ok_def)
  note fragment_eq [OF this]
  with json_fragment_rep [OF _ member_text_not_Nil, of b "map (member_text esc) kvs" esc "pairs (sp_map (tl_super_props c))"] assms
  show ?thesis by (simp add: builds_def reads_ok_def)
qed

abbreviation channel_reads :: "(bytes \<Rightarrow> str) \<Rightarrow> ('w, 'm) Tell \<Rightarrow> bool" where
  "channel_reads unesc c \<equiv> list_all (msg_reads unesc) (tl_channel c)"

lemma enqueue_reads: "channel_reads unesc c \<Longrightarrow> msg_reads unesc msg \<Longrightarrow> channel_reads unesc (snd (enqueue msg c))"
  by (auto simp: enqueue_def try_send_def report_error_def record_drop_def Let_def)

lemma report_reads: "channel_reads unesc (report_error e c) = channel_reads unesc c"
  by (simp add: report_error_def)

lemma builds_msg:
  assumes "builds esc unesc b kvs" "payload_of m = Some (json_finish b)" "prefix (leading m) (map fst kvs)"
  shows "msg_reads unesc m"
  using builds_reads [OF assms(1)] assms(2,3) by (auto simp: msg_reads_def)

lemma own_name: "list_all (plain_name unesc) own_names \<Longrightarrow> name \<in> set own_names \<Longrightarrow> plain_name unesc name"
  by (simp add: list_all_iff)

lemma body_reads:
  assumes "builds esc unesc b kvs" "reads_ok esc unesc pairs c" "arg_ok esc unesc p" "leading m = map fst kvs \<or> prefix (leading m) (map fst kvs)"
    and "payload_of m = Some (json_finish (json_object (json_fragment b (unwrap_or (super_fragment c) [])) (into_payload p)))"
  shows "msg_reads unesc m"
proof -
  obtain kvs' where "builds esc unesc (json_object (json_fragment b (unwrap_or (super_fragment c) [])) (into_payload p))
      ((kvs @ pairs (sp_map (tl_super_props c))) @ kvs')"
    using builds_object [OF builds_fragment [OF assms(1,2)] assms(3)] by blast
  from builds_msg [OF this assms(5)] assms(4) show ?thesis by (auto simp: prefix_def)
qed

lemma plain_body_reads:
  assumes "builds esc unesc b kvs" "arg_ok esc unesc p" "prefix (leading m) (map fst kvs)"
    and "payload_of m = Some (json_finish (json_object b (into_payload p)))"
  shows "msg_reads unesc m"
proof -
  obtain kvs' where "builds esc unesc (json_object b (into_payload p)) (kvs @ kvs')"
    using builds_object [OF assms(1,2)] by blast
  from builds_msg [OF this assms(4)] assms(3) show ?thesis by (auto simp: prefix_def)
qed

lemma start_field:
  "list_all (plain_name unesc) own_names \<Longrightarrow> name \<in> set own_names \<Longrightarrow> value_text v \<Longrightarrow>
    builds esc unesc (json_field json_new (key_colon name) v) [(str_of name, v)]"
  using builds_field [OF builds_new, where name = name and v = v and unesc = unesc and esc = esc] own_name [of unesc name] by simp

lemma next_field:
  "builds esc unesc b kvs \<Longrightarrow> list_all (plain_name unesc) own_names \<Longrightarrow> name \<in> set own_names \<Longrightarrow> value_text v \<Longrightarrow>
    builds esc unesc (json_field b (key_colon name) v) (kvs @ [(str_of name, v)])"
  by (rule builds_field) (auto intro: own_name)

lemma calls_read:
  assumes names: "list_all (plain_name unesc) own_names" and c: "reads_ok esc unesc pairs c" "channel_reads unesc c"
    and args: "list_all (value_text \<circ> sd_str sd) strs" "list_all (value_text \<circ> sd_f64 sd) nums" "arg_ok esc unesc p"
  shows "u \<in> set strs \<Longrightarrow> channel_reads unesc (snd (track_inner sd now sid u n p c))"
    "u \<in> set strs \<Longrightarrow> channel_reads unesc (identify sd now u p c)"
    "{u, g} \<subseteq> set strs \<Longrightarrow> channel_reads unesc (group sd now u g p c)"
    "{u, cur, oid} \<subseteq> set strs \<Longrightarrow> a \<in> set nums \<Longrightarrow> channel_reads unesc (revenue_inner sd now sid u a cur oid p c)"
    "{prev, u} \<subseteq> set strs \<Longrightarrow> channel_reads unesc (tell_alias sd now prev u c)"
    "m \<in> set strs \<Longrightarrow> channel_reads unesc (snd (try_log_inner sd now sid l m cmp svc p c))"
proof -
  have str: "x \<in> set strs \<Longrightarrow> value_text (sd_str sd x)" and num: "y \<in> set nums \<Longrightarrow> value_text (sd_f64 sd y)" for x y
    using args(1,2) by (auto simp: list_all_iff)
  note field = start_field [OF names] and more_field = next_field [OF _ names]
  have mem: "''user_id'' \<in> set own_names" "''group_id'' \<in> set own_names" "''previous_id'' \<in> set own_names"
    "''message'' \<in> set own_names" "''amount'' \<in> set own_names" "''currency'' \<in> set own_names" "''order_id'' \<in> set own_names"
    by (simp_all add: own_names_def)
  show "channel_reads unesc (snd (track_inner sd now sid u n p c))" if "u \<in> set strs"
  proof -
    have "msg_reads unesc (EventMsg (queued c now Track sid (Some n) (event_payload sd c u (into_payload p))))"
      by (rule body_reads [OF field [OF mem(1) str [OF that]] c(1) args(3)]) (simp_all add: queued_def event_payload_def)
    then show ?thesis using c(2) by (auto simp: track_inner_def report_reads Let_def intro: enqueue_reads split: sum.split)
  qed
  show "channel_reads unesc (identify sd now u p c)" if "u \<in> set strs"
  proof -
    have "msg_reads unesc (EventMsg (queued c now Identify None None (json_finish (json_object
        (json_field json_new (key_colon ''user_id'') (sd_str sd u)) (into_payload p)))))"
      by (rule plain_body_reads [OF field [OF mem(1) str [OF that]] args(3)]) (simp_all add: queued_def)
    then show ?thesis using c(2) by (auto simp: identify_def report_reads Let_def intro: enqueue_reads split: sum.split)
  qed
  show "channel_reads unesc (group sd now u g p c)" if "{u, g} \<subseteq> set strs"
  proof -
    have "msg_reads unesc (EventMsg (queued c now Group None None (json_finish (json_object (json_fragment
        (json_field (json_field json_new (key_colon ''group_id'') (sd_str sd g)) (key_colon ''user_id'') (sd_str sd u))
        (unwrap_or (super_fragment c) [])) (into_payload p)))))"
      by (rule body_reads [OF more_field [OF field [OF mem(2) str] mem(1) str] c(1) args(3)])
        (use that in \<open>simp_all add: queued_def\<close>)
    then show ?thesis using c(2) by (auto simp: group_def report_reads Let_def intro: enqueue_reads split: sum.split)
  qed
  show "channel_reads unesc (revenue_inner sd now sid u a cur oid p c)" if "{u, cur, oid} \<subseteq> set strs" "a \<in> set nums"
  proof -
    have "msg_reads unesc (EventMsg (queued c now Track sid (Some ORDER_COMPLETED) (json_finish (json_object (json_fragment
        (json_field (json_field (json_field (json_field json_new (key_colon ''user_id'') (sd_str sd u))
          (key_colon ''amount'') (sd_f64 sd a)) (key_colon ''currency'') (sd_str sd cur)) (key_colon ''order_id'') (sd_str sd oid))
        (unwrap_or (super_fragment c) [])) (into_payload p)))))"
      by (rule body_reads [OF more_field [OF more_field [OF more_field [OF field [OF mem(1) str] mem(5) num] mem(6) str] mem(7) str]
          c(1) args(3)])
        (use that in \<open>simp_all add: queued_def\<close>)
    then show ?thesis using c(2) by (auto simp: revenue_inner_def report_reads Let_def intro: enqueue_reads split: sum.split)
  qed
  show "channel_reads unesc (tell_alias sd now prev u c)" if "{prev, u} \<subseteq> set strs"
  proof -
    have "msg_reads unesc (EventMsg (queued c now Alias None None (json_finish
        (json_field (json_field json_new (key_colon ''previous_id'') (sd_str sd prev)) (key_colon ''user_id'') (sd_str sd u)))))"
      by (rule builds_msg [OF more_field [OF field [OF mem(3) str] mem(1) str]]) (use that in \<open>simp_all add: queued_def\<close>)
    then show ?thesis using c(2) by (auto simp: tell_alias_def report_reads Let_def intro: enqueue_reads split: sum.split)
  qed
  show "channel_reads unesc (snd (try_log_inner sd now sid l m cmp svc p c))" if "m \<in> set strs"
  proof -
    have "msg_reads unesc (LogMsg \<lparr>ql_level = l, ql_timestamp = now, ql_session_id = sid, ql_component = cmp, ql_service = svc',
        ql_payload = Some (json_finish (json_object (json_field json_new (key_colon ''message'') (sd_str sd m)) (into_payload p)))\<rparr>)" for svc'
      by (rule plain_body_reads [OF field [OF mem(4) str [OF that]] args(3)]) simp_all
    then show ?thesis using c(2) by (auto simp: try_log_inner_def report_reads Let_def intro: enqueue_reads split: sum.split)
  qed
qed

lemma call_reads:
  assumes "list_all (plain_name unesc) own_names" "reads_ok esc unesc pairs c" "channel_reads unesc c" "op_reads esc unesc sd op"
  shows "channel_reads unesc (apply_op sd op c)"
proof -
  note args = assms(4) [unfolded op_reads_def]
  note reads = calls_read [OF assms(1-3), of sd "op_strings op" "op_numbers op"]
  have metric: "channel_reads unesc (send_metric now t n v ls temp h c)" for now t n v ls temp h
    using assms(3) by (auto simp: send_metric_def report_reads msg_reads_def intro: enqueue_reads)
  have rest: "channel_reads unesc (register sd p c)" "channel_reads unesc (unregister sd k c)" "channel_reads unesc (reset_session x c)"
    "leading msg = [] \<Longrightarrow> channel_reads unesc (snd (control out ans msg c))"
    "leading msg = [] \<Longrightarrow> channel_reads unesc (snd (control_blocking rt out b msg c))" for p k x out ans msg rt b
    using assms(3) by (auto simp: register_def unregister_def reset_session_def report_reads control_def control_blocking_def msg_reads_def
        send_control_def send_control_blocking_def Let_def split: option.splits send_outcome.splits)
  show ?thesis
    using args by (cases op) (auto simp: call_defs intro: reads reads(5) [OF _ _ arg_ok_unit] metric rest assms(3))
qed

lemma own_names_plain:
  "\<forall>name \<in> set own_names. unesc (str_of name) = str_of name \<Longrightarrow> list_all (plain_name unesc) own_names"
proof -
  have "list_all (\<lambda>name. key_is_plain (str_of name)) own_names" by code_simp
  moreover assume "\<forall>name \<in> set own_names. unesc (str_of name) = str_of name"
  ultimately show ?thesis by (auto simp: list_all_iff plain_name_def)
qed

text \<open>
  C21: whatever sequence of calls is made, every event and every log entry in the channel has a
  payload that is one JSON object, and the object starts with the members its kind requires: the
  user id, for a group the group id and the user id, for an alias the previous id and the user
  id, for a log entry the message. This holds whatever the arguments are that are no objects,
  and for arguments and super properties that are objects over JSON values.
\<close>

theorem payloads_read_back:
  fixes sd :: "'m Serde" and c0 :: "('w, 'm) Tell"
  assumes "serde_ok sd (\<lambda>m. map (member_text esc) (pairs m))" "tell_new sd config on_error u v spawned = Inr c0"
    and "\<forall>name \<in> set own_names. unesc (str_of name) = str_of name"
    and "\<forall>n. list_all (member_ok esc unesc) (pairs (fold (supers_after sd) (take n ops) (sd_empty sd)))"
    and "list_all (op_reads esc unesc sd) ops"
    and "m \<in> set (tl_channel (fold (apply_op sd) ops c0))" "leading m \<noteq> []"
  shows "\<exists>text kvs. payload_of m = Some text \<and> read_object unesc text = Some kvs \<and> prefix (leading m) (map fst kvs)"
proof -
  note names = own_names_plain [OF assms(3)]
  have "channel_reads unesc (fold (apply_op sd) ops c0)" using assms(4,5)
  proof (induction ops rule: rev_induct)
    case Nil
    have "tl_channel c0 = []" using assms(2) by (auto simp: tell_new_def split: sum.splits)
    then show ?case by simp
  next
    case (snoc op ops)
    let ?c = "fold (apply_op sd) ops c0"
    have supers: "list_all (member_ok esc unesc) (pairs (fold (supers_after sd) (take n ops) (sd_empty sd)))" for n
      using snoc.prems(1) [rule_format, of "min n (length ops)"] by (simp add: min_def split: if_splits)
    have "reads_ok esc unesc pairs ?c"
      using identity_calls(2) [OF assms(2) refl, where ops = ops] identity_calls(4) [OF assms(2) refl assms(1), where ops = ops]
        supers [of "length ops"] by (simp add: reads_ok_def)
    moreover have "channel_reads unesc ?c" using snoc.IH supers snoc.prems(2) by simp
    ultimately show ?case using call_reads [OF names] snoc.prems(2) by fastforce
  qed
  with assms(6,7) show ?thesis by (auto simp: list_all_iff msg_reads_def)
qed

theorem payloads_read_back_witness:
  "\<exists>c0 :: (unit, (str \<times> bytes) list) Tell.
    tell_new sample_serde sample_config True (zeros 16) (zeros 16) (spawn_worker True (Inr ()) (Inr ())) = Inr c0 \<and>
    (\<forall>m \<in> set (tl_channel (fold (apply_op sample_serde)
        [OpGroup 5 [117] [103] (PProps (add_all id [([97], [49])])), OpLog 6 Info [104] None (PValue (Some [51]))] c0)).
      \<exists>text kvs. payload_of m = Some text \<and> read_object id text = Some kvs \<and> prefix (leading m) (map fst kvs)) \<and>
    map leading (tl_channel (fold (apply_op sample_serde)
        [OpGroup 5 [117] [103] (PProps (add_all id [([97], [49])])), OpLog 6 Info [104] None (PValue (Some [51]))] c0)) =
      [[str_of ''group_id'', str_of ''user_id''], [str_of ''message'']]"
proof -
  let ?ops = "[OpGroup 5 [117] [103] (PProps (add_all id [([97], [49])])), OpLog 6 Info [104] None (PValue (Some [51]))]"
  obtain c0 :: "(unit, (str \<times> bytes) list) Tell" where c0: "tell_new sample_serde sample_config True (zeros 16) (zeros 16)
      (spawn_worker True (Inr ()) (Inr ())) = Inr c0"
    by (simp add: tell_new_def spawn_worker_def)
  have serde: "serde_ok sample_serde (\<lambda>m. map (member_text id) (id m))" using sample_serde_ok by simp
  have "list_all (member_ok id id) [([97], [49])]" by code_simp
  then have arg: "arg_ok id id (PProps (add_all id [([97], [49])]))" by (rule arg_ok_props)
  have "value_text (sd_str sample_serde [117])" "value_text (sd_str sample_serde [103])" "value_text (sd_str sample_serde [104])"
    unfolding sample_serde_def Serde.simps by code_simp+
  then have ops: "list_all (op_reads id id sample_serde) ?ops"
    using arg by (simp add: op_reads_def) (simp add: arg_ok_def object_inner_def)
  have supers: "fold (supers_after sample_serde) (take n ?ops) (sd_empty sample_serde) = []" for n
    by (cases n; cases "n - 1") (simp_all add: sample_serde_def take_Cons')
  have msgs: "map leading (tl_channel (fold (apply_op sample_serde) ?ops c0)) =
      [[str_of ''group_id'', str_of ''user_id''], [str_of ''message'']]"
    using c0
    by (auto simp: tell_new_def spawn_worker_def group_def validate_user_id_def enqueue_def try_send_def sample_config_def queued_def
        tell_log_def try_log_def try_log_with_service_def try_log_inner_def validate_log_message_def Let_def)
  then have "leading m \<noteq> []" if "m \<in> set (tl_channel (fold (apply_op sample_serde) ?ops c0))" for m
    using imageI [OF that, of leading] by (auto simp flip: set_map)
  then show ?thesis
    using payloads_read_back [OF serde c0 _ _ ops] supers msgs c0 by (intro exI [of _ c0] conjI) simp_all
qed

end
