(* ===== verification/Tracing_Layer.thy ===== *)
theory Tracing_Layer
  imports Json_Reader
begin

section \<open>The \<open>tracing\<close> layer (\<open>tell-tracing/src/lib.rs\<close>)\<close>

text \<open>
  The layer turns an event of the \<open>tracing\<close> library into a log entry. The library is
  third-party: an event is its metadata and the fields it visits, in order, each through the
  method for its type; a field of any other type is visited as \<open>Debug\<close>, with its rendered
  text. \<open>js\<close> gives the JSON text of the primitive values, \<open>esc\<close> the one of a key.
\<close>

datatype Level = ERROR | WARN | INFO | DEBUG | TRACE

fun level_to_tell :: "Level \<Rightarrow> LogLevel" where
  "level_to_tell ERROR = Error"
| "level_to_tell WARN = Warning"
| "level_to_tell INFO = Info"
| "level_to_tell DEBUG = Debug"
| "level_to_tell TRACE = Trace"

text \<open>\<open>tracing\<close> orders its levels by verbosity; the map keeps the order.\<close>

fun verbosity :: "Level \<Rightarrow> nat" where
  "verbosity ERROR = 1" | "verbosity WARN = 2" | "verbosity INFO = 3" | "verbosity DEBUG = 4" | "verbosity TRACE = 5"

instantiation Level :: linorder
begin

definition less_eq_Level :: "Level \<Rightarrow> Level \<Rightarrow> bool" where "less_eq_Level a b \<longleftrightarrow> verbosity a \<le> verbosity b"
definition less_Level :: "Level \<Rightarrow> Level \<Rightarrow> bool" where "less_Level a b \<longleftrightarrow> verbosity a < verbosity b"

instance
proof
  fix a b c :: Level
  show "(a < b) = (a \<le> b \<and> \<not> b \<le> a)" by (auto simp: less_eq_Level_def less_Level_def)
  show "a \<le> a" by (simp add: less_eq_Level_def)
  show "a \<le> b \<Longrightarrow> b \<le> c \<Longrightarrow> a \<le> c" by (auto simp: less_eq_Level_def)
  show "a \<le> b \<Longrightarrow> b \<le> a \<Longrightarrow> a = b" by (cases a; cases b) (simp_all add: less_eq_Level_def)
  show "a \<le> b \<or> b \<le> a" by (auto simp: less_eq_Level_def)
qed

end

lemma level_to_tell_strict_mono: "strict_mono level_to_tell"
proof (rule strict_monoI)
  fix a b :: Level
  show "a < b \<Longrightarrow> level_to_tell a < level_to_tell b"
    by (cases a; cases b) (simp_all add: less_Level_def less_LogLevel_def)
qed

datatype field_value = VStr str | VI64 "64 word" | VU64 u64 | VF64 f64 | VBool bool | VDebug str

record tracing_event =
  te_level :: Level
  te_name :: str
  te_target :: str
  te_fields :: "(str \<times> field_value) list"

record TellLayer =
  ly_component_from_target :: bool

definition layer_new :: TellLayer where "layer_new = \<lparr>ly_component_from_target = True\<rparr>"

definition with_component_from_target :: "bool \<Rightarrow> TellLayer \<Rightarrow> TellLayer" where
  "with_component_from_target enabled l = l\<lparr>ly_component_from_target := enabled\<rparr>"

definition MESSAGE_FIELD :: str where "MESSAGE_FIELD = str_of ''message''"

record PropsVisitor =
  vi_message :: "str option"
  vi_props :: "Props option"

definition visitor_new :: PropsVisitor where
  "visitor_new = \<lparr>vi_message = None, vi_props = Some props_new\<rparr>"

text \<open>The macro \<open>push!\<close>.\<close>

definition push :: "(str \<Rightarrow> bytes) \<Rightarrow> str \<Rightarrow> bytes \<Rightarrow> PropsVisitor \<Rightarrow> PropsVisitor" where
  "push esc name value v =
    (case vi_props v of Some props \<Rightarrow> v\<lparr>vi_props := Some (props_add esc props name value)\<rparr> | None \<Rightarrow> v)"

definition json_of :: "'m Serde \<Rightarrow> (field_value \<Rightarrow> bytes) \<Rightarrow> field_value \<Rightarrow> bytes" where
  "json_of sd js value =
    (case value of VStr s \<Rightarrow> sd_str sd s | VDebug s \<Rightarrow> sd_str sd s | VF64 x \<Rightarrow> sd_f64 sd x | _ \<Rightarrow> js value)"

text \<open>The methods of \<open>Visit\<close>: a text field named \<open>message\<close> is the message, all others are properties.\<close>

fun visit :: "'m Serde \<Rightarrow> (field_value \<Rightarrow> bytes) \<Rightarrow> (str \<Rightarrow> bytes) \<Rightarrow> str \<times> field_value \<Rightarrow> PropsVisitor \<Rightarrow> PropsVisitor" where
  "visit sd js esc (field, VStr value) v =
     (if field = MESSAGE_FIELD then v\<lparr>vi_message := Some value\<rparr> else push esc field (sd_str sd value) v)"
| "visit sd js esc (field, VDebug rendered) v =
     (if field = MESSAGE_FIELD then v\<lparr>vi_message := Some rendered\<rparr> else push esc field (sd_str sd rendered) v)"
| "visit sd js esc (field, value) v = push esc field (json_of sd js value) v"

definition on_event ::
  "'m Serde \<Rightarrow> (field_value \<Rightarrow> bytes) \<Rightarrow> (str \<Rightarrow> bytes) \<Rightarrow> u64 \<Rightarrow> TellLayer \<Rightarrow> tracing_event \<Rightarrow>
   ('w, 'm) Tell \<Rightarrow> ('w, 'm) Tell" where
  "on_event sd js esc now l event c =
    (let visitor = fold (visit sd js esc) (te_fields event) visitor_new;
         message = unwrap_or (vi_message visitor) (te_name event);
         component = (if ly_component_from_target l then Some (te_target event) else None) in
     tell_log sd now (level_to_tell (te_level event)) message component
       (PProps (unwrap_or (vi_props visitor) props_new)) c)"

subsection \<open>What is forwarded\<close>

fun is_message :: "str \<times> field_value \<Rightarrow> bool" where
  "is_message (field, VStr _) = (field = MESSAGE_FIELD)"
| "is_message (field, VDebug _) = (field = MESSAGE_FIELD)"
| "is_message _ = False"

fun text_of :: "field_value \<Rightarrow> str" where
  "text_of (VStr s) = s" | "text_of (VDebug s) = s" | "text_of _ = []"

definition message_of :: "tracing_event \<Rightarrow> str" where
  "message_of e =
    (let fs = filter is_message (te_fields e) in if fs = [] then te_name e else text_of (snd (last fs)))"

definition members_of :: "'m Serde \<Rightarrow> (field_value \<Rightarrow> bytes) \<Rightarrow> tracing_event \<Rightarrow> (str \<times> bytes) list" where
  "members_of sd js e = map (\<lambda>(k, v). (k, json_of sd js v)) (filter (Not \<circ> is_message) (te_fields e))"

lemma add_all_snoc: "props_add esc (add_all esc kvs) k v = add_all esc (kvs @ [(k, v)])"
  by (simp add: add_all_def)

lemma visit_all:
  "fold (visit sd js esc) fs visitor_new =
    \<lparr>vi_message = (let ms = filter is_message fs in if ms = [] then None else Some (text_of (snd (last ms)))),
     vi_props = Some (add_all esc (map (\<lambda>(k, v). (k, json_of sd js v)) (filter (Not \<circ> is_message) fs)))\<rparr>"
proof (induction fs rule: rev_induct)
  case Nil
  then show ?case by (simp add: visitor_new_def add_all_def Let_def)
next
  case (snoc f fs)
  obtain k v where f: "f = (k, v)" by (rule prod.exhaust)
  show ?case
    using snoc by (cases v) (auto simp: f push_def json_of_def add_all_snoc Let_def)
qed

lemma payload_text:
  assumes "json_rep b ms"
  shows "json_finish (json_object b (into_payload (PProps (add_all esc kvs)))) = object_text (ms @ map (member_text esc) kvs)"
  using json_object_rep [OF assms member_text_not_Nil, of esc kvs] json_finish_rep props_finish_rep [OF add_all_rep [of esc kvs]]
  by simp

lemma message_member: "key_colon ''message'' @ v = member_text esc (MESSAGE_FIELD, v)"
proof -
  have "key_is_plain (str_of ''message'')" by code_simp
  then show ?thesis by (simp add: member_text_def key_text_def key_colon_def MESSAGE_FIELD_def)
qed

text \<open>
  C33: an event becomes one log entry at the matching level. Its message is the last text or
  debug field named \<open>message\<close>, or else the event's own name; a JSON reader of its payload finds
  that message and then every other field, in order; and the target replaces the source
  exactly when the layer is told to send it. A number or a boolean named \<open>message\<close> is not the
  message: it becomes a second member with that key.
\<close>

theorem layer_forwards:
  assumes "message_of e \<noteq> []" "length (message_of e) \<le> 65536" "tl_connected c" "length (tl_channel c) < tl_capacity c"
    and "kvs = (MESSAGE_FIELD, sd_str sd (message_of e)) # members_of sd js e" "list_all (member_ok esc unesc) kvs"
  shows "\<exists>text. on_event sd js esc now l e c = c\<lparr>tl_channel := tl_channel c @ [LogMsg
     \<lparr>ql_level = level_to_tell (te_level e), ql_timestamp = now, ql_session_id = tl_session_id c,
      ql_component = (if ly_component_from_target l then Some (te_target e) else None), ql_service = None,
      ql_payload = Some text\<rparr>], tl_queue_full := False\<rparr> \<and> read_object unesc text = Some kvs"
proof -
  let ?v = "fold (visit sd js esc) (te_fields e) visitor_new"
  have m: "unwrap_or (vi_message ?v) (te_name e) = message_of e"
    by (simp add: visit_all message_of_def unwrap_or_def Let_def)
  have p: "unwrap_or (vi_props ?v) props_new = add_all esc (members_of sd js e)"
    by (simp add: visit_all members_of_def unwrap_or_def)
  have "json_rep (json_field json_new (key_colon ''message'') (sd_str sd (message_of e)))
      [key_colon ''message'' @ sd_str sd (message_of e)]"
    using json_field_rep [OF json_new_rep, of "key_colon ''message''"] by (simp add: key_colon_def)
  from payload_text [OF this, of esc "members_of sd js e"] assms(1-5)
  have "on_event sd js esc now l e c = c\<lparr>tl_channel := tl_channel c @ [LogMsg
     \<lparr>ql_level = level_to_tell (te_level e), ql_timestamp = now, ql_session_id = tl_session_id c,
      ql_component = (if ly_component_from_target l then Some (te_target e) else None), ql_service = None,
      ql_payload = Some (object_text (map (member_text esc) kvs))\<rparr>], tl_queue_full := False\<rparr>"
    by (simp add: on_event_def Let_def m p tell_log_def try_log_def try_log_with_service_def try_log_inner_def
        validate_log_message_def enqueue_def try_send_def message_member [where esc = esc])
  with object_reads_back [OF assms(6)] show ?thesis by blast
qed

theorem layer_forwards_witness:
  "\<exists>text. map (\<lambda>m. case m of LogMsg l \<Rightarrow> Some (ql_level l, ql_payload l) | _ \<Rightarrow> None)
    (tl_channel (on_event sample_serde (\<lambda>_. [51]) id 5 layer_new
      \<lparr>te_level = WARN, te_name = [101], te_target = [116],
       te_fields = [(MESSAGE_FIELD, VStr [104]), ([110], VU64 3)]\<rparr> sample_client)) = [Some (Warning, Some text)] \<and>
    read_object id text = Some [(MESSAGE_FIELD, [0x22, 104, 0x22]), ([110], [51])]"
proof -
  let ?e = "\<lparr>te_level = WARN, te_name = [101], te_target = [116],
    te_fields = [(MESSAGE_FIELD, VStr [104]), ([110], VU64 3)]\<rparr>"
  have m: "message_of ?e = [104]" "members_of sample_serde (\<lambda>_. [51]) ?e = [([110], [51])]"
    by (simp_all add: message_of_def members_of_def json_of_def)
  have ok: "list_all (member_ok id id) [(MESSAGE_FIELD, [0x22, 104, 0x22]), ([110], [51])]" by code_simp
  have c: "tl_connected sample_client" "length (tl_channel sample_client) < tl_capacity sample_client" "tl_channel sample_client = []"
    by (simp_all add: sample_client_def)
  obtain t where "on_event sample_serde (\<lambda>_. [51]) id 5 layer_new ?e sample_client = sample_client\<lparr>tl_channel := [LogMsg
     \<lparr>ql_level = Warning, ql_timestamp = 5, ql_session_id = tl_session_id sample_client, ql_component = Some [116], ql_service = None,
      ql_payload = Some t\<rparr>], tl_queue_full := False\<rparr>"
    "read_object id t = Some [(MESSAGE_FIELD, [0x22, 104, 0x22]), ([110], [51])]"
    using layer_forwards [of ?e sample_client _ sample_serde "\<lambda>_. [51]" id id 5 layer_new, OF _ _ c(1,2) refl] m ok c(3)
    by (auto simp: sample_serde_def layer_new_def)
  then show ?thesis by (intro exI [of _ t]) simp
qed

end
