(* ===== verification/Bench.thy ===== *)
theory Bench
  imports Json_Reader
begin

section \<open>The benchmark scenarios (\<open>tell-bench/src/lib.rs\<close>)\<close>

text \<open>
  The table of scenarios and the generator of payloads. \<open>serde_json\<close> is a parameter: \<open>to_vec\<close>
  is what it writes for a map of strings, given as the pairs inserted, whose keys differ.
\<close>

record BenchScenario =
  bs_name :: string
  bs_events_per_batch :: nat
  bs_payload_size :: nat

definition total_bytes :: "BenchScenario \<Rightarrow> nat" where
  "total_bytes s = bs_events_per_batch s * bs_payload_size s"

definition SCENARIOS :: "BenchScenario list" where
  "SCENARIOS =
    [\<lparr>bs_name = ''realtime_small'', bs_events_per_batch = 10, bs_payload_size = 100\<rparr>,
     \<lparr>bs_name = ''typical'', bs_events_per_batch = 100, bs_payload_size = 200\<rparr>,
     \<lparr>bs_name = ''high_volume'', bs_events_per_batch = 500, bs_payload_size = 200\<rparr>,
     \<lparr>bs_name = ''large_events'', bs_events_per_batch = 100, bs_payload_size = 1000\<rparr>]"

definition SCENARIOS_QUICK :: "BenchScenario list" where
  "SCENARIOS_QUICK = [SCENARIOS ! 1, SCENARIOS ! 2]"

definition generate_payload :: "((str \<times> str) list \<Rightarrow> bytes) \<Rightarrow> nat \<Rightarrow> bytes" where
  "generate_payload to_vec sz =
    (let obj = [(str_of ''user_id'', str_of ''user_bench_123''), (str_of ''event'', str_of ''Benchmark Event'')];
         base = to_vec obj in
     if sz \<le> length base then base
     else let remaining = sz - (length base + 20);
              padding = replicate remaining 0x78 in
          to_vec (obj @ [(str_of ''data'', padding)]))"

text \<open>The text of a member whose key and value need no escape.\<close>

definition plain_member :: "str \<times> str \<Rightarrow> str \<times> bytes" where
  "plain_member kv = (fst kv, [0x22] @ snd kv @ [0x22])"

text \<open>A map is written as an object over its members, in an order of the serializer's own.\<close>

definition writes_objects :: "((str \<times> str) list \<Rightarrow> bytes) \<Rightarrow> bool" where
  "writes_objects to_vec \<longleftrightarrow> (\<forall>kvs. distinct (map fst kvs) \<longrightarrow> list_all (\<lambda>kv. key_is_plain (fst kv) \<and> key_is_plain (snd kv)) kvs \<longrightarrow>
     (\<exists>kvs'. mset kvs' = mset kvs \<and> to_vec kvs = object_text (map (member_text id) (map plain_member kvs'))))"

lemma literal_value:
  assumes "key_is_plain s"
  shows "value_text ([0x22] @ s @ [0x22])"
proof -
  have "literal_end (s @ [0x22, 0x2C]) = Some (s, [0x2C])" using literal_plain [OF assms, of "[0x2C]"] by simp
  moreover have "value_end 0 [0x2C] = Some ([], [0x2C])" by code_simp
  ultimately show ?thesis by (simp add: value_text_def value_end_string)
qed

lemma length_join: "length (join_members ms) + 1 = sum_list (map length ms) + length ms" if "ms \<noteq> []"
  using that by (induction ms rule: join_members.induct) auto

lemma map_text:
  assumes "writes_objects to_vec" "distinct (map fst kvs)" "list_all (\<lambda>kv. key_is_plain (fst kv) \<and> key_is_plain (snd kv)) kvs" "kvs \<noteq> []"
  shows "length (to_vec kvs) = sum_list (map (\<lambda>kv. length (fst kv) + length (snd kv) + 6) kvs) + 1"
    "\<exists>kvs'. read_object id (to_vec kvs) = Some kvs' \<and> mset kvs' = mset (map plain_member kvs)"
proof -
  obtain kvs' where w: "mset kvs' = mset kvs" "to_vec kvs = object_text (map (member_text id) (map plain_member kvs'))"
    using assms(1-3) unfolding writes_objects_def by blast
  have plain: "key_is_plain (fst kv) \<and> key_is_plain (snd kv)" if "kv \<in> set kvs'" for kv
    using that assms(3) mset_eq_setD [OF w(1)] by (auto simp: list_all_iff)
  let ?ms = "map (member_text id) (map plain_member kvs')"
  have "kvs' \<noteq> []" using w(1) assms(4) by auto
  then have "length (to_vec kvs) = sum_list (map length ?ms) + length ?ms + 1"
    using length_join [of ?ms] w(2) by (simp add: object_text_def)
  also have "map length ?ms = map (\<lambda>kv. length (fst kv) + length (snd kv) + 5) kvs'"
    using plain by (simp add: member_text_def plain_member_def key_text_def)
  also have "sum_list \<dots> + length ?ms + 1 = sum_list (map (\<lambda>kv. length (fst kv) + length (snd kv) + 6) kvs') + 1"
    by (induction kvs') simp_all
  also have "sum_list (map (\<lambda>kv. length (fst kv) + length (snd kv) + 6) kvs') = sum_list (map (\<lambda>kv. length (fst kv) + length (snd kv) + 6) kvs)"
    using arg_cong [OF w(1), of "\<lambda>m. sum_mset (image_mset (\<lambda>kv. length (fst kv) + length (snd kv) + 6) m)"]
    by (simp add: sum_mset_sum_list flip: mset_map)
  finally show "length (to_vec kvs) = sum_list (map (\<lambda>kv. length (fst kv) + length (snd kv) + 6) kvs) + 1" .
  have "list_all (member_ok id id) (map plain_member kvs')"
    using plain literal_value by (simp add: list_all_iff member_ok_def plain_member_def)
  from object_reads_back [OF this] w
  show "\<exists>kvs'. read_object id (to_vec kvs) = Some kvs' \<and> mset kvs' = mset (map plain_member kvs)"
    by (intro exI [of _ "map plain_member kvs'"]) simp
qed

text \<open>
  The generator gives a payload of ten bytes less than the size asked for, from 74 bytes on, and
  no more than needed below that; it is an object that reads back, with the user id and the event.
\<close>

lemma str_of_plain:
  "key_is_plain (str_of ''user_id'')" "key_is_plain (str_of ''user_bench_123'')" "key_is_plain (str_of ''event'')"
  "key_is_plain (str_of ''Benchmark Event'')" "key_is_plain (str_of ''data'')" "key_is_plain (replicate n 0x78)"
proof -
  show "key_is_plain (str_of ''user_id'')" "key_is_plain (str_of ''user_bench_123'')" "key_is_plain (str_of ''event'')"
    "key_is_plain (str_of ''Benchmark Event'')" "key_is_plain (str_of ''data'')" by code_simp+
  show "key_is_plain (replicate n 0x78)" by (induction n) simp_all
qed

lemma str_of_distinct: "distinct [str_of ''user_id'', str_of ''event'', str_of ''data'']"
  by code_simp

theorem generate_payload_size:
  assumes "writes_objects to_vec"
  shows "length (generate_payload to_vec sz) = (if sz \<le> 54 then 54 else max 64 (sz - 10)) \<and>
    (\<exists>kvs. read_object id (generate_payload to_vec sz) = Some kvs \<and> {str_of ''user_id'', str_of ''event''} \<subseteq> set (map fst kvs))"
proof -
  let ?obj = "[(str_of ''user_id'', str_of ''user_bench_123''), (str_of ''event'', str_of ''Benchmark Event'')]"
  let ?full = "?obj @ [(str_of ''data'', replicate (sz - 74) 0x78)]"
  have len: "length (str_of ''user_id'') = 7" "length (str_of ''user_bench_123'') = 14" "length (str_of ''event'') = 5"
    "length (str_of ''Benchmark Event'') = 15" "length (str_of ''data'') = 4"
    by (simp_all add: str_of_def)
  have keys: "distinct (map fst ?obj)" "distinct (map fst ?full)" using str_of_distinct by auto
  have reads: "\<exists>kvs. read_object id (to_vec kvs1) = Some kvs \<and> {str_of ''user_id'', str_of ''event''} \<subseteq> set (map fst kvs)"
    if "\<exists>kvs'. read_object id (to_vec kvs1) = Some kvs' \<and> mset kvs' = mset (map plain_member kvs1)" "set ?obj \<subseteq> set kvs1" for kvs1
  proof -
    note kvs1 = that
    obtain kvs' where k: "read_object id (to_vec kvs1) = Some kvs'" "mset kvs' = mset (map plain_member kvs1)" using kvs1(1) by blast
    have "set (map fst kvs') = fst ` set kvs1"
      using mset_eq_setD [OF k(2)] by (simp add: image_image plain_member_def)
    moreover have "{str_of ''user_id'', str_of ''event''} \<subseteq> fst ` set kvs1" using image_mono [OF kvs1(2), of fst] by simp
    ultimately show ?thesis using k(1) by blast
  qed
  have base: "length (to_vec ?obj) = 54" using map_text(1) [OF assms keys(1)] str_of_plain len by simp
  have full: "length (to_vec ?full) = 64 + (sz - 74)" using map_text(1) [OF assms keys(2)] str_of_plain len by simp
  have gen: "generate_payload to_vec sz = (if sz \<le> 54 then to_vec ?obj else to_vec ?full)"
    by (simp add: generate_payload_def Let_def base)
  show ?thesis
  proof (cases "sz \<le> 54")
    case True
    with gen base reads [OF map_text(2) [OF assms keys(1)]] str_of_plain show ?thesis by simp
  next
    case False
    with gen full reads [OF map_text(2) [OF assms keys(2)]] str_of_plain show ?thesis by (simp add: max_def)
  qed
qed

definition sample_to_vec :: "(str \<times> str) list \<Rightarrow> bytes" where
  "sample_to_vec kvs = object_text (map (member_text id) (map plain_member kvs))"

theorem generate_payload_size_witness:
  "length (generate_payload sample_to_vec 200) = 190"
proof -
  have "writes_objects sample_to_vec" by (auto simp: writes_objects_def sample_to_vec_def)
  from generate_payload_size [OF this, of 200] show ?thesis by simp
qed

end
